(* ===== verification/Prelude.thy ===== *)
theory Prelude
  imports Main "HOL-Library.Word"
begin

text \<open>
  Shared vocabulary of the development: schedules and reachability for step
  functions, the two locales that carry safety and termination proofs for all
  the concurrent programs, the C integer types, and generic list lemmas.

  A concurrent program is a step function \<open>step :: 'i \<Rightarrow> 's \<Rightarrow> 's option\<close>:
  \<open>step i s\<close> is the state after actor \<open>i\<close> performs its next atomic action,
  and \<open>None\<close> when that actor cannot move (blocked, finished, or not started).
  A schedule is a list of actors, so every interleaving is an explicit value and
  can be evaluated.
\<close>

section \<open>Collections of rewrite rules\<close>

named_theorems sem_simps \<open>the semaphore and mutex operations on live objects\<close>
named_theorems cstr_simps \<open>the C string functions on explicit buffers\<close>

section \<open>C integers\<close>

type_synonym i32 = int
type_synonym u32 = "32 word"
type_synonym u64 = "64 word"

abbreviation (input) INT32_MAX :: int where "INT32_MAX \<equiv> 2147483647"
abbreviation (input) INT32_MIN :: int where "INT32_MIN \<equiv> - 2147483648"

text \<open>
  Signed overflow is undefined behaviour in C: a signed result is checked, and
  \<open>None\<close> is the undefined case.
\<close>

definition i32_check :: "int \<Rightarrow> i32 option" where
  "i32_check x = (if INT32_MIN \<le> x \<and> x \<le> INT32_MAX then Some x else None)"

lemma i32_check_Some [simp]: "INT32_MIN \<le> x \<Longrightarrow> x \<le> INT32_MAX \<Longrightarrow> i32_check x = Some x"
  by (simp add: i32_check_def)

lemma i32_check_eq_Some: "i32_check x = Some y \<longleftrightarrow> y = x \<and> INT32_MIN \<le> x \<and> x \<le> INT32_MAX"
  by (auto simp: i32_check_def)

lemma i32_check_eq_None: "i32_check x = None \<longleftrightarrow> x < INT32_MIN \<or> INT32_MAX < x"
  by (auto simp: i32_check_def)

section \<open>Schedules and reachability\<close>

primrec run :: "('i \<Rightarrow> 's \<Rightarrow> 's option) \<Rightarrow> 'i list \<Rightarrow> 's \<Rightarrow> 's option" where
  "run step [] s = Some s"
| "run step (i # sch) s = (case step i s of None \<Rightarrow> None | Some t \<Rightarrow> run step sch t)"

inductive reach :: "('i \<Rightarrow> 's \<Rightarrow> 's option) \<Rightarrow> 's \<Rightarrow> 's \<Rightarrow> bool" for step s0 where
  start: "reach step s0 s0"
| step: "reach step s0 s \<Longrightarrow> step i s = Some t \<Longrightarrow> reach step s0 t"

lemma run_append:
  "run step (xs @ ys) s = (case run step xs s of None \<Rightarrow> None | Some t \<Rightarrow> run step ys t)"
  by (induction xs arbitrary: s) (auto split: option.splits)

lemma run_snoc:
  "run step (xs @ [i]) s = (case run step xs s of None \<Rightarrow> None | Some t \<Rightarrow> step i t)"
  by (auto simp: run_append split: option.splits)

lemma run_reach_from: "reach step s0 s \<Longrightarrow> run step sch s = Some t \<Longrightarrow> reach step s0 t"
  by (induction sch arbitrary: s) (auto split: option.splits intro: reach.step)

lemma reach_run: "reach step s0 s \<Longrightarrow> \<exists>sch. run step sch s0 = Some s"
proof (induction rule: reach.induct)
  case start
  show ?case by (rule exI [where x = "[]"]) simp
next
  case (step s i t)
  then obtain sch where "run step sch s0 = Some s" by blast
  with step.hyps(2) have "run step (sch @ [i]) s0 = Some t"
    by (simp add: run_snoc)
  then show ?case by blast
qed

lemma reach_iff_run: "reach step s0 s \<longleftrightarrow> (\<exists>sch. run step sch s0 = Some s)"
  by (meson reach_run run_reach_from reach.start)

section \<open>Safety and termination, once and for all\<close>

text \<open>
  \<open>invariant_system\<close>: a step function with a predicate that its initial state
  satisfies and every step keeps. \<open>terminating_system\<close> adds a measure that
  every step decreases and the fact that a state in which nobody can move is
  final; then every schedule is finite, and a schedule that cannot be extended
  ends in a final state.
\<close>

locale invariant_system =
  fixes step :: "'i \<Rightarrow> 's \<Rightarrow> 's option"
    and s0 :: 's
    and inv :: "'s \<Rightarrow> bool"
  assumes inv_start: "inv s0"
    and inv_step: "inv s \<Longrightarrow> step i s = Some t \<Longrightarrow> inv t"
begin

lemma run_inv_from: "inv s \<Longrightarrow> run step sch s = Some t \<Longrightarrow> inv t"
  by (induction sch arbitrary: s) (auto split: option.splits intro: inv_step)

lemma run_inv: "run step sch s0 = Some s \<Longrightarrow> inv s"
  by (rule run_inv_from [OF inv_start])

lemma reach_inv: "reach step s0 s \<Longrightarrow> inv s"
  by (induction rule: reach.induct) (auto intro: inv_start inv_step)

end

locale terminating_system = invariant_system +
  fixes mu :: "'s \<Rightarrow> nat"
    and final :: "'s \<Rightarrow> bool"
  assumes mu_step: "inv s \<Longrightarrow> step i s = Some t \<Longrightarrow> mu t < mu s"
    and stuck_final: "inv s \<Longrightarrow> (\<And>i. step i s = None) \<Longrightarrow> final s"
begin

lemma run_bounded_from: "inv s \<Longrightarrow> run step sch s = Some t \<Longrightarrow> length sch + mu t \<le> mu s"
proof (induction sch arbitrary: s)
  case Nil
  then show ?case by simp
next
  case (Cons i sch)
  then obtain u where u: "step i s = Some u" "run step sch u = Some t"
    by (auto split: option.splits)
  with Cons.prems have "length sch + mu t \<le> mu u" and "mu u < mu s"
    by (auto intro: Cons.IH inv_step mu_step)
  then show ?case by simp
qed

lemma run_bounded: "run step sch s0 = Some s \<Longrightarrow> length sch \<le> mu s0"
  using run_bounded_from [OF inv_start] by fastforce

lemma maximal_final:
  "run step sch s0 = Some s \<Longrightarrow> (\<And>i. step i s = None) \<Longrightarrow> final s"
  by (auto intro: stuck_final run_inv)

lemma completes_from: "inv s \<Longrightarrow> \<exists>sch t. run step sch s = Some t \<and> (\<forall>i. step i t = None) \<and> final t"
proof (induction "mu s" arbitrary: s rule: less_induct)
  case less
  show ?case
  proof (cases "\<forall>i. step i s = None")
    case True
    with less.prems have "final s" by (blast intro: stuck_final)
    with True show ?thesis by (intro exI [where x = "[]"] exI [where x = s]) simp
  next
    case False
    then obtain i u where u: "step i s = Some u" by auto
    with less.prems have "mu u < mu s" and "inv u" by (auto intro: mu_step inv_step)
    then obtain sch t where "run step sch u = Some t" "\<forall>i. step i t = None" "final t"
      using less.hyps by blast
    with u show ?thesis by (intro exI [where x = "i # sch"] exI [where x = t]) simp
  qed
qed

lemma completes: "\<exists>sch t. run step sch s0 = Some t \<and> (\<forall>i. step i t = None) \<and> final t"
  by (rule completes_from [OF inv_start])

end

section \<open>Lists\<close>

lemma list_update_nth_if:
  "i < length xs \<Longrightarrow> j < length xs \<Longrightarrow> xs[i := x] ! j = (if j = i then x else xs ! j)"
  by simp

lemma sum_list_update_nat:
  fixes f :: "nat \<Rightarrow> 'a \<Rightarrow> nat"
  assumes "i < length xs"
  shows "(\<Sum>j<length xs. f j (xs[i := x] ! j)) + f i (xs ! i) = (\<Sum>j<length xs. f j (xs ! j)) + f i x"
proof -
  have eq: "{..<length xs} = insert i ({..<length xs} - {i})"
    using assms by auto
  have rest: "(\<Sum>j\<in>{..<length xs} - {i}. f j (xs[i := x] ! j)) = (\<Sum>j\<in>{..<length xs} - {i}. f j (xs ! j))"
    by (rule sum.cong) auto
  have "(\<Sum>j<length xs. f j (xs[i := x] ! j)) = f i x + (\<Sum>j\<in>{..<length xs} - {i}. f j (xs ! j))"
    using assms rest by (subst eq) (simp add: sum.insert_remove)
  moreover have "(\<Sum>j<length xs. f j (xs ! j)) = f i (xs ! i) + (\<Sum>j\<in>{..<length xs} - {i}. f j (xs ! j))"
    using assms by (subst eq) (simp add: sum.insert_remove)
  ultimately show ?thesis by simp
qed

lemma sum_update_less:
  fixes f :: "nat \<Rightarrow> 'a \<Rightarrow> nat"
  assumes "i < length xs" and "f i x < f i (xs ! i)"
  shows "(\<Sum>j<length xs. f j (xs[i := x] ! j)) < (\<Sum>j<length xs. f j (xs ! j))"
  using sum_list_update_nat [OF assms(1), of f x] assms(2) by linarith

end
