(* ===== verification/Posix_Semaphore.thy ===== *)
theory Posix_Semaphore
  imports Prelude
begin

text \<open>
  \<^verbatim>\<open>c/include/posix_semaphore.h\<close>: the portable semaphore \<open>struct rk_sema\<close>
  over a POSIX \<open>sem_t\<close> (the branch without \<open>__APPLE__\<close>), and the two contracts
  its clients rely on: \<open>counting_semaphore\<close>, and \<open>lock\<close> for a semaphore that
  starts at one.

  A \<open>sem_t\<close> is valid between \<open>sem_init\<close> and \<open>sem_destroy\<close> and has a value.
  The \<open>sem_*\<close> calls return their result, the value of \<open>errno\<close> when that
  result is \<open>-1\<close>, and the new semaphore. \<open>sem_wait\<close> takes one more argument:
  whether a signal handler interrupts the call while it sleeps; it is \<open>None\<close>
  while the call sleeps.
\<close>

section \<open>POSIX semaphores\<close>

datatype errno = EOK | EINTR | EINVAL | EOVERFLOW

record sem_t =
  valid :: bool
  val :: nat

definition SEM_VALUE_MAX :: int where
  "SEM_VALUE_MAX = 2147483647"

definition sem_init :: "sem_t \<Rightarrow> i32 \<Rightarrow> u32 \<Rightarrow> int \<times> errno \<times> sem_t" where
  "sem_init m pshared v =
     (if SEM_VALUE_MAX < uint v then (-1, EINVAL, m)
      else (0, EOK, \<lparr>valid = True, val = unat v\<rparr>))"

definition sem_wait :: "bool \<Rightarrow> sem_t \<Rightarrow> (int \<times> errno \<times> sem_t) option" where
  "sem_wait interrupted m =
     (if \<not> valid m then Some (-1, EINVAL, m)
      else if 0 < val m then Some (0, EOK, m\<lparr>val := val m - 1\<rparr>)
      else if interrupted then Some (-1, EINTR, m)
      else None)"

definition sem_post :: "sem_t \<Rightarrow> int \<times> errno \<times> sem_t" where
  "sem_post m =
     (if \<not> valid m then (-1, EINVAL, m)
      else if int (val m) = SEM_VALUE_MAX then (-1, EOVERFLOW, m)
      else (0, EOK, m\<lparr>val := val m + 1\<rparr>))"

definition sem_destroy :: "sem_t \<Rightarrow> int \<times> errno \<times> sem_t" where
  "sem_destroy m = (if valid m then (0, EOK, m\<lparr>valid := False\<rparr>) else (-1, EINVAL, m))"

section \<open>The wrapper\<close>

record rk_sema =
  sem :: sem_t

definition rk_sema_init :: "rk_sema \<Rightarrow> i32 \<Rightarrow> u32 \<Rightarrow> int \<times> rk_sema" where
  "rk_sema_init s shared v =
     (case sem_init (sem s) shared v of (r, _, m) \<Rightarrow> (r, s\<lparr>sem := m\<rparr>))"

text \<open>
  The loop calls \<open>sem_wait\<close> until it returns something else than an
  interruption. The list says which of the calls are interrupted; after the
  last one no signal arrives any more.
\<close>

fun rk_sema_wait :: "bool list \<Rightarrow> rk_sema \<Rightarrow> rk_sema option" where
  "rk_sema_wait [] s =
     (case sem_wait False (sem s) of None \<Rightarrow> None | Some (r, e, m) \<Rightarrow> Some (s\<lparr>sem := m\<rparr>))"
| "rk_sema_wait (intr # sigs) s =
     (case sem_wait intr (sem s) of
        None \<Rightarrow> None
      | Some (r, e, m) \<Rightarrow>
          if r = -1 \<and> e = EINTR then rk_sema_wait sigs (s\<lparr>sem := m\<rparr>)
          else Some (s\<lparr>sem := m\<rparr>))"

definition rk_sema_post :: "rk_sema \<Rightarrow> rk_sema" where
  "rk_sema_post s = (case sem_post (sem s) of (r, e, m) \<Rightarrow> s\<lparr>sem := m\<rparr>)"

definition rk_sema_destroy :: "rk_sema \<Rightarrow> int \<times> rk_sema" where
  "rk_sema_destroy s = (case sem_destroy (sem s) of (r, _, m) \<Rightarrow> (r, s\<lparr>sem := m\<rparr>))"

text \<open>A static semaphore before \<open>rk_sema_init\<close>, and a live one of value \<open>n\<close>.\<close>

definition raw_sema :: rk_sema where
  "raw_sema = \<lparr>sem = \<lparr>valid = False, val = 0\<rparr>\<rparr>"

definition live_sema :: "nat \<Rightarrow> rk_sema" where
  "live_sema n = \<lparr>sem = \<lparr>valid = True, val = n\<rparr>\<rparr>"

abbreviation sema_down :: "rk_sema \<Rightarrow> rk_sema option" where
  "sema_down \<equiv> rk_sema_wait []"

section \<open>The operations on live semaphores\<close>

declare rk_sema_wait.simps [simp del]

lemma live_sema_inject [simp]: "live_sema m = live_sema n \<longleftrightarrow> m = n"
  by (simp add: live_sema_def)

lemma sema_down_live [sem_simps]:
  "sema_down (live_sema n) = (case n of 0 \<Rightarrow> None | Suc k \<Rightarrow> Some (live_sema k))"
  by (cases n) (simp_all add: live_sema_def sem_wait_def rk_sema_wait.simps)

lemma sema_down_live_simps [simp]:
  "sema_down (live_sema 0) = None"
  "sema_down (live_sema (Suc k)) = Some (live_sema k)"
  "sema_down (live_sema 1) = Some (live_sema 0)"
  by (simp_all add: sema_down_live)

lemma rk_sema_post_live [sem_simps]:
  "int n < SEM_VALUE_MAX \<Longrightarrow> rk_sema_post (live_sema n) = live_sema (Suc n)"
  by (simp add: rk_sema_post_def sem_post_def live_sema_def)

lemma rk_sema_init_small [sem_simps]:
  "uint v \<le> SEM_VALUE_MAX \<Longrightarrow> rk_sema_init s shared v = (0, live_sema (unat v))"
  by (simp add: rk_sema_init_def sem_init_def live_sema_def)

lemma rk_sema_destroy_live [sem_simps]:
  "rk_sema_destroy (live_sema n) = (0, \<lparr>sem = \<lparr>valid = False, val = n\<rparr>\<rparr>)"
  by (simp add: rk_sema_destroy_def sem_destroy_def live_sema_def)

section \<open>Contracts\<close>

text \<open>
  What a client may assume of a counting semaphore: \<open>holds s n\<close> says that \<open>s\<close>
  is usable and has the value \<open>n\<close>.
\<close>

locale counting_semaphore =
  fixes create :: "nat \<Rightarrow> 's"
    and down :: "'s \<Rightarrow> 's option"
    and up :: "'s \<Rightarrow> 's"
    and holds :: "'s \<Rightarrow> nat \<Rightarrow> bool"
    and limit :: nat
  assumes limit_pos: "0 < limit"
    and holds_create: "n \<le> limit \<Longrightarrow> holds (create n) n"
    and down_zero: "holds s 0 \<Longrightarrow> down s = None"
    and down_Suc: "holds s (Suc n) \<Longrightarrow> \<exists>t. down s = Some t \<and> holds t n"
    and up_holds: "holds s n \<Longrightarrow> n < limit \<Longrightarrow> holds (up s) (Suc n)"
begin

lemma down_iff: "holds s n \<Longrightarrow> (\<exists>t. down s = Some t) \<longleftrightarrow> 0 < n"
  by (cases n) (auto simp: down_zero dest: down_Suc)

lemma up_down: "holds s n \<Longrightarrow> n < limit \<Longrightarrow> \<exists>t. down (up s) = Some t \<and> holds t n"
  using up_holds down_Suc by blast

end

text \<open>
  What a client may assume of a lock: \<open>held l (Some i)\<close> says that thread \<open>i\<close>
  holds \<open>l\<close>, \<open>held l None\<close> that it is free.
\<close>

locale lock =
  fixes acquire :: "nat \<Rightarrow> 'l \<Rightarrow> 'l option"
    and release :: "nat \<Rightarrow> 'l \<Rightarrow> 'l option"
    and held :: "'l \<Rightarrow> nat option \<Rightarrow> bool"
  assumes acquire_free: "held l None \<Longrightarrow> \<exists>l'. acquire i l = Some l' \<and> held l' (Some i)"
    and acquire_busy: "held l (Some j) \<Longrightarrow> acquire i l = None"
    and release_held: "held l (Some i) \<Longrightarrow> \<exists>l'. release i l = Some l' \<and> held l' None"
begin

lemma acquire_SomeD:
  assumes "held l h" and "acquire i l = Some l'"
  shows "h = None \<and> held l' (Some i)"
proof (cases h)
  case None
  with assms acquire_free [of l i] show ?thesis by auto
next
  case (Some j)
  with assms acquire_busy [of l j i] show ?thesis by simp
qed

lemma release_SomeD: "held l (Some i) \<Longrightarrow> release i l = Some l' \<Longrightarrow> held l' None"
  using release_held [of l i] by auto

lemma acquire_none_iff: "held l h \<Longrightarrow> acquire i l = None \<longleftrightarrow> h \<noteq> None"
  using acquire_free [of l i] acquire_busy by (cases h) auto

end

text \<open>A semaphore of value one is a lock, whoever posts it.\<close>

sublocale counting_semaphore \<subseteq> binary: lock "\<lambda>i. down" "\<lambda>i s. Some (up s)"
  "\<lambda>s h. holds s (if h = None then 1 else 0)"
proof unfold_locales
  fix l :: 's and i :: nat
  assume "holds l (if (None :: nat option) = None then 1 else 0)"
  then have "holds l (Suc 0)" by simp
  then show "\<exists>l'. down l = Some l' \<and> holds l' (if Some i = None then 1 else 0)"
    using down_Suc by auto
next
  fix l :: 's and i j :: nat
  assume "holds l (if Some j = None then 1 else 0)"
  then show "down l = None" by (simp add: down_zero)
next
  fix l :: 's and i :: nat
  assume "holds l (if Some i = None then 1 else 0)"
  then show "\<exists>l'. Some (up l) = Some l' \<and> holds l' (if (None :: nat option) = None then 1 else 0)"
    using up_holds limit_pos by auto
qed

definition sema_holds :: "rk_sema \<Rightarrow> nat \<Rightarrow> bool" where
  "sema_holds s n \<longleftrightarrow> s = live_sema n"

interpretation rk: counting_semaphore live_sema sema_down rk_sema_post sema_holds "nat SEM_VALUE_MAX"
proof unfold_locales
  show "0 < nat SEM_VALUE_MAX" by (simp add: SEM_VALUE_MAX_def)
qed (auto simp: sema_holds_def sem_simps)

section \<open>Properties of the wrapper\<close>

text \<open>
  C29. \<open>rk_sema_wait\<close> hides interruptions: whatever signals arrive while it
  sleeps, it behaves as an uninterrupted wait. It takes one unit from a live
  semaphore that has one, it sleeps on a live semaphore of value zero, and only
  on an invalid semaphore does it come back without having taken anything.
\<close>

theorem rk_sema_wait_hides_EINTR:
  "rk_sema_wait sigs s =
     (if \<not> valid (sem s) then Some s
      else if 0 < val (sem s) then Some (s\<lparr>sem := (sem s)\<lparr>val := val (sem s) - 1\<rparr>\<rparr>)
      else None)"
  by (induction sigs s rule: rk_sema_wait.induct) (auto simp: sem_wait_def rk_sema_wait.simps)

end
