(* ===== verification/Cpp_Odd_Even.thy ===== *)
theory Cpp_Odd_Even
  imports Posix_Semaphore
begin

text \<open>
  The class \<open>Binary::Semaphore\<close> of \<^verbatim>\<open>cpp/include/buffer.hh\<close>, the C++ version of lab 5a
  (\<^verbatim>\<open>cpp/cc_lab05_a.cc\<close>): two threads run the same lambda, one for the odd and one for the even
  numbers, each waiting on its own semaphore and posting the other's. Unlike in the C
  version (theory \<open>Odd_Even\<close>), a thread looks at the counter only after it has posted the
  other's semaphore, when the other thread may already be incrementing it.

  The constructor, \<open>run\<close>, the lambda and the destructor are modelled for any limit \<open>LEN\<close>; that
  the creation of a thread fails is not. The counter is read and written in single actions,
  as on the machine; in C++ the unsynchronised read is a data race.
\<close>

section \<open>The program\<close>

datatype side = Odd | Even

fun other :: "side \<Rightarrow> side" where "other Odd = Even" | "other Even = Odd"

datatype b_pc = B_unborn | B_wait | B_inc | B_out nat | B_post | B_test | B_end

datatype m_pc = M_odd | M_even | M_join_odd | M_join_even | M_destroy | M_done | M_error

record b_state =
  sem_of :: "side \<Rightarrow> rk_sema"
  counter :: nat
  pc_of :: "side \<Rightarrow> b_pc"
  main_pc :: m_pc
  printed :: "(side \<times> nat) list"

text \<open>One action of the lambda \<open>print_number\<close>, called with \<open>is_odd\<close> for \<open>Odd\<close>.\<close>

definition print_number :: "nat \<Rightarrow> side \<Rightarrow> b_state \<Rightarrow> b_state option" where
  "print_number LEN x s =
     (case pc_of s x of
        B_wait \<Rightarrow>
          (case sema_down (sem_of s x) of
             None \<Rightarrow> None
           | Some m \<Rightarrow> Some (s\<lparr>sem_of := (sem_of s)(x := m), pc_of := (pc_of s)(x := B_inc)\<rparr>))
      | B_inc \<Rightarrow> Some (s\<lparr>counter := counter s + 1, pc_of := (pc_of s)(x := B_out (counter s))\<rparr>)
      | B_out v \<Rightarrow> Some (s\<lparr>printed := printed s @ [(x, v)], pc_of := (pc_of s)(x := B_post)\<rparr>)
      | B_post \<Rightarrow>
          Some (s\<lparr>sem_of := (sem_of s)(other x := rk_sema_post (sem_of s (other x))), pc_of := (pc_of s)(x := B_test)\<rparr>)
      | B_test \<Rightarrow> Some (s\<lparr>pc_of := (pc_of s)(x := (if counter s < LEN then B_wait else B_end))\<rparr>)
      | _ \<Rightarrow> None)"

text \<open>\<open>run\<close> and the destructor, called from \<open>main\<close>.\<close>

definition b_main :: "b_state \<Rightarrow> b_state option" where
  "b_main s =
     (case main_pc s of
        M_odd \<Rightarrow> Some (s\<lparr>pc_of := (pc_of s)(Odd := B_wait), main_pc := M_even\<rparr>)
      | M_even \<Rightarrow> Some (s\<lparr>pc_of := (pc_of s)(Even := B_wait), main_pc := M_join_odd\<rparr>)
      | M_join_odd \<Rightarrow> if pc_of s Odd = B_end then Some (s\<lparr>main_pc := M_join_even\<rparr>) else None
      | M_join_even \<Rightarrow> if pc_of s Even = B_end then Some (s\<lparr>main_pc := M_destroy\<rparr>) else None
      | M_destroy \<Rightarrow>
          (case (rk_sema_destroy (sem_of s Odd), rk_sema_destroy (sem_of s Even)) of
             ((r, a), (q, b)) \<Rightarrow>
               Some (s\<lparr>sem_of := (sem_of s)(Odd := a, Even := b), main_pc := (if r \<noteq> 0 \<or> q \<noteq> 0 then M_error else M_done)\<rparr>))
      | _ \<Rightarrow> None)"

datatype b_actor = Thread side | Main

fun b_step :: "nat \<Rightarrow> b_actor \<Rightarrow> b_state \<Rightarrow> b_state option" where
  "b_step LEN (Thread x) s = print_number LEN x s"
| "b_step LEN Main s = b_main s"

text \<open>The constructor.\<close>

definition b_start :: b_state where
  "b_start =
     \<lparr>sem_of = (\<lambda>x. snd (rk_sema_init raw_sema 0 (if x = Odd then 1 else 0))), counter = 1, pc_of = (\<lambda>_. B_unborn), main_pc = M_odd,
      printed = []\<rparr>"

section \<open>The invariant\<close>

text \<open>
  \<open>turn n\<close> is the thread that prints the number \<open>n\<close>. While \<open>n\<close> is the next number to be
  printed, its thread is at one of the first three places or about to be woken, and the
  other thread has nothing to do but to look at the counter.
\<close>

definition turn :: "nat \<Rightarrow> side" where
  "turn n = (if odd n then Odd else Even)"

definition numbers :: "nat \<Rightarrow> (side \<times> nat) list" where
  "numbers n = map (\<lambda>k. (turn k, k)) [1..<n]"

fun waiting :: "nat \<Rightarrow> nat \<Rightarrow> b_pc \<Rightarrow> bool" where
  "waiting LEN n B_unborn = (n \<le> 2)"
| "waiting LEN n B_wait = (n \<le> LEN)"
| "waiting LEN n B_test = True"
| "waiting LEN n B_end = (LEN \<le> n)"
| "waiting LEN n _ = False"

fun idle :: "nat \<Rightarrow> nat \<Rightarrow> b_pc \<Rightarrow> bool" where
  "idle LEN n B_unborn = (n \<le> 1)"
| "idle LEN n B_wait = (n < LEN)"
| "idle LEN n B_test = True"
| "idle LEN n B_end = (LEN \<le> n)"
| "idle LEN n _ = False"

text \<open>The next number's thread at \<open>p\<close> with its semaphore at \<open>v\<close>, and the other one at \<open>q\<close>.\<close>

fun at_turn :: "nat \<Rightarrow> nat \<Rightarrow> b_pc \<Rightarrow> b_pc \<Rightarrow> nat \<Rightarrow> nat \<Rightarrow> (side \<times> nat) list \<Rightarrow> bool" where
  "at_turn LEN n B_inc q v c out \<longleftrightarrow> n \<le> LEN \<and> v = 0 \<and> c = n \<and> out = numbers n \<and> waiting LEN (n + 1) q"
| "at_turn LEN n (B_out k) q v c out \<longleftrightarrow> n \<le> LEN \<and> v = 0 \<and> k = n \<and> c = n + 1 \<and> out = numbers n \<and> waiting LEN (n + 1) q"
| "at_turn LEN n B_post q v c out \<longleftrightarrow> n \<le> LEN \<and> v = 0 \<and> c = n + 1 \<and> out = numbers (n + 1) \<and> waiting LEN (n + 1) q"
| "at_turn LEN n p q v c out \<longleftrightarrow> n \<le> LEN + 1 \<and> waiting LEN n p \<and> v = 1 \<and> c = n \<and> out = numbers n \<and> idle LEN n q"

fun main_ok :: "m_pc \<Rightarrow> b_pc \<Rightarrow> b_pc \<Rightarrow> bool" where
  "main_ok M_odd po pe \<longleftrightarrow> po = B_unborn \<and> pe = B_unborn"
| "main_ok M_even po pe \<longleftrightarrow> po \<noteq> B_unborn \<and> pe = B_unborn"
| "main_ok M_join_odd po pe \<longleftrightarrow> po \<noteq> B_unborn \<and> pe \<noteq> B_unborn"
| "main_ok M_join_even po pe \<longleftrightarrow> po = B_end \<and> pe \<noteq> B_unborn"
| "main_ok M_destroy po pe \<longleftrightarrow> po = B_end \<and> pe = B_end"
| "main_ok M_done po pe \<longleftrightarrow> po = B_end \<and> pe = B_end"
| "main_ok M_error po pe \<longleftrightarrow> False"

definition b_at :: "nat \<Rightarrow> nat \<Rightarrow> b_state \<Rightarrow> bool" where
  "b_at LEN n s \<longleftrightarrow>
     1 \<le> n \<and>
     (\<exists>v. (main_pc s \<noteq> M_done \<longrightarrow> sem_of s (turn n) = live_sema v \<and> sem_of s (other (turn n)) = live_sema 0) \<and>
          at_turn LEN n (pc_of s (turn n)) (pc_of s (other (turn n))) v (counter s) (printed s))"

definition b_inv :: "nat \<Rightarrow> b_state \<Rightarrow> bool" where
  "b_inv LEN s \<longleftrightarrow> main_ok (main_pc s) (pc_of s Odd) (pc_of s Even) \<and> (\<exists>n. b_at LEN n s)"

lemma other_neq [simp]: "other x \<noteq> x" "x \<noteq> other x" "other (other x) = x"
  by (cases x; simp)+

lemma turn_Suc [simp]: "turn (Suc n) = other (turn n)"
  by (simp add: turn_def)

lemma numbers_Suc: "1 \<le> n \<Longrightarrow> numbers (Suc n) = numbers n @ [(turn n, n)]"
  by (simp add: numbers_def)

lemma side_cases: "x = turn n \<or> x = other (turn n)"
  by (cases x; cases "turn n") auto

lemma main_ok_alive: "main_ok m po pe \<Longrightarrow> po \<noteq> B_end \<or> pe \<noteq> B_end \<Longrightarrow> m \<noteq> M_done \<and> m \<noteq> M_destroy"
  by (cases m) auto

text \<open>The step of the thread whose turn it is.\<close>

lemma b_turn_step:
  assumes b: "b_at LEN n s" and alive: "main_pc s \<noteq> M_done" and st: "print_number LEN (turn n) s = Some t"
  shows "b_at LEN n t \<or> b_at LEN (Suc n) t"
proof -
  from b alive obtain v where n: "1 \<le> n" and v: "sem_of s (turn n) = live_sema v" "sem_of s (other (turn n)) = live_sema 0"
    and at: "at_turn LEN n (pc_of s (turn n)) (pc_of s (other (turn n))) v (counter s) (printed s)" by (auto simp: b_at_def)
  have post: "rk_sema_post (live_sema 0) = live_sema 1" by (simp add: rk_sema_post_live SEM_VALUE_MAX_def)
  show ?thesis
  proof (cases "pc_of s (turn n)")
    case B_wait
    with at have v1: "v = Suc 0" "n \<le> LEN" "counter s = n" "printed s = numbers n" "idle LEN n (pc_of s (other (turn n)))" by auto
    with B_wait st v have t: "t = s\<lparr>sem_of := (sem_of s)(turn n := live_sema 0), pc_of := (pc_of s)(turn n := B_inc)\<rparr>"
      by (simp add: print_number_def)
    from v1 have "waiting LEN (n + 1) (pc_of s (other (turn n)))" by (cases "pc_of s (other (turn n))") auto
    with t v v1 n have "b_at LEN n t" by (auto simp: b_at_def)
    then show ?thesis ..
  next
    case B_inc
    with st have "t = s\<lparr>counter := counter s + 1, pc_of := (pc_of s)(turn n := B_out (counter s))\<rparr>" by (simp add: print_number_def)
    with B_inc at v n have "b_at LEN n t" by (auto simp: b_at_def)
    then show ?thesis ..
  next
    case (B_out k)
    with st have "t = s\<lparr>printed := printed s @ [(turn n, k)], pc_of := (pc_of s)(turn n := B_post)\<rparr>" by (simp add: print_number_def)
    with B_out at v n numbers_Suc [OF n] have "b_at LEN n t" by (auto simp: b_at_def)
    then show ?thesis ..
  next
    case B_post
    with st v post have t: "t = s\<lparr>sem_of := (sem_of s)(other (turn n) := live_sema 1), pc_of := (pc_of s)(turn n := B_test)\<rparr>"
      by (simp add: print_number_def)
    from B_post at have "n \<le> LEN" "v = 0" "counter s = Suc n" "printed s = numbers (Suc n)" "waiting LEN (Suc n) (pc_of s (other (turn n)))"
      by auto
    with t v have "b_at LEN (Suc n) t"
      by (cases "pc_of s (other (turn n))") (auto simp: b_at_def)
    then show ?thesis ..
  next
    case B_test
    with st have t: "t = s\<lparr>pc_of := (pc_of s)(turn n := (if counter s < LEN then B_wait else B_end))\<rparr>" by (simp add: print_number_def)
    with B_test at v n have "b_at LEN n t" by (cases "counter s < LEN") (auto simp: b_at_def)
    then show ?thesis ..
  qed (use st in \<open>simp_all add: print_number_def\<close>)
qed

text \<open>The other thread looks at the counter, and otherwise sleeps.\<close>

lemma b_other_step:
  assumes b: "b_at LEN n s" and alive: "main_pc s \<noteq> M_done" and st: "print_number LEN (other (turn n)) s = Some t"
  shows "pc_of s (other (turn n)) = B_test \<and> b_at LEN n t"
proof -
  from b alive obtain v where n: "1 \<le> n" and v: "sem_of s (turn n) = live_sema v" "sem_of s (other (turn n)) = live_sema 0"
    and at: "at_turn LEN n (pc_of s (turn n)) (pc_of s (other (turn n))) v (counter s) (printed s)" by (auto simp: b_at_def)
  have q: "pc_of s (other (turn n)) = B_test"
    using at v st by (cases "pc_of s (turn n)"; cases "pc_of s (other (turn n))") (auto simp: print_number_def)
  with st have t: "t = s\<lparr>pc_of := (pc_of s)(other (turn n) := (if counter s < LEN then B_wait else B_end))\<rparr>" by (simp add: print_number_def)
  with q at v n have "b_at LEN n t"
    by (cases "counter s < LEN"; cases "pc_of s (turn n)") (auto simp: b_at_def)
  with q show ?thesis by simp
qed

lemma b_birth:
  assumes b: "b_at LEN n s" and "main_pc s \<noteq> M_done" and "2 \<le> LEN" and "pc_of s x = B_unborn"
  shows "b_at LEN n (s\<lparr>pc_of := (pc_of s)(x := B_wait), main_pc := m\<rparr>)"
proof -
  from b assms(2) obtain v where n: "1 \<le> n" and v: "sem_of s (turn n) = live_sema v" "sem_of s (other (turn n)) = live_sema 0"
    and at: "at_turn LEN n (pc_of s (turn n)) (pc_of s (other (turn n))) v (counter s) (printed s)" by (auto simp: b_at_def)
  from side_cases [of x n] show ?thesis
  proof
    assume "x = turn n"
    with at v n assms show ?thesis by (auto simp: b_at_def)
  next
    assume x: "x = other (turn n)"
    have "at_turn LEN n (pc_of s (turn n)) B_wait v (counter s) (printed s)"
      using x at assms(3,4) by (cases "pc_of s (turn n)") auto
    with x v n show ?thesis by (auto simp: b_at_def)
  qed
qed

lemma b_main_pc: "b_at LEN n s \<Longrightarrow> main_pc s \<noteq> M_done \<Longrightarrow> b_at LEN n (s\<lparr>main_pc := m\<rparr>)"
  by (auto simp: b_at_def)

lemma b_live_sems:
  assumes "b_at LEN n s" and "main_pc s \<noteq> M_done"
  shows "\<exists>a b. sem_of s Odd = live_sema a \<and> sem_of s Even = live_sema b"
proof (cases "turn n")
  case Odd
  with assms show ?thesis by (auto simp: b_at_def)
next
  case Even
  with assms show ?thesis by (auto simp: b_at_def)
qed

lemma b_main_inv:
  assumes inv: "b_inv LEN s" and "2 \<le> LEN" and st: "b_main s = Some t"
  shows "b_inv LEN t"
proof -
  from inv obtain n where b: "b_at LEN n s" and m: "main_ok (main_pc s) (pc_of s Odd) (pc_of s Even)" by (auto simp: b_inv_def)
  have alive: "main_pc s \<noteq> M_done" using st by (auto simp: b_main_def)
  show ?thesis
  proof (cases "main_pc s")
    case M_odd
    with b_birth [OF b alive assms(2), of Odd M_even] m st show ?thesis by (auto simp: b_main_def b_inv_def)
  next
    case M_even
    with b_birth [OF b alive assms(2), of Even M_join_odd] m st show ?thesis by (auto simp: b_main_def b_inv_def)
  next
    case M_join_odd
    with b_main_pc [OF b alive, of M_join_even] m st show ?thesis by (auto simp: b_main_def b_inv_def split: if_splits)
  next
    case M_join_even
    with b_main_pc [OF b alive, of M_destroy] m st show ?thesis by (auto simp: b_main_def b_inv_def split: if_splits)
  next
    case M_destroy
    from b_live_sems [OF b alive] obtain a c where "sem_of s Odd = live_sema a" "sem_of s Even = live_sema c" by blast
    with M_destroy st have t: "main_pc t = M_done" "pc_of t = pc_of s" "counter t = counter s" "printed t = printed s"
      by (auto simp: b_main_def rk_sema_destroy_live)
    with b have "b_at LEN n t" by (auto simp: b_at_def)
    with M_destroy m t show ?thesis by (auto simp: b_inv_def)
  qed (use st in \<open>simp_all add: b_main_def\<close>)
qed

lemma b_thread_main:
  assumes "print_number LEN x s = Some t"
  shows "main_pc t = main_pc s" "\<And>y. y \<noteq> x \<Longrightarrow> pc_of t y = pc_of s y" "pc_of s x \<noteq> B_end" "pc_of s x \<noteq> B_unborn" "pc_of t x \<noteq> B_unborn"
  using assms by (auto simp: print_number_def split: b_pc.splits option.splits if_splits)

lemma b_thread_inv:
  assumes inv: "b_inv LEN s" and st: "print_number LEN x s = Some t"
  shows "b_inv LEN t"
proof -
  from inv obtain n where b: "b_at LEN n s" and m: "main_ok (main_pc s) (pc_of s Odd) (pc_of s Even)" by (auto simp: b_inv_def)
  note th = b_thread_main [OF st]
  have alive: "main_pc s \<noteq> M_done" using th(3) m by (cases x) auto
  have "\<exists>k. b_at LEN k t" using side_cases [of x n] b_turn_step [OF b alive] b_other_step [OF b alive] st by metis
  moreover have "main_ok (main_pc t) (pc_of t Odd) (pc_of t Even)"
    using m th(1,3-5) th(2) [of "other x"] by (cases x; cases "main_pc s") auto
  ultimately show ?thesis by (auto simp: b_inv_def)
qed

fun b_stage :: "b_pc \<Rightarrow> nat" where
  "b_stage (B_out k) = 4" | "b_stage B_post = 3" | "b_stage B_test = 2" | "b_stage B_wait = 1" | "b_stage _ = 0"

fun m_stage :: "m_pc \<Rightarrow> nat" where
  "m_stage M_odd = 9" | "m_stage M_even = 7" | "m_stage M_join_odd = 5" | "m_stage M_join_even = 4" | "m_stage M_destroy = 3" | "m_stage _ = 0"

definition b_work :: "nat \<Rightarrow> b_state \<Rightarrow> nat" where
  "b_work LEN s = 5 * (LEN + 1 - counter s) + b_stage (pc_of s Odd) + b_stage (pc_of s Even) + m_stage (main_pc s)"

lemma b_main_work: "b_main s = Some t \<Longrightarrow> b_work LEN t < b_work LEN s"
  by (auto simp: b_main_def b_work_def split: m_pc.splits prod.splits if_splits)

lemma b_inc_small: "b_inv LEN s \<Longrightarrow> pc_of s x = B_inc \<Longrightarrow> counter s \<le> LEN"
proof -
  assume a: "b_inv LEN s" "pc_of s x = B_inc"
  then obtain n v where "at_turn LEN n (pc_of s (turn n)) (pc_of s (other (turn n))) v (counter s) (printed s)"
    by (auto simp: b_inv_def b_at_def)
  with a(2) side_cases [of x n] show ?thesis by (cases "pc_of s (turn n)") auto
qed

lemma b_thread_work:
  assumes inv: "b_inv LEN s" and st: "print_number LEN x s = Some t"
  shows "b_work LEN t < b_work LEN s"
  using st b_inc_small [OF inv, of x]
  by (cases x; cases "pc_of s x") (auto simp: print_number_def b_work_def split: option.splits)

lemma b_stuck:
  assumes inv: "b_inv LEN s" and stuck: "\<And>a. b_step LEN a s = None"
  shows "main_pc s = M_done"
proof (rule ccontr)
  assume alive: "main_pc s \<noteq> M_done"
  from inv obtain n where b: "b_at LEN n s" and m: "main_ok (main_pc s) (pc_of s Odd) (pc_of s Even)" by (auto simp: b_inv_def)
  from stuck [of Main] have main: "b_main s = None" by simp
  have th: "print_number LEN x s = None" for x using stuck [of "Thread x"] by simp
  have born: "pc_of s x \<noteq> B_unborn" for x
    using main m by (cases x; cases "main_pc s") (auto simp: b_main_def split: prod.splits if_splits)
  from b alive obtain v where v: "sem_of s (turn n) = live_sema v" "sem_of s (other (turn n)) = live_sema 0"
    and at: "at_turn LEN n (pc_of s (turn n)) (pc_of s (other (turn n))) v (counter s) (printed s)" by (auto simp: b_at_def)
  have e: "pc_of s (turn n) = B_end"
    using th [of "turn n"] at v born [of "turn n"] by (cases "pc_of s (turn n)") (auto simp: print_number_def)
  moreover have "pc_of s (other (turn n)) = B_end"
    using e th [of "other (turn n)"] at born [of "other (turn n)"] by (cases "pc_of s (other (turn n))") (auto simp: print_number_def)
  ultimately have "pc_of s x = B_end" for x using side_cases [of x n] by auto
  with main m alive show False by (cases "main_pc s") (auto simp: b_main_def split: prod.splits)
qed

lemma b_start_inv: "b_inv LEN b_start"
  by (auto simp: b_inv_def b_at_def b_start_def turn_def numbers_def rk_sema_init_small SEM_VALUE_MAX_def
      intro!: exI [where x = "1 :: nat"])

lemma b_terminating:
  assumes "2 \<le> LEN"
  shows "terminating_system (b_step LEN) b_start (b_inv LEN) (b_work LEN) (\<lambda>s. main_pc s = M_done)"
proof
  show "b_inv LEN b_start" by (rule b_start_inv)
next
  fix s a t
  assume "b_inv LEN s" "b_step LEN a s = Some t"
  then show "b_inv LEN t" "b_work LEN t < b_work LEN s"
    using b_main_inv [of LEN s t] b_thread_inv [of LEN s _ t] b_main_work [of s t LEN] b_thread_work [of LEN s _ t] assms
    by (cases a; simp)+
qed (rule b_stuck)

section \<open>Properties\<close>

text \<open>
  C30. The C++ version of lab 5a ends and counts, but not always to the end: for every
  limit of at least two, no run has more than \<open>5 * LEN + 9\<close> steps, and a run that cannot be
  continued has returned from the destructor without an error and has printed the numbers
  in order, each from its own thread, up to \<open>LEN\<close> or only up to \<open>LEN - 1\<close>.
\<close>

theorem cpp_odd_even_counts:
  assumes "2 \<le> LEN" and "run (b_step LEN) sch b_start = Some s"
  shows "length sch \<le> 5 * LEN + 9 \<and>
    ((\<forall>a. b_step LEN a s = None) \<longrightarrow> main_pc s = M_done \<and> (printed s = numbers LEN \<or> printed s = numbers (LEN + 1)))"
proof -
  note sys = b_terminating [OF assms(1)]
  from terminating_system.run_bounded [OF sys assms(2)] have "length sch \<le> 5 * LEN + 9"
    by (simp add: b_work_def b_start_def)
  moreover have "printed s = numbers LEN \<or> printed s = numbers (LEN + 1)" if "main_pc s = M_done"
  proof -
    from invariant_system.run_inv [OF terminating_system.axioms(1) [OF sys] assms(2)] have inv: "b_inv LEN s" .
    with that have e: "pc_of s x = B_end" for x by (cases x) (auto simp: b_inv_def)
    from inv obtain n v where "at_turn LEN n (pc_of s (turn n)) (pc_of s (other (turn n))) v (counter s) (printed s)"
      by (auto simp: b_inv_def b_at_def)
    with e have "LEN \<le> n" "n \<le> LEN + 1" "printed s = numbers n" by simp_all
    then show ?thesis by (cases "n = LEN") (auto simp: le_Suc_eq)
  qed
  ultimately show ?thesis using terminating_system.maximal_final [OF sys assms(2)] by blast
qed

text \<open>The schedule in which the threads take turns, and the one in which the even thread looks at the counter late.\<close>

definition in_turns :: "nat \<Rightarrow> b_actor list" where
  "in_turns n = concat (map (\<lambda>k. replicate 5 (Thread (turn k))) [1..<n])"

definition b_all :: "b_actor list" where
  "b_all = [Main, Main] @ in_turns 31 @ [Main, Main, Main]"

definition b_late :: "b_actor list" where
  "b_late = [Main, Main] @ in_turns 28 @ replicate 4 (Thread Even) @ replicate 5 (Thread Odd) @ [Thread Even] @ [Main, Main, Main]"

definition b_outcome :: "b_actor list \<Rightarrow> (m_pc \<times> (side \<times> nat) list) option" where
  "b_outcome sch = map_option (\<lambda>s. (main_pc s, printed s)) (run (b_step 30) sch b_start)"

text \<open>
  What the program prints depends on the schedule: with the limit 30 of lab 5a there
  is a complete run that prints the numbers up to 30, and one in which the even thread
  reads the counter after the odd thread has incremented it, takes 30 for printed, and
  the program ends at 29.
\<close>

theorem cpp_odd_even_race:
  "b_outcome b_all = Some (M_done, numbers 31) \<and> b_outcome b_late = Some (M_done, numbers 30)"
proof
  show "b_outcome b_all = Some (M_done, numbers 31)" by code_simp
  show "b_outcome b_late = Some (M_done, numbers 30)" by code_simp
qed

theorem cpp_odd_even_counts_witness: "length b_late \<le> 5 * 30 + 9"
proof -
  obtain s where "run (b_step 30) b_late b_start = Some s"
  proof -
    have "b_outcome b_late = Some (M_done, numbers 30)" by code_simp
    then show thesis using that by (auto simp: b_outcome_def)
  qed
  from cpp_odd_even_counts [OF _ this] show ?thesis by simp
qed

end
