(* ===== verification/Pthread.thy ===== *)
theory Pthread
  imports Posix_Semaphore
begin

text \<open>
  POSIX threads as the lab programs use them: mutexes, and the skeleton that all
  of them share. A program's \<open>main\<close> initialises its globals, creates \<open>NO_TH\<close>
  threads in order (writing \<open>thread_no[i]\<close> and passing its address), joins them
  in order (\<open>wait_threads\<close>), tears its globals down and returns; a failed call
  goes to \<open>error_msg\<close>, which prints to stderr and exits. What differs from lab to
  lab is collected in a \<open>program\<close>.

  Threads and \<open>main\<close> are actors of one step function, \<open>proc_step\<close>. The thread
  functions are given as \<open>body\<close>: one atomic action per call, from a program
  point with the thread's locals; \<open>before\<close> is what \<open>main\<close> does right before it
  creates a thread. When the process exits, or runs into undefined behaviour, no
  actor moves any more.

  The return codes of \<open>pthread_create\<close> and \<open>pthread_join\<close> are decided by the
  system and are parameters of the model (\<open>rcodes\<close>): zero for success, a
  positive error number otherwise.
\<close>

section \<open>Mutexes\<close>

record pthread_mutex_t =
  owner :: "nat option"

definition PTHREAD_MUTEX_INITIALIZER :: pthread_mutex_t where
  "PTHREAD_MUTEX_INITIALIZER = \<lparr>owner = None\<rparr>"

text \<open>
  Locking a mutex that is taken sleeps (for its owner too: the default kind is not
  recursive). Unlocking a mutex one does not own is undefined: \<open>None\<close>.
\<close>

definition pthread_mutex_lock :: "nat \<Rightarrow> pthread_mutex_t \<Rightarrow> pthread_mutex_t option" where
  "pthread_mutex_lock i m = (if owner m = None then Some (m\<lparr>owner := Some i\<rparr>) else None)"

definition pthread_mutex_unlock :: "nat \<Rightarrow> pthread_mutex_t \<Rightarrow> pthread_mutex_t option" where
  "pthread_mutex_unlock i m = (if owner m = Some i then Some (m\<lparr>owner := None\<rparr>) else None)"

interpretation mutex: lock pthread_mutex_lock pthread_mutex_unlock "\<lambda>m h. owner m = h"
  by unfold_locales (auto simp: pthread_mutex_lock_def pthread_mutex_unlock_def)

section \<open>Programs and processes\<close>

datatype ('pc, 'g) outcome = Blocked | Goto 'pc 'g | Return 'g | Crash

datatype 'pc thread = Unborn | Live 'pc | Done

datatype main_pc = Init | Create nat | Join nat | Fini | Exited int | Undefined

abbreviation (input) EXIT_SUCCESS :: int where "EXIT_SUCCESS \<equiv> 0"
abbreviation (input) EXIT_FAILURE :: int where "EXIT_FAILURE \<equiv> 1"

record ('pc, 'g) proc =
  main :: main_pc
  threads :: "'pc thread list"
  thread_no :: "i32 option list"
  glob :: 'g
  err :: "string list"

record ('pc, 'g) program =
  no_th :: nat
  entry :: "nat \<Rightarrow> 'pc"
  slot :: "nat \<Rightarrow> nat"
  body :: "nat \<Rightarrow> i32 option \<Rightarrow> 'pc \<Rightarrow> 'g \<Rightarrow> ('pc, 'g) outcome"
  bad_rc :: "int \<Rightarrow> bool"
  init :: "'g \<Rightarrow> string + 'g"
  fini :: "'g \<Rightarrow> string + 'g"
  create_msg :: "nat \<Rightarrow> string"
  join_msg :: string
  before :: "nat \<Rightarrow> 'g \<Rightarrow> 'g"

record rcodes =
  create_rc :: "nat \<Rightarrow> int"
  join_rc :: "nat \<Rightarrow> int"

definition all_ok :: rcodes where
  "all_ok = \<lparr>create_rc = (\<lambda>_. 0), join_rc = (\<lambda>_. 0)\<rparr>"

datatype actor = Main | Thr nat

definition error_msg :: "string \<Rightarrow> ('pc, 'g) proc \<Rightarrow> ('pc, 'g) proc" where
  "error_msg m s = s\<lparr>err := err s @ [m], main := Exited EXIT_FAILURE\<rparr>"

definition running :: "main_pc \<Rightarrow> bool" where
  "running m \<longleftrightarrow> (case m of Exited _ \<Rightarrow> False | Undefined \<Rightarrow> False | _ \<Rightarrow> True)"

definition create_thread ::
  "rcodes \<Rightarrow> ('pc, 'g) program \<Rightarrow> nat \<Rightarrow> ('pc, 'g) proc \<Rightarrow> ('pc, 'g) proc" where
  "create_thread rc P i s =
     (let s' = s\<lparr>thread_no := (thread_no s)[slot P i := Some (int (slot P i))], glob := before P i (glob s)\<rparr> in
      if bad_rc P (create_rc rc i) then error_msg (create_msg P i) s'
      else s'\<lparr>threads := (if create_rc rc i = 0 then (threads s)[i := Live (entry P i)] else threads s),
              main := Create (Suc i)\<rparr>)"

text \<open>One iteration of \<open>wait_threads\<close>; joining a thread that was never created is undefined.\<close>

definition wait_thread ::
  "rcodes \<Rightarrow> ('pc, 'g) program \<Rightarrow> nat \<Rightarrow> ('pc, 'g) proc \<Rightarrow> ('pc, 'g) proc option" where
  "wait_thread rc P i s =
     (case threads s ! i of
        Unborn \<Rightarrow> Some (s\<lparr>main := Undefined\<rparr>)
      | Live _ \<Rightarrow> None
      | Done \<Rightarrow>
          if bad_rc P (join_rc rc i) then Some (error_msg (join_msg P) s)
          else Some (s\<lparr>main := Join (Suc i)\<rparr>))"

definition main_step ::
  "rcodes \<Rightarrow> ('pc, 'g) program \<Rightarrow> ('pc, 'g) proc \<Rightarrow> ('pc, 'g) proc option" where
  "main_step rc P s =
     (case main s of
        Init \<Rightarrow>
          (case init P (glob s) of
             Inl m \<Rightarrow> Some (error_msg m s)
           | Inr g \<Rightarrow> Some (s\<lparr>glob := g, main := Create 0\<rparr>))
      | Create i \<Rightarrow>
          if i < no_th P then Some (create_thread rc P i s) else Some (s\<lparr>main := Join 0\<rparr>)
      | Join i \<Rightarrow>
          if i < no_th P then wait_thread rc P i s else Some (s\<lparr>main := Fini\<rparr>)
      | Fini \<Rightarrow>
          (case fini P (glob s) of
             Inl m \<Rightarrow> Some (error_msg m s)
           | Inr g \<Rightarrow> Some (s\<lparr>glob := g, main := Exited EXIT_SUCCESS\<rparr>))
      | Exited _ \<Rightarrow> None
      | Undefined \<Rightarrow> None)"

definition thread_step ::
  "('pc, 'g) program \<Rightarrow> nat \<Rightarrow> ('pc, 'g) proc \<Rightarrow> ('pc, 'g) proc option" where
  "thread_step P i s =
     (if running (main s) \<and> i < length (threads s) then
        (case threads s ! i of
           Live pc \<Rightarrow>
             (case body P i (thread_no s ! slot P i) pc (glob s) of
                Blocked \<Rightarrow> None
              | Goto pc' g \<Rightarrow> Some (s\<lparr>threads := (threads s)[i := Live pc'], glob := g\<rparr>)
              | Return g \<Rightarrow> Some (s\<lparr>threads := (threads s)[i := Done], glob := g\<rparr>)
              | Crash \<Rightarrow> Some (s\<lparr>main := Undefined\<rparr>))
         | _ \<Rightarrow> None)
      else None)"

fun proc_step :: "rcodes \<Rightarrow> ('pc, 'g) program \<Rightarrow> actor \<Rightarrow> ('pc, 'g) proc \<Rightarrow> ('pc, 'g) proc option" where
  "proc_step rc P Main s = main_step rc P s"
| "proc_step rc P (Thr i) s = thread_step P i s"

definition boot :: "('pc, 'g) program \<Rightarrow> 'g \<Rightarrow> ('pc, 'g) proc" where
  "boot P g0 =
     \<lparr>main = Init, threads = replicate (no_th P) Unborn, thread_no = replicate (no_th P) None,
      glob = g0, err = []\<rparr>"

section \<open>Invariants of thread programs\<close>

text \<open>
  \<open>args_ok\<close>: every thread that has been created finds its own number behind its
  argument. \<open>phase_ok\<close>: how far \<open>main\<close> has come determines which threads exist
  and which have finished.
\<close>

definition args_ok :: "('pc, 'g) program \<Rightarrow> ('pc, 'g) proc \<Rightarrow> bool" where
  "args_ok P s \<longleftrightarrow>
     length (thread_no s) = no_th P \<and> length (threads s) = no_th P \<and>
     (\<forall>i < no_th P. threads s ! i \<noteq> Unborn \<longrightarrow> thread_no s ! slot P i = Some (int (slot P i)))"

fun phase_ok ::
  "rcodes \<Rightarrow> ('pc, 'g) program \<Rightarrow> 'g \<Rightarrow> ('pc thread list \<Rightarrow> 'g \<Rightarrow> bool) \<Rightarrow> main_pc \<Rightarrow> 'pc thread list \<Rightarrow> 'g \<Rightarrow> bool" where
  "phase_ok rc P g0 I Init ts g \<longleftrightarrow> ts = replicate (no_th P) Unborn \<and> g = g0"
| "phase_ok rc P g0 I (Create k) ts g \<longleftrightarrow>
     k \<le> no_th P \<and> (\<forall>i < no_th P. ts ! i = Unborn \<longleftrightarrow> k \<le> i) \<and> I ts g"
| "phase_ok rc P g0 I (Join k) ts g \<longleftrightarrow>
     k \<le> no_th P \<and> (\<forall>i < no_th P. ts ! i \<noteq> Unborn) \<and> (\<forall>i < k. ts ! i = Done) \<and> I ts g"
| "phase_ok rc P g0 I Fini ts g \<longleftrightarrow> ts = replicate (no_th P) Done \<and> I ts g"
| "phase_ok rc P g0 I (Exited c) ts g \<longleftrightarrow>
     c = EXIT_SUCCESS \<and> ts = replicate (no_th P) Done \<and> (\<exists>h. I ts h \<and> fini P h = Inr g) \<or>
     c = EXIT_FAILURE \<and> (\<exists>i < no_th P. create_rc rc i \<noteq> 0 \<or> join_rc rc i \<noteq> 0)"
| "phase_ok rc P g0 I Undefined ts g \<longleftrightarrow> False"

definition proc_inv ::
  "rcodes \<Rightarrow> ('pc, 'g) program \<Rightarrow> 'g \<Rightarrow> ('pc thread list \<Rightarrow> 'g \<Rightarrow> bool) \<Rightarrow> ('pc, 'g) proc \<Rightarrow> bool" where
  "proc_inv rc P g0 I s \<longleftrightarrow>
     args_ok P s \<and> phase_ok rc P g0 I (main s) (threads s) (glob s) \<and>
     (err s \<noteq> [] \<longrightarrow> main s = Exited EXIT_FAILURE)"

text \<open>
  The contract between a program and its proof: an invariant \<open>I\<close> of the thread
  states and the globals that holds after initialisation and survives the birth
  of a thread, each action of a thread, and its return; in such a state no action
  is undefined.
\<close>

locale thread_program =
  fixes rc :: rcodes
    and P :: "('pc, 'g) program"
    and g0 :: 'g
    and I :: "'pc thread list \<Rightarrow> 'g \<Rightarrow> bool"
  assumes slot_bound: "i < no_th P \<Longrightarrow> slot P i < no_th P"
    and zero_good: "\<not> bad_rc P 0"
    and create_checked: "i < no_th P \<Longrightarrow> create_rc rc i \<noteq> 0 \<Longrightarrow> bad_rc P (create_rc rc i)"
    and I_init: "\<exists>g. init P g0 = Inr g \<and> I (replicate (no_th P) Unborn) g"
    and I_birth: "I ts g \<Longrightarrow> length ts = no_th P \<Longrightarrow> i < no_th P \<Longrightarrow> ts ! i = Unborn \<Longrightarrow>
      I (ts[i := Live (entry P i)]) (before P i g)"
    and I_goto: "I ts g \<Longrightarrow> length ts = no_th P \<Longrightarrow> i < no_th P \<Longrightarrow> ts ! i = Live pc \<Longrightarrow>
      body P i (Some (int (slot P i))) pc g = Goto pc' g' \<Longrightarrow> I (ts[i := Live pc']) g'"
    and I_return: "I ts g \<Longrightarrow> length ts = no_th P \<Longrightarrow> i < no_th P \<Longrightarrow> ts ! i = Live pc \<Longrightarrow>
      body P i (Some (int (slot P i))) pc g = Return g' \<Longrightarrow> I (ts[i := Done]) g'"
    and I_defined: "I ts g \<Longrightarrow> length ts = no_th P \<Longrightarrow> i < no_th P \<Longrightarrow> ts ! i = Live pc \<Longrightarrow>
      body P i (Some (int (slot P i))) pc g \<noteq> Crash"
    and I_fini: "I (replicate (no_th P) Done) g \<Longrightarrow> \<exists>h. fini P g = Inr h"
begin

lemma boot_inv: "proc_inv rc P g0 I (boot P g0)"
  by (simp add: proc_inv_def args_ok_def boot_def)

lemma create_inv:
  assumes "proc_inv rc P g0 I s" and "main s = Create i" and "i < no_th P"
  shows "proc_inv rc P g0 I (create_thread rc P i s)"
proof -
  from assms have args: "args_ok P s" and I: "I (threads s) (glob s)"
    and born: "\<forall>j < no_th P. threads s ! j = Unborn \<longleftrightarrow> i \<le> j"
    by (auto simp: proc_inv_def)
  note slot = slot_bound [OF assms(3)]
  show ?thesis
  proof (cases "create_rc rc i = 0")
    case True
    have "I ((threads s)[i := Live (entry P i)]) (before P i (glob s))"
      using I args born assms(3) by (intro I_birth) (auto simp: args_ok_def)
    with True args born assms slot zero_good show ?thesis
      by (auto simp: proc_inv_def create_thread_def error_msg_def args_ok_def Let_def nth_list_update)
  next
    case False
    with args born assms slot create_checked show ?thesis
      by (auto simp: proc_inv_def create_thread_def error_msg_def args_ok_def Let_def nth_list_update)
  qed
qed

lemma all_Done:
  assumes "proc_inv rc P g0 I s" and "main s = Join k" and "\<not> k < no_th P"
  shows "threads s = replicate (no_th P) Done"
  using assms by (intro nth_equalityI) (auto simp: proc_inv_def args_ok_def)

lemma wait_inv:
  assumes "proc_inv rc P g0 I s" and "main s = Join k" and "k < no_th P"
    and "wait_thread rc P k s = Some t"
  shows "proc_inv rc P g0 I t"
proof -
  have "bad_rc P (join_rc rc k) \<Longrightarrow> join_rc rc k \<noteq> 0"
    using zero_good by metis
  with assms show ?thesis
    by (auto simp: proc_inv_def wait_thread_def error_msg_def args_ok_def less_Suc_eq
        split: thread.splits if_splits)
qed

lemma main_step_inv:
  assumes inv: "proc_inv rc P g0 I s" and st: "main_step rc P s = Some t"
  shows "proc_inv rc P g0 I t"
proof (cases "main s")
  case Init
  with inv st I_init show ?thesis
    by (auto simp: proc_inv_def main_step_def args_ok_def split: sum.splits)
next
  case (Create k)
  show ?thesis
  proof (cases "k < no_th P")
    case True
    with Create st have "t = create_thread rc P k s" by (simp add: main_step_def)
    with create_inv [OF inv Create True] show ?thesis by simp
  next
    case False
    with Create inv st show ?thesis
      by (auto simp: proc_inv_def main_step_def args_ok_def)
  qed
next
  case (Join k)
  show ?thesis
  proof (cases "k < no_th P")
    case True
    with Join st wait_inv [OF inv Join True] show ?thesis by (simp add: main_step_def)
  next
    case False
    with all_Done [OF inv Join] Join inv st show ?thesis
      by (auto simp: proc_inv_def main_step_def args_ok_def)
  qed
next
  case Fini
  with inv st I_fini show ?thesis
    by (fastforce simp: proc_inv_def main_step_def args_ok_def split: sum.splits)
qed (use st in \<open>simp_all add: main_step_def\<close>)

lemma phase_thread:
  assumes "phase_ok rc P g0 I m ts g" and "running m" and "length ts = no_th P"
    and "i < no_th P" and "ts ! i = Live pc"
  shows "I ts g" and "m \<noteq> Init" and "ts' = ts[i := x] \<Longrightarrow> x \<noteq> Unborn \<Longrightarrow> I ts' g' \<Longrightarrow> phase_ok rc P g0 I m ts' g'"
  using assms by (cases m; auto simp: running_def nth_list_update)+

lemma thread_step_inv:
  assumes inv: "proc_inv rc P g0 I s" and st: "thread_step P i s = Some t"
  shows "proc_inv rc P g0 I t"
proof -
  from st obtain pc where run: "running (main s)" and i: "i < length (threads s)"
    and pc: "threads s ! i = Live pc"
    by (auto simp: thread_step_def split: if_splits thread.splits)
  from inv have len: "length (threads s) = no_th P" and ph: "phase_ok rc P g0 I (main s) (threads s) (glob s)"
    and args: "args_ok P s"
    by (auto simp: proc_inv_def args_ok_def)
  note i' = i [unfolded len]
  from args i' pc have arg: "thread_no s ! slot P i = Some (int (slot P i))"
    by (auto simp: args_ok_def)
  from inv run have err: "err s = []" by (auto simp: proc_inv_def running_def)
  note facts = phase_thread [OF ph run len i' pc]
  show ?thesis
  proof (cases "body P i (Some (int (slot P i))) pc (glob s)")
    case Blocked
    with st run i pc arg show ?thesis by (simp add: thread_step_def)
  next
    case (Goto pc' g')
    with st run i pc arg have t: "t = s\<lparr>threads := (threads s)[i := Live pc'], glob := g'\<rparr>"
      by (simp add: thread_step_def)
    from I_goto [OF facts(1) len i' pc Goto] show ?thesis
      using args t i' facts(3) [OF refl] pc err by (auto simp: proc_inv_def args_ok_def nth_list_update)
  next
    case (Return g')
    with st run i pc arg have t: "t = s\<lparr>threads := (threads s)[i := Done], glob := g'\<rparr>"
      by (simp add: thread_step_def)
    from I_return [OF facts(1) len i' pc Return] show ?thesis
      using args t i' facts(3) [OF refl] pc err by (auto simp: proc_inv_def args_ok_def nth_list_update)
  next
    case Crash
    with I_defined [OF facts(1) len i' pc] show ?thesis by simp
  qed
qed

lemma proc_step_inv: "proc_inv rc P g0 I s \<Longrightarrow> proc_step rc P a s = Some t \<Longrightarrow> proc_inv rc P g0 I t"
  by (cases a) (auto intro: main_step_inv thread_step_inv)

sublocale sys: invariant_system "proc_step rc P" "boot P g0" "proc_inv rc P g0 I"
  by unfold_locales (auto intro: boot_inv proc_step_inv)

end

section \<open>Termination of thread programs\<close>

text \<open>
  A program whose threads do a bounded amount of work (\<open>work\<close> decreases with each
  action) and never all wait for each other runs to completion under every
  schedule: the bound counts \<open>main\<close>'s own steps and the work of the threads.
\<close>

fun main_work :: "nat \<Rightarrow> main_pc \<Rightarrow> nat" where
  "main_work n Init = 2 * n + 4"
| "main_work n (Create k) = 2 * n + 3 - k"
| "main_work n (Join k) = n + 2 - k"
| "main_work n Fini = 1"
| "main_work n (Exited c) = 0"
| "main_work n Undefined = 0"

definition proc_work ::
  "('pc, 'g) program \<Rightarrow> nat \<Rightarrow> ('pc thread list \<Rightarrow> 'g \<Rightarrow> nat) \<Rightarrow> ('pc, 'g) proc \<Rightarrow> nat" where
  "proc_work P w0 w s =
     main_work (no_th P) (main s) +
     (case main s of Init \<Rightarrow> w0 | Exited _ \<Rightarrow> 0 | Undefined \<Rightarrow> 0 | _ \<Rightarrow> w (threads s) (glob s))"

locale terminating_program = thread_program +
  fixes w0 :: nat
    and work :: "'a thread list \<Rightarrow> 'b \<Rightarrow> nat"
  assumes work_init: "init P g0 = Inr g \<Longrightarrow> work (replicate (no_th P) Unborn) g \<le> w0"
    and work_birth: "I ts g \<Longrightarrow> length ts = no_th P \<Longrightarrow> i < no_th P \<Longrightarrow> ts ! i = Unborn \<Longrightarrow>
      work (ts[i := Live (entry P i)]) (before P i g) \<le> work ts g"
    and work_goto: "I ts g \<Longrightarrow> length ts = no_th P \<Longrightarrow> i < no_th P \<Longrightarrow> ts ! i = Live pc \<Longrightarrow>
      body P i (Some (int (slot P i))) pc g = Goto pc' g' \<Longrightarrow> work (ts[i := Live pc']) g' < work ts g"
    and work_return: "I ts g \<Longrightarrow> length ts = no_th P \<Longrightarrow> i < no_th P \<Longrightarrow> ts ! i = Live pc \<Longrightarrow>
      body P i (Some (int (slot P i))) pc g = Return g' \<Longrightarrow> work (ts[i := Done]) g' < work ts g"
    and no_deadlock: "I ts g \<Longrightarrow> length ts = no_th P \<Longrightarrow> (\<And>i. i < no_th P \<Longrightarrow> ts ! i \<noteq> Unborn) \<Longrightarrow>
      k < no_th P \<Longrightarrow> ts ! k \<noteq> Done \<Longrightarrow>
      \<exists>i pc. i < no_th P \<and> ts ! i = Live pc \<and> body P i (Some (int (slot P i))) pc g \<noteq> Blocked"
begin

lemma create_work:
  assumes "proc_inv rc P g0 I s" and "main s = Create k" and "k < no_th P"
  shows "proc_work P w0 work (create_thread rc P k s) < proc_work P w0 work s"
proof -
  from assms have "work ((threads s)[k := Live (entry P k)]) (before P k (glob s)) \<le> work (threads s) (glob s)"
    by (intro work_birth) (auto simp: proc_inv_def args_ok_def)
  with assms(2,3) create_checked [OF assms(3)] show ?thesis
    by (auto simp: proc_work_def create_thread_def error_msg_def Let_def)
qed

lemma main_step_work:
  assumes "proc_inv rc P g0 I s" and "main_step rc P s = Some t"
  shows "proc_work P w0 work t < proc_work P w0 work s"
proof (cases "\<exists>k < no_th P. main s = Create k")
  case True
  with assms create_work show ?thesis by (auto simp: main_step_def)
next
  case False
  with assms work_init show ?thesis
    by (auto simp: main_step_def proc_work_def wait_thread_def error_msg_def proc_inv_def less_Suc_eq_le
        split: main_pc.splits sum.splits thread.splits if_splits)
qed

lemma thread_step_work:
  assumes inv: "proc_inv rc P g0 I s" and st: "thread_step P i s = Some t"
  shows "proc_work P w0 work t < proc_work P w0 work s"
proof -
  from st obtain pc where run: "running (main s)" and i: "i < length (threads s)"
    and pc: "threads s ! i = Live pc"
    by (auto simp: thread_step_def split: if_splits thread.splits)
  from inv have len: "length (threads s) = no_th P" and ph: "phase_ok rc P g0 I (main s) (threads s) (glob s)"
    by (auto simp: proc_inv_def args_ok_def)
  note i' = i [unfolded len]
  from inv i' pc have arg: "thread_no s ! slot P i = Some (int (slot P i))"
    by (auto simp: proc_inv_def args_ok_def)
  note I = phase_thread(1) [OF ph run len i' pc] and not_init = phase_thread(2) [OF ph run len i' pc]
  show ?thesis
  proof (cases "body P i (Some (int (slot P i))) pc (glob s)")
    case Blocked
    with st run i pc arg show ?thesis by (simp add: thread_step_def)
  next
    case (Goto pc' g')
    with st run i pc arg have t: "t = s\<lparr>threads := (threads s)[i := Live pc'], glob := g'\<rparr>"
      by (simp add: thread_step_def)
    with work_goto [OF I len i' pc Goto] run not_init show ?thesis
      by (auto simp: proc_work_def running_def split: main_pc.splits)
  next
    case (Return g')
    with st run i pc arg have t: "t = s\<lparr>threads := (threads s)[i := Done], glob := g'\<rparr>"
      by (simp add: thread_step_def)
    with work_return [OF I len i' pc Return] run not_init show ?thesis
      by (auto simp: proc_work_def running_def split: main_pc.splits)
  next
    case Crash
    with I_defined [OF I len i' pc] show ?thesis by simp
  qed
qed

lemma proc_step_work:
  "proc_inv rc P g0 I s \<Longrightarrow> proc_step rc P a s = Some t \<Longrightarrow> proc_work P w0 work t < proc_work P w0 work s"
  by (cases a) (auto intro: main_step_work thread_step_work)

lemma thread_can_step:
  assumes inv: "proc_inv rc P g0 I s" and "running (main s)" and "i < no_th P"
    and "threads s ! i = Live pc" and "body P i (Some (int (slot P i))) pc (glob s) \<noteq> Blocked"
  shows "proc_step rc P (Thr i) s \<noteq> None"
  using assms by (auto simp: thread_step_def proc_inv_def args_ok_def split: outcome.splits)

lemma stuck_exited:
  assumes inv: "proc_inv rc P g0 I s" and stuck: "\<And>a. proc_step rc P a s = None"
  shows "\<exists>c. main s = Exited c"
proof (cases "main s")
  case (Join k)
  with stuck [of Main] have k: "k < no_th P" and "threads s ! k \<noteq> Done"
    by (auto simp: main_step_def wait_thread_def split: if_splits)
  with Join inv obtain i pc where "i < no_th P" "threads s ! i = Live pc"
      "body P i (Some (int (slot P i))) pc (glob s) \<noteq> Blocked"
    using no_deadlock [of "threads s" "glob s" k] by (auto simp: proc_inv_def args_ok_def)
  with thread_can_step [OF inv] Join have "proc_step rc P (Thr i) s \<noteq> None"
    by (auto simp: running_def)
  with stuck [of "Thr i"] show ?thesis by simp
qed (use inv stuck [of Main] in \<open>auto simp: main_step_def proc_inv_def split: sum.splits if_splits\<close>)

sublocale sys: terminating_system "proc_step rc P" "boot P g0" "proc_inv rc P g0 I"
  "proc_work P w0 work" "\<lambda>s. \<exists>c. main s = Exited c"
  by unfold_locales (auto intro: proc_step_work stuck_exited)

text \<open>
  A run that cannot be extended has left the process: with exit code zero, every
  thread done and nothing on stderr, unless one of the pthread calls failed.
\<close>

lemma maximal_run:
  assumes "run (proc_step rc P) sch (boot P g0) = Some s" and "\<And>a. proc_step rc P a s = None"
  shows "main s = Exited EXIT_SUCCESS \<and> err s = [] \<and> threads s = replicate (no_th P) Done \<and>
      (\<exists>h. I (threads s) h \<and> fini P h = Inr (glob s)) \<or>
    main s = Exited EXIT_FAILURE \<and> (\<exists>i < no_th P. create_rc rc i \<noteq> 0 \<or> join_rc rc i \<noteq> 0)"
  using sys.maximal_final [OF assms] sys.run_inv [OF assms(1)] by (fastforce simp: proc_inv_def)

lemma maximal_run_ok:
  assumes "run (proc_step rc P) sch (boot P g0) = Some s" and "\<And>a. proc_step rc P a s = None"
    and "\<And>i. i < no_th P \<Longrightarrow> create_rc rc i = 0 \<and> join_rc rc i = 0"
  shows "main s = Exited EXIT_SUCCESS \<and> err s = [] \<and>
      (\<exists>h. I (replicate (no_th P) Done) h \<and> fini P h = Inr (glob s))"
  using maximal_run [OF assms(1,2)] assms(3) by fastforce

end

text \<open>
  Where the work that is left can be read off the threads' program points alone,
  the measure is the sum over the threads.
\<close>

fun thread_work :: "('pc \<Rightarrow> nat) \<Rightarrow> 'pc \<Rightarrow> 'pc thread \<Rightarrow> nat" where
  "thread_work w e Unborn = w e + 1"
| "thread_work w e (Live pc) = w pc + 1"
| "thread_work w e Done = 0"

definition threads_work :: "('pc, 'g) program \<Rightarrow> ('pc \<Rightarrow> nat) \<Rightarrow> 'pc thread list \<Rightarrow> nat" where
  "threads_work P w ts = (\<Sum>i < length ts. thread_work w (entry P i) (ts ! i))"

lemma threads_work_update:
  assumes "i < length ts" and "thread_work w (entry P i) x < thread_work w (entry P i) (ts ! i)"
  shows "threads_work P w (ts[i := x]) < threads_work P w ts"
  using sum_update_less [of i ts "\<lambda>i. thread_work w (entry P i)", OF assms] by (simp add: threads_work_def)

lemma threads_work_birth:
  assumes "i < length ts" and "ts ! i = Unborn"
  shows "threads_work P w (ts[i := Live (entry P i)]) = threads_work P w ts"
  using sum_list_update_nat [OF assms(1), of "\<lambda>i. thread_work w (entry P i)" "Live (entry P i)"] assms(2)
  by (simp add: threads_work_def)

text \<open>Quantities that each thread contributes to by its program point, such as tokens it holds.\<close>

definition of_thread :: "('pc \<Rightarrow> nat) \<Rightarrow> 'pc thread \<Rightarrow> nat" where
  "of_thread f t = (case t of Live pc \<Rightarrow> f pc | _ \<Rightarrow> 0)"

definition total :: "('pc \<Rightarrow> nat) \<Rightarrow> 'pc thread list \<Rightarrow> nat" where
  "total f ts = (\<Sum>i < length ts. of_thread f (ts ! i))"

lemma total_update:
  "i < length ts \<Longrightarrow> total f (ts[i := t]) + of_thread f (ts ! i) = total f ts + of_thread f t"
  unfolding total_def length_list_update by (rule sum_list_update_nat)

lemma of_thread_le: "i < length ts \<Longrightarrow> of_thread f (ts ! i) \<le> total f ts"
  unfolding total_def by (intro member_le_sum [where f = "\<lambda>i. of_thread f (ts ! i)"]) auto

lemma of_thread_simps [simp]:
  "of_thread f Unborn = 0" "of_thread f Done = 0" "of_thread f (Live pc) = f pc"
  by (simp_all add: of_thread_def)

locale counted_program = thread_program +
  fixes pc_work :: "'a \<Rightarrow> nat"
  assumes pc_work_goto: "I ts g \<Longrightarrow> length ts = no_th P \<Longrightarrow> i < no_th P \<Longrightarrow> ts ! i = Live pc \<Longrightarrow>
      body P i (Some (int (slot P i))) pc g = Goto pc' g' \<Longrightarrow> pc_work pc' < pc_work pc"
    and progress: "I ts g \<Longrightarrow> length ts = no_th P \<Longrightarrow> (\<And>i. i < no_th P \<Longrightarrow> ts ! i \<noteq> Unborn) \<Longrightarrow>
      k < no_th P \<Longrightarrow> ts ! k \<noteq> Done \<Longrightarrow>
      \<exists>i pc. i < no_th P \<and> ts ! i = Live pc \<and> body P i (Some (int (slot P i))) pc g \<noteq> Blocked"
begin

sublocale cnt: terminating_program rc P g0 I
  "threads_work P pc_work (replicate (no_th P) Unborn)" "\<lambda>ts g. threads_work P pc_work ts"
proof unfold_locales
  fix ts g i pc pc' g'
  assume "I ts g" "length ts = no_th P" "i < no_th P" "ts ! i = Live pc"
    and "body P i (Some (int (slot P i))) pc g = Goto pc' g'"
  then show "threads_work P pc_work (ts[i := Live pc']) < threads_work P pc_work ts"
    using pc_work_goto by (intro threads_work_update) fastforce+
next
  fix ts g i pc g'
  assume "I ts g" "length ts = no_th P" "i < no_th P" "ts ! i = Live pc"
  then show "threads_work P pc_work (ts[i := Done]) < threads_work P pc_work ts"
    by (intro threads_work_update) auto
qed (fact progress | simp add: threads_work_birth)+

lemma counted_inv: "reach (proc_step rc P) (boot P g0) s \<Longrightarrow> proc_inv rc P g0 I s"
  by (rule sys.reach_inv)

lemma counted_maximal:
  assumes "run (proc_step rc P) sch (boot P g0) = Some s" and "\<forall>a. proc_step rc P a s = None"
    and "\<And>i. i < no_th P \<Longrightarrow> create_rc rc i = 0 \<and> join_rc rc i = 0"
  shows "main s = Exited EXIT_SUCCESS \<and> err s = [] \<and> (\<exists>h. I (replicate (no_th P) Done) h \<and> fini P h = Inr (glob s))"
  using cnt.maximal_run_ok [OF assms(1)] assms(2,3) by blast

lemma counted_bounded:
  assumes "run (proc_step rc P) sch (boot P g0) = Some s"
  shows "length sch \<le> 2 * no_th P + 4 + (\<Sum>i < no_th P. pc_work (entry P i) + 1)"
  using cnt.sys.run_bounded [OF assms] by (simp add: proc_work_def boot_def threads_work_def)

lemma counted_can_end: "\<exists>sch s. run (proc_step rc P) sch (boot P g0) = Some s \<and> (\<forall>a. proc_step rc P a s = None)"
  using cnt.sys.completes by blast

end

section \<open>Critical sections\<close>

text \<open>
  Programs whose threads guard a critical section with a lock (a mutex or a
  binary semaphore) that sits somewhere in the globals. If entering the section
  takes the lock, leaving it gives the lock back, and nothing else touches it,
  then at most one thread is inside, and a thread that finds the lock taken waits
  for a thread inside the section.
\<close>

definition inside :: "('pc \<Rightarrow> bool) \<Rightarrow> 'pc thread \<Rightarrow> bool" where
  "inside in_cs t \<longleftrightarrow> (case t of Live pc \<Rightarrow> in_cs pc | _ \<Rightarrow> False)"

lemma inside_simps [simp]:
  "\<not> inside in_cs Unborn" "\<not> inside in_cs Done" "inside in_cs (Live pc) \<longleftrightarrow> in_cs pc"
  by (simp_all add: inside_def)

lemma inside_iff: "inside in_cs t \<longleftrightarrow> (\<exists>pc. t = Live pc \<and> in_cs pc)"
  by (cases t) auto

definition cs_inv :: "('l \<Rightarrow> nat option \<Rightarrow> bool) \<Rightarrow> ('g \<Rightarrow> 'l) \<Rightarrow> ('pc \<Rightarrow> bool) \<Rightarrow> 'pc thread list \<Rightarrow> 'g \<Rightarrow> bool" where
  "cs_inv held lk in_cs ts g \<longleftrightarrow>
     (\<exists>h. held (lk g) h \<and>
          (\<forall>i < length ts. inside in_cs (ts ! i) \<longleftrightarrow> h = Some i) \<and>
          (\<forall>i. h = Some i \<longrightarrow> i < length ts))"

lemma cs_inv_excl:
  "cs_inv held lk in_cs ts g \<Longrightarrow> i < length ts \<Longrightarrow> j < length ts \<Longrightarrow>
   inside in_cs (ts ! i) \<Longrightarrow> inside in_cs (ts ! j) \<Longrightarrow> i = j"
  by (auto simp: cs_inv_def)

locale critical_section = lock acquire release held
  for acquire :: "nat \<Rightarrow> 'l \<Rightarrow> 'l option"
    and release :: "nat \<Rightarrow> 'l \<Rightarrow> 'l option"
    and held :: "'l \<Rightarrow> nat option \<Rightarrow> bool" +
  fixes P :: "('pc, 'g) program"
    and lk :: "'g \<Rightarrow> 'l"
    and in_cs :: "'pc \<Rightarrow> bool"
  assumes cs_entry: "\<not> in_cs (entry P i)"
    and cs_stay: "body P i a pc g = Goto pc' g' \<Longrightarrow> in_cs pc = in_cs pc' \<Longrightarrow> lk g' = lk g"
    and cs_enter: "body P i a pc g = Goto pc' g' \<Longrightarrow> \<not> in_cs pc \<Longrightarrow> in_cs pc' \<Longrightarrow>
      acquire i (lk g) = Some (lk g')"
    and cs_leave: "body P i a pc g = Goto pc' g' \<Longrightarrow> in_cs pc \<Longrightarrow> \<not> in_cs pc' \<Longrightarrow>
      release i (lk g) = Some (lk g')"
    and cs_return: "body P i a pc g = Return g' \<Longrightarrow> \<not> in_cs pc \<and> lk g' = lk g"
begin

lemma cs_init: "held (lk g) None \<Longrightarrow> cs_inv held lk in_cs (replicate n Unborn) g"
  by (auto simp: cs_inv_def intro!: exI [where x = None])

lemma cs_birth:
  assumes "cs_inv held lk in_cs ts g" and "i < length ts" and "ts ! i = Unborn"
  shows "cs_inv held lk in_cs (ts[i := Live (entry P i)]) g"
proof -
  from assms(1) obtain h where h: "held (lk g) h" "\<forall>j < length ts. inside in_cs (ts ! j) \<longleftrightarrow> h = Some j"
      "\<forall>j. h = Some j \<longrightarrow> j < length ts"
    by (auto simp: cs_inv_def)
  with assms(2,3) have "h \<noteq> Some i" by auto
  with h assms(2) cs_entry show ?thesis
    by (auto simp: cs_inv_def nth_list_update intro!: exI [where x = h])
qed

lemma cs_goto:
  assumes "cs_inv held lk in_cs ts g" and i: "i < length ts" and pc: "ts ! i = Live pc"
    and b: "body P i a pc g = Goto pc' g'"
  shows "cs_inv held lk in_cs (ts[i := Live pc']) g'"
proof -
  from assms(1) obtain h where h: "held (lk g) h" "\<forall>j < length ts. inside in_cs (ts ! j) \<longleftrightarrow> h = Some j"
      "\<forall>j. h = Some j \<longrightarrow> j < length ts"
    by (auto simp: cs_inv_def)
  from h(2) i pc have pc_h: "in_cs pc \<longleftrightarrow> h = Some i" by force
  consider "in_cs pc = in_cs pc'" | "\<not> in_cs pc" "in_cs pc'" | "in_cs pc" "\<not> in_cs pc'" by blast
  then show ?thesis
  proof cases
    case 1
    with cs_stay [OF b] h i pc_h show ?thesis
      by (auto simp: cs_inv_def nth_list_update intro!: exI [where x = h])
  next
    case 2
    with acquire_SomeD [OF h(1) cs_enter [OF b]] have "h = None" "held (lk g') (Some i)" by auto
    with 2 h i show ?thesis
      by (auto simp: cs_inv_def nth_list_update intro!: exI [where x = "Some i"])
  next
    case 3
    with pc_h h release_SomeD [OF _ cs_leave [OF b]] have "h = Some i" "held (lk g') None" by auto
    with 3 h i show ?thesis
      by (auto simp: cs_inv_def nth_list_update intro!: exI [where x = None])
  qed
qed

lemma cs_done:
  assumes "cs_inv held lk in_cs ts g" and i: "i < length ts" and pc: "ts ! i = Live pc"
    and b: "body P i a pc g = Return g'"
  shows "cs_inv held lk in_cs (ts[i := Done]) g'"
proof -
  from assms(1) obtain h where h: "held (lk g) h" "\<forall>j < length ts. inside in_cs (ts ! j) \<longleftrightarrow> h = Some j"
      "\<forall>j. h = Some j \<longrightarrow> j < length ts"
    by (auto simp: cs_inv_def)
  with cs_return [OF b] i pc have "h \<noteq> Some i" "lk g' = lk g" by force+
  with h i show ?thesis
    by (auto simp: cs_inv_def nth_list_update intro!: exI [where x = h])
qed

text \<open>A thread waits for the lock only if another thread is inside.\<close>

lemma cs_waits:
  assumes "cs_inv held lk in_cs ts g" and "acquire i (lk g) = None"
  shows "\<exists>j < length ts. inside in_cs (ts ! j)"
  using assms acquire_none_iff by (fastforce simp: cs_inv_def)

text \<open>The thread inside can give the lock back.\<close>

lemma cs_can_release:
  assumes "cs_inv held lk in_cs ts g" and "i < length ts" and "inside in_cs (ts ! i)"
  shows "release i (lk g) \<noteq> None"
proof -
  from assms have "held (lk g) (Some i)" by (auto simp: cs_inv_def)
  with release_held [of "lk g" i] show ?thesis by auto
qed

end

text \<open>
  What a lock protects. \<open>R\<close> is the resource invariant: it holds whenever the lock
  is free, the thread that enters may rely on it (as \<open>L\<close> of its new program
  point), and it has to be back in force when that thread leaves. Actions outside
  the section leave \<open>R\<close> and every \<open>L\<close> alone. \<open>side\<close> is what is known of the
  whole program besides.
\<close>

definition protected :: "('pc \<Rightarrow> bool) \<Rightarrow> ('pc \<Rightarrow> 'g \<Rightarrow> bool) \<Rightarrow> ('g \<Rightarrow> bool) \<Rightarrow> 'pc thread list \<Rightarrow> 'g \<Rightarrow> bool" where
  "protected in_cs L R ts g \<longleftrightarrow>
     (\<forall>i < length ts. \<forall>pc. ts ! i = Live pc \<longrightarrow> in_cs pc \<longrightarrow> L pc g) \<and>
     ((\<forall>i < length ts. \<not> inside in_cs (ts ! i)) \<longrightarrow> R g)"

lemma protectedD:
  "protected in_cs L R ts g \<Longrightarrow> i < length ts \<Longrightarrow> ts ! i = Live pc \<Longrightarrow> in_cs pc \<Longrightarrow> L pc g"
  by (simp add: protected_def)

locale protected_section = critical_section acquire release held P lk in_cs
  for acquire :: "nat \<Rightarrow> 'l \<Rightarrow> 'l option"
    and release :: "nat \<Rightarrow> 'l \<Rightarrow> 'l option"
    and held :: "'l \<Rightarrow> nat option \<Rightarrow> bool"
    and P :: "('pc, 'g) program"
    and lk :: "'g \<Rightarrow> 'l"
    and in_cs :: "'pc \<Rightarrow> bool" +
  fixes side :: "'pc thread list \<Rightarrow> 'g \<Rightarrow> bool"
    and L :: "'pc \<Rightarrow> 'g \<Rightarrow> bool"
    and R :: "'g \<Rightarrow> bool"
  assumes res_enter: "side ts g \<Longrightarrow> i < length ts \<Longrightarrow> ts ! i = Live pc \<Longrightarrow>
      body P i (Some (int (slot P i))) pc g = Goto pc' g' \<Longrightarrow> \<not> in_cs pc \<Longrightarrow> in_cs pc' \<Longrightarrow> R g \<Longrightarrow> L pc' g'"
    and res_work: "side ts g \<Longrightarrow> i < length ts \<Longrightarrow> ts ! i = Live pc \<Longrightarrow>
      body P i (Some (int (slot P i))) pc g = Goto pc' g' \<Longrightarrow> in_cs pc \<Longrightarrow> in_cs pc' \<Longrightarrow> L pc g \<Longrightarrow> L pc' g'"
    and res_leave: "side ts g \<Longrightarrow> i < length ts \<Longrightarrow> ts ! i = Live pc \<Longrightarrow>
      body P i (Some (int (slot P i))) pc g = Goto pc' g' \<Longrightarrow> in_cs pc \<Longrightarrow> \<not> in_cs pc' \<Longrightarrow> L pc g \<Longrightarrow> R g'"
    and res_outside: "body P i (Some (int (slot P i))) pc g = Goto pc' g' \<Longrightarrow> \<not> in_cs pc \<Longrightarrow> \<not> in_cs pc' \<Longrightarrow>
      (R g \<longrightarrow> R g') \<and> (\<forall>q. in_cs q \<longrightarrow> L q g \<longrightarrow> L q g')"
    and res_return: "body P i (Some (int (slot P i))) pc g = Return g' \<Longrightarrow>
      (R g \<longrightarrow> R g') \<and> (\<forall>q. in_cs q \<longrightarrow> L q g \<longrightarrow> L q g')"
begin

abbreviation excl :: "'pc thread list \<Rightarrow> 'g \<Rightarrow> bool" where
  "excl \<equiv> cs_inv held lk in_cs"

lemma only_inside:
  assumes "excl ts g" and "i < length ts" and "inside in_cs (ts ! i)" and "j < length ts" and "j \<noteq> i"
  shows "\<not> inside in_cs (ts ! j)"
  using cs_inv_excl [OF assms(1,2,4)] assms(3,5) by blast

lemma protected_birth:
  assumes "protected in_cs L R ts g" and "i < length ts" and "ts ! i = Unborn"
  shows "protected in_cs L R (ts[i := Live (entry P i)]) g"
proof -
  have "(\<forall>j < length ts. \<not> inside in_cs (ts[i := Live (entry P i)] ! j)) \<Longrightarrow>
      (\<forall>j < length ts. \<not> inside in_cs (ts ! j))"
    using assms(3) by (metis inside_simps(1) nth_list_update_neq)
  with assms cs_entry show ?thesis
    by (auto simp: protected_def nth_list_update)
qed

lemma none_inside_update:
  assumes "i < length ts" and "\<not> inside in_cs x"
  shows "(\<forall>j < length ts. \<not> inside in_cs (ts[i := x] ! j)) \<longleftrightarrow>
    (\<forall>j < length ts. j \<noteq> i \<longrightarrow> \<not> inside in_cs (ts ! j))"
  using assms by (auto simp: nth_list_update)

lemma protected_goto:
  assumes ex: "excl ts g" and pr: "protected in_cs L R ts g" and sd: "side ts g"
    and i: "i < length ts" and pc: "ts ! i = Live pc"
    and b: "body P i (Some (int (slot P i))) pc g = Goto pc' g'"
  shows "protected in_cs L R (ts[i := Live pc']) g'"
proof -
  note steps = res_enter [OF sd i pc b] res_work [OF sd i pc b] res_leave [OF sd i pc b]
  from cs_goto [OF ex i pc b] have ex': "excl (ts[i := Live pc']) g'" .
  consider "in_cs pc'" | "in_cs pc" "\<not> in_cs pc'" | "\<not> in_cs pc" "\<not> in_cs pc'" by blast
  then show ?thesis
  proof cases
    case 1
    then have others: "\<not> inside in_cs (ts ! j)" if "j < length ts" "j \<noteq> i" for j
      using only_inside [OF ex', of i j] that i by simp
    have "L pc' g'"
    proof (cases "in_cs pc")
      case True
      with 1 steps(2) protectedD [OF pr i pc] show ?thesis by blast
    next
      case False
      then have "\<forall>j < length ts. \<not> inside in_cs (ts ! j)" using others pc by (metis inside_simps(3))
      with pr have "R g" by (simp add: protected_def)
      with 1 False steps(1) show ?thesis by blast
    qed
    with 1 others i show ?thesis
      by (auto simp: protected_def nth_list_update) (metis inside_simps(3))+
  next
    case 2
    then have others: "\<not> inside in_cs (ts ! j)" if "j < length ts" "j \<noteq> i" for j
      using only_inside [OF ex i _ that] pc by simp
    from 2 steps(3) protectedD [OF pr i pc] have "R g'" by blast
    with 2 others i show ?thesis
      by (auto simp: protected_def nth_list_update) (metis inside_simps(3))+
  next
    case 3
    with res_outside [OF b] pr i pc show ?thesis
      unfolding protected_def length_list_update
      by (subst none_inside_update) (auto simp: nth_list_update)
  qed
qed

lemma protected_done:
  assumes pr: "protected in_cs L R ts g"
    and i: "i < length ts" and pc: "ts ! i = Live pc"
    and b: "body P i (Some (int (slot P i))) pc g = Return g'"
  shows "protected in_cs L R (ts[i := Done]) g'"
  using res_return [OF b] cs_return [OF b] pr i pc
  unfolding protected_def length_list_update
  by (subst none_inside_update) (auto simp: nth_list_update)

lemma protected_init: "R g \<Longrightarrow> protected in_cs L R (replicate n Unborn) g"
  by (simp add: protected_def)

end

section \<open>Programs around one lock\<close>

text \<open>
  The labs whose threads wait for nothing but one lock: if each action of a thread
  keeps \<open>side\<close> and is defined, and a thread that waits does so outside the section
  and for the lock, then the program runs to completion under every schedule.
\<close>

definition locked_inv ::
  "('l \<Rightarrow> nat option \<Rightarrow> bool) \<Rightarrow> ('g \<Rightarrow> 'l) \<Rightarrow> ('pc \<Rightarrow> bool) \<Rightarrow> ('pc \<Rightarrow> 'g \<Rightarrow> bool) \<Rightarrow> ('g \<Rightarrow> bool) \<Rightarrow>
   ('pc thread list \<Rightarrow> 'g \<Rightarrow> bool) \<Rightarrow> 'pc thread list \<Rightarrow> 'g \<Rightarrow> bool" where
  "locked_inv held lk in_cs L R side ts g \<longleftrightarrow>
     cs_inv held lk in_cs ts g \<and> protected in_cs L R ts g \<and> side ts g"

locale locked_program = protected_section acquire release held P lk in_cs side L R
  for acquire :: "nat \<Rightarrow> 'l \<Rightarrow> 'l option"
    and release :: "nat \<Rightarrow> 'l \<Rightarrow> 'l option"
    and held :: "'l \<Rightarrow> nat option \<Rightarrow> bool"
    and P :: "('pc, 'g) program"
    and lk :: "'g \<Rightarrow> 'l"
    and in_cs :: "'pc \<Rightarrow> bool"
    and side :: "'pc thread list \<Rightarrow> 'g \<Rightarrow> bool"
    and L :: "'pc \<Rightarrow> 'g \<Rightarrow> bool"
    and R :: "'g \<Rightarrow> bool" +
  fixes g0 :: 'g
    and pc_work :: "'pc \<Rightarrow> nat"
  assumes slots: "i < no_th P \<Longrightarrow> slot P i < no_th P"
    and checked: "bad_rc P r \<longleftrightarrow> r \<noteq> 0"
    and starts: "\<exists>g. init P g0 = Inr g \<and> held (lk g) None \<and> R g \<and> side (replicate (no_th P) Unborn) g"
    and ends: "held (lk g) None \<Longrightarrow> R g \<Longrightarrow> side (replicate (no_th P) Done) g \<Longrightarrow> \<exists>h. fini P g = Inr h"
    and side_birth: "side ts g \<Longrightarrow> length ts = no_th P \<Longrightarrow> i < no_th P \<Longrightarrow> ts ! i = Unborn \<Longrightarrow>
      side (ts[i := Live (entry P i)]) (before P i g)"
    and side_goto: "side ts g \<Longrightarrow> length ts = no_th P \<Longrightarrow> i < no_th P \<Longrightarrow> ts ! i = Live pc \<Longrightarrow>
      body P i (Some (int (slot P i))) pc g = Goto pc' g' \<Longrightarrow> side (ts[i := Live pc']) g'"
    and side_return: "side ts g \<Longrightarrow> length ts = no_th P \<Longrightarrow> i < no_th P \<Longrightarrow> ts ! i = Live pc \<Longrightarrow>
      body P i (Some (int (slot P i))) pc g = Return g' \<Longrightarrow> side (ts[i := Done]) g'"
    and defined: "side ts g \<Longrightarrow> length ts = no_th P \<Longrightarrow> i < no_th P \<Longrightarrow> ts ! i = Live pc \<Longrightarrow>
      (in_cs pc \<Longrightarrow> L pc g \<and> release i (lk g) \<noteq> None) \<Longrightarrow> body P i (Some (int (slot P i))) pc g \<noteq> Crash"
    and waits: "body P i a pc g = Blocked \<Longrightarrow> \<not> in_cs pc \<and> acquire i (lk g) = None"
    and works: "side ts g \<Longrightarrow> length ts = no_th P \<Longrightarrow> i < no_th P \<Longrightarrow> ts ! i = Live pc \<Longrightarrow>
      (in_cs pc \<Longrightarrow> L pc g) \<Longrightarrow>
      body P i (Some (int (slot P i))) pc g = Goto pc' g' \<Longrightarrow> pc_work pc' < pc_work pc"
    and before_keeps: "lk (before P i g) = lk g \<and> (R g \<longrightarrow> R (before P i g)) \<and>
      (\<forall>q. in_cs q \<longrightarrow> L q g \<longrightarrow> L q (before P i g))"
begin

abbreviation linv :: "'pc thread list \<Rightarrow> 'g \<Rightarrow> bool" where
  "linv \<equiv> locked_inv held lk in_cs L R side"

lemma linv_defined:
  assumes inv: "linv ts g" and len: "length ts = no_th P" and i: "i < no_th P" and pc: "ts ! i = Live pc"
  shows "body P i (Some (int (slot P i))) pc g \<noteq> Crash"
proof (rule defined [OF _ len i pc])
  from inv show "side ts g" by (simp add: locked_inv_def)
  assume "in_cs pc"
  with inv len i pc show "L pc g \<and> release i (lk g) \<noteq> None"
    using protectedD [of in_cs L R ts g i pc] cs_can_release [of ts g i] by (simp add: locked_inv_def)
qed

lemma linv_progress:
  assumes inv: "linv ts g" and len: "length ts = no_th P" and born: "\<And>i. i < no_th P \<Longrightarrow> ts ! i \<noteq> Unborn"
    and k: "k < no_th P" "ts ! k \<noteq> Done"
  shows "\<exists>i pc. i < no_th P \<and> ts ! i = Live pc \<and> body P i (Some (int (slot P i))) pc g \<noteq> Blocked"
proof -
  from born [OF k(1)] k obtain pc where pc: "ts ! k = Live pc" by (cases "ts ! k") auto
  show ?thesis
  proof (cases "body P k (Some (int (slot P k))) pc g = Blocked")
    case True
    then have "acquire k (lk g) = None" by (auto dest: waits)
    with inv len obtain j q where "j < no_th P" "ts ! j = Live q" "in_cs q"
      using cs_waits [of ts g k] by (auto simp: locked_inv_def inside_iff)
    with waits show ?thesis by blast
  next
    case False
    with pc k show ?thesis by blast
  qed
qed

lemma linv_goto:
  assumes "linv ts g" and "length ts = no_th P" and "i < no_th P" and "ts ! i = Live pc"
    and "body P i (Some (int (slot P i))) pc g = Goto pc' g'"
  shows "linv (ts[i := Live pc']) g'"
  using assms cs_goto [of ts g i pc] protected_goto [of ts g i pc pc' g'] side_goto [of ts g i pc pc' g']
  by (simp add: locked_inv_def)

lemma linv_return:
  assumes "linv ts g" and "length ts = no_th P" and "i < no_th P" and "ts ! i = Live pc"
    and "body P i (Some (int (slot P i))) pc g = Return g'"
  shows "linv (ts[i := Done]) g'"
  using assms cs_done [of ts g i pc] protected_done [of ts g i pc g'] side_return [of ts g i pc g']
  by (simp add: locked_inv_def)

lemma linv_birth:
  assumes "linv ts g" and "length ts = no_th P" and "i < no_th P" and "ts ! i = Unborn"
  shows "linv (ts[i := Live (entry P i)]) (before P i g)"
proof -
  have "cs_inv held lk in_cs (ts[i := Live (entry P i)]) g" and pr: "protected in_cs L R (ts[i := Live (entry P i)]) g"
    and side: "side (ts[i := Live (entry P i)]) (before P i g)"
    using assms cs_birth [of ts g i] protected_birth [of ts g i] side_birth [of ts g i] by (simp_all add: locked_inv_def)
  then have "cs_inv held lk in_cs (ts[i := Live (entry P i)]) (before P i g)"
    using before_keeps [of i g] by (simp add: cs_inv_def)
  moreover have "protected in_cs L R (ts[i := Live (entry P i)]) (before P i g)"
    using pr before_keeps [of i g] by (simp add: protected_def)
  ultimately show ?thesis using side by (simp add: locked_inv_def)
qed

lemma linv_init: "\<exists>g. init P g0 = Inr g \<and> linv (replicate (no_th P) Unborn) g"
  using starts cs_init protected_init by (auto simp: locked_inv_def)

lemma linv_done:
  assumes "linv (replicate n Done) g"
  shows "held (lk g) None" and "R g" and "side (replicate n Done) g"
proof -
  from assms have "cs_inv held lk in_cs (replicate n Done) g" by (simp add: locked_inv_def)
  then obtain h where h: "held (lk g) h" "\<forall>i < n. \<not> inside in_cs (replicate n Done ! i) \<longleftrightarrow> h \<noteq> Some i"
      "\<forall>i. h = Some i \<longrightarrow> i < n"
    by (auto simp: cs_inv_def)
  then have "h = None" by (cases h) auto
  with h(1) show "held (lk g) None" by simp
  from assms show "R g" "side (replicate n Done) g" by (auto simp: locked_inv_def protected_def)
qed

sublocale cp: counted_program rc P g0 linv pc_work for rc
proof unfold_locales
  fix ts g i pc pc' g'
  assume a: "linv ts g" "length ts = no_th P" "i < no_th P" "ts ! i = Live pc"
    "body P i (Some (int (slot P i))) pc g = Goto pc' g'"
  then show "pc_work pc' < pc_work pc"
    using works [of ts g i pc pc' g'] protectedD [of in_cs L R ts g i pc] by (simp add: locked_inv_def)
next
  fix g
  assume "linv (replicate (no_th P) Done) g"
  then show "\<exists>h. fini P g = Inr h" using ends linv_done by blast
qed (fact slots linv_init linv_defined linv_progress linv_goto linv_return linv_birth | simp add: checked)+

text \<open>What is known when the program has ended, and in every state it can reach.\<close>

lemma ended:
  assumes "run (proc_step all_ok P) sch (boot P g0) = Some s" and "\<forall>a. proc_step all_ok P a s = None"
  shows "main s = Exited EXIT_SUCCESS \<and> err s = [] \<and>
    (\<exists>h. fini P h = Inr (glob s) \<and> held (lk h) None \<and> R h \<and> side (replicate (no_th P) Done) h)"
proof -
  from cp.cnt.maximal_run_ok [OF assms(1)] assms(2)
  obtain h where "main s = Exited EXIT_SUCCESS" "err s = []" "linv (replicate (no_th P) Done) h"
      "fini P h = Inr (glob s)"
    by (auto simp: all_ok_def)
  with linv_done [of "no_th P" h] show ?thesis by blast
qed

lemma length_bounded:
  assumes "run (proc_step rc P) sch (boot P g0) = Some s"
  shows "length sch \<le> 2 * no_th P + 4 + (\<Sum>i < no_th P. pc_work (entry P i) + 1)"
  by (rule cp.counted_bounded [OF assms])

lemma can_end: "\<exists>sch s. run (proc_step rc P) sch (boot P g0) = Some s \<and> (\<forall>a. proc_step rc P a s = None)"
  by (rule cp.counted_can_end)

lemma always:
  assumes "reach (proc_step rc P) (boot P g0) s" and "running (main s)" and "main s \<noteq> Init"
  shows "linv (threads s) (glob s)"
  using cp.sys.reach_inv [OF assms(1)] assms(2,3) by (cases "main s") (auto simp: proc_inv_def running_def)

lemma failures_exit:
  assumes "run (proc_step rc P) sch (boot P g0) = Some s"
  shows "main s \<noteq> Undefined \<and>
    ((\<forall>a. proc_step rc P a s = None) \<longrightarrow>
      main s = Exited EXIT_SUCCESS \<and> err s = [] \<or>
      main s = Exited EXIT_FAILURE \<and> (\<exists>i < no_th P. create_rc rc i \<noteq> 0 \<or> join_rc rc i \<noteq> 0))"
  using cp.sys.run_inv [OF assms] cp.cnt.maximal_run [OF assms] by (auto simp: proc_inv_def)

end

end
