(* ===== verification/Cpp_Thread.thy ===== *)
theory Cpp_Thread
  imports Pthread
begin

text \<open>
  The programs under \<^verbatim>\<open>cpp/\<close> that run \<open>std::thread\<close>s. They share the skeleton of theory
  \<open>Pthread\<close>: construct the shared state, construct the threads in order (the arguments are
  copied, \<open>thread_no\<close> holds the copies), join them in order (\<open>wait_threads\<close> of
  \<^verbatim>\<open>cpp/include/common.hh\<close>; a thread that was constructed is joinable until it is joined, so the
  branch that reports an error is not taken), destroy the shared state. A \<open>std::mutex\<close> is a
  \<open>pthread_mutex_t\<close>.

  What differs is how failure shows: the constructor of \<open>std::thread\<close> throws
  \<open>std::system_error\<close>. Where nobody catches it, \<open>std::terminate\<close> ends the process. Where \<open>main\<close>
  catches it, \<open>main\<close> prints \<open>what()\<close> and \<open>code()\<close> and returns; the vector of threads is destroyed
  on the way, and destroying a joinable thread is \<open>std::terminate\<close> again. Which constructions
  throw is a parameter of the model.

  A program may have a signal handler, which acts on the globals at any time, and \<open>main\<close> may
  do something of its own right before it constructs a thread (\<open>before\<close>).
\<close>

section \<open>The skeleton\<close>

record cxx_env =
  throws :: "nat \<Rightarrow> bool"
  what :: string
  code :: string

definition all_start :: cxx_env where
  "all_start = \<lparr>throws = (\<lambda>_. False), what = [], code = []\<rparr>"

datatype ('pc, 'g) cxx =
    Alive "('pc, 'g) proc"
  | Terminated "('pc, 'g) proc"
  | Returned "('pc, 'g) proc"

record ('pc, 'g) cxx_program =
  prog :: "('pc, 'g) program"
  catches :: bool
  on_signal :: "'g \<Rightarrow> 'g option"

datatype cxx_actor = Act actor | Signal

text \<open>The constructor of thread \<open>i\<close> throws: \<open>i\<close> threads are joinable at this moment.\<close>

definition thread_fails :: "cxx_env \<Rightarrow> bool \<Rightarrow> nat \<Rightarrow> ('pc, 'g) proc \<Rightarrow> ('pc, 'g) cxx" where
  "thread_fails e caught i s =
     (if caught then
        (let s' = s\<lparr>err := err s @ [what e, code e]\<rparr> in if i = 0 then Returned s' else Terminated s')
      else Terminated s)"

definition construct_thread ::
  "cxx_env \<Rightarrow> ('pc, 'g) cxx_program \<Rightarrow> nat \<Rightarrow> ('pc, 'g) proc \<Rightarrow> ('pc, 'g) cxx" where
  "construct_thread e C i s =
     (if throws e i then thread_fails e (catches C) i (s\<lparr>glob := before (prog C) i (glob s)\<rparr>)
      else Alive (create_thread all_ok (prog C) i s))"

definition creating :: "('pc, 'g) cxx_program \<Rightarrow> ('pc, 'g) proc \<Rightarrow> nat option" where
  "creating C s = (case main s of Create i \<Rightarrow> if i < no_th (prog C) then Some i else None | _ \<Rightarrow> None)"

fun cxx_step ::
  "cxx_env \<Rightarrow> ('pc, 'g) cxx_program \<Rightarrow> cxx_actor \<Rightarrow> ('pc, 'g) cxx \<Rightarrow> ('pc, 'g) cxx option" where
  "cxx_step e C (Act Main) (Alive s) =
     (case creating C s of
        Some i \<Rightarrow> Some (construct_thread e C i s)
      | None \<Rightarrow> map_option Alive (main_step all_ok (prog C) s))"
| "cxx_step e C (Act (Thr i)) (Alive s) = map_option Alive (thread_step (prog C) i s)"
| "cxx_step e C Signal (Alive s) =
     (if running (main s) \<and> main s \<noteq> Init
      then map_option (\<lambda>g. Alive (s\<lparr>glob := g\<rparr>)) (on_signal C (glob s)) else None)"
| "cxx_step e C a (Terminated s) = None"
| "cxx_step e C a (Returned s) = None"

lemma creating_Some: "creating C s = Some i \<longleftrightarrow> main s = Create i \<and> i < no_th (prog C)"
  by (auto simp: creating_def split: main_pc.splits)

lemma cxx_stepE:
  assumes "cxx_step e C a s = Some t"
  obtains (fails) p i where "s = Alive p" "creating C p = Some i" "throws e i"
      "t = thread_fails e (catches C) i (p\<lparr>glob := before (prog C) i (glob p)\<rparr>)"
  | (create) p i where "s = Alive p" "creating C p = Some i" "\<not> throws e i"
      "t = Alive (create_thread all_ok (prog C) i p)"
  | (main) p q where "s = Alive p" "creating C p = None" "main_step all_ok (prog C) p = Some q" "t = Alive q"
  | (thread) p i q where "s = Alive p" "thread_step (prog C) i p = Some q" "t = Alive q"
  | (signal) p g where "s = Alive p" "running (main p)" "main p \<noteq> Init" "on_signal C (glob p) = Some g"
      "t = Alive (p\<lparr>glob := g\<rparr>)"
proof (cases s)
  case (Alive p)
  show thesis
  proof (cases a)
    case (Act x)
    with Alive assms that(1-4) show thesis
      by (cases x) (auto simp: construct_thread_def Let_def split: option.splits if_splits)
  next
    case Signal
    with Alive assms that(5) show thesis by (auto split: if_splits)
  qed
qed (use assms in auto)

section \<open>Invariants\<close>

fun created :: "nat \<Rightarrow> main_pc \<Rightarrow> nat" where
  "created n Init = 0"
| "created n (Create k) = k"
| "created n _ = n"

fun cxx_inv ::
  "cxx_env \<Rightarrow> ('pc, 'g) cxx_program \<Rightarrow> 'g \<Rightarrow> ('pc thread list \<Rightarrow> 'g \<Rightarrow> bool) \<Rightarrow> ('pc, 'g) cxx \<Rightarrow> bool" where
  "cxx_inv e C g0 I (Alive s) \<longleftrightarrow>
     proc_inv all_ok (prog C) g0 I s \<and> (\<forall>i < created (no_th (prog C)) (main s). \<not> throws e i)"
| "cxx_inv e C g0 I (Terminated s) \<longleftrightarrow>
     (\<exists>i < no_th (prog C). throws e i) \<and> \<not> (catches C \<and> throws e 0)"
| "cxx_inv e C g0 I (Returned s) \<longleftrightarrow>
     0 < no_th (prog C) \<and> catches C \<and> throws e 0 \<and> err s = [what e, code e]"

text \<open>A thread program whose handler respects the program's invariant.\<close>

locale cxx_threads =
  fixes e :: cxx_env
    and C :: "('pc, 'g) cxx_program"
    and g0 :: 'g
    and I :: "'pc thread list \<Rightarrow> 'g \<Rightarrow> bool"
  assumes is_program: "thread_program all_ok (prog C) g0 I"
    and handler: "I ts g \<Longrightarrow> length ts = no_th (prog C) \<Longrightarrow> on_signal C g = Some g' \<Longrightarrow> I ts g'"
begin

lemma created_step:
  assumes "main_step all_ok (prog C) s = Some t" and "creating C s = None"
    and "\<forall>i < created (no_th (prog C)) (main s). \<not> throws e i"
    and "proc_inv all_ok (prog C) g0 I s"
  shows "\<forall>i < created (no_th (prog C)) (main t). \<not> throws e i"
proof (cases "main s")
  case Init
  with assms(1,4) thread_program.I_init [OF is_program] show ?thesis
    by (auto simp: main_step_def proc_inv_def)
next
  case (Create k)
  with assms show ?thesis by (auto simp: main_step_def creating_def split: if_splits)
qed (use assms in \<open>auto simp: main_step_def wait_thread_def error_msg_def split: sum.splits if_splits thread.splits\<close>)

lemma fails_inv:
  assumes "cxx_inv e C g0 I (Alive s)" and "creating C s = Some i" and "throws e i"
  shows "cxx_inv e C g0 I (thread_fails e (catches C) i (s\<lparr>glob := g\<rparr>))"
proof -
  from assms(2) have m: "main s = Create i" and i: "i < no_th (prog C)" by (simp_all add: creating_Some)
  with assms(1) have "err s = []" "\<forall>j < i. \<not> throws e j" by (auto simp: proc_inv_def)
  with i assms(3) show ?thesis by (cases i) (auto simp: thread_fails_def Let_def)
qed

lemma construct_inv:
  assumes "proc_inv all_ok (prog C) g0 I s" and "creating C s = Some i"
  shows "proc_inv all_ok (prog C) g0 I (create_thread all_ok (prog C) i s) \<and>
    main (create_thread all_ok (prog C) i s) = Create (Suc i)"
proof -
  from assms(2) have m: "main s = Create i" and i: "i < no_th (prog C)" by (simp_all add: creating_Some)
  moreover have "\<not> bad_rc (prog C) 0" using thread_program.zero_good [OF is_program] .
  ultimately show ?thesis
    using thread_program.create_inv [OF is_program assms(1) m i] by (simp add: create_thread_def all_ok_def Let_def)
qed

lemma cxx_step_inv:
  assumes inv: "cxx_inv e C g0 I s" and st: "cxx_step e C a s = Some t"
  shows "cxx_inv e C g0 I t"
  using st
proof (cases rule: cxx_stepE)
  case (fails p i)
  with inv show ?thesis by (auto intro: fails_inv)
next
  case (create p i)
  with inv construct_inv [of p i] show ?thesis by (auto simp: creating_Some less_Suc_eq)
next
  case (main p q)
  with inv created_step [of p q] thread_program.proc_step_inv [OF is_program, of p Main q] show ?thesis by simp
next
  case (thread p i q)
  with inv have q: "proc_inv all_ok (prog C) g0 I q"
    using thread_program.proc_step_inv [OF is_program, of p "Thr i" q] by simp
  then have "created (no_th (prog C)) (main q) = created (no_th (prog C)) (main p)"
    using thread(2) by (auto simp: thread_step_def proc_inv_def split: if_splits thread.splits outcome.splits)
  with thread inv q show ?thesis by simp
next
  case (signal p g)
  with inv show ?thesis
    by (cases "main p") (auto simp: proc_inv_def args_ok_def running_def intro: handler)
qed

sublocale sig: invariant_system "cxx_step e C" "Alive (boot (prog C) g0)" "cxx_inv e C g0 I"
  using cxx_step_inv thread_program.boot_inv [OF is_program]
  by unfold_locales (auto simp: boot_def)

lemma reach_cxx_inv: "reach (cxx_step e C) (Alive (boot (prog C) g0)) s \<Longrightarrow> cxx_inv e C g0 I s"
  by (rule sig.reach_inv)

lemma alive_inv:
  assumes "reach (cxx_step e C) (Alive (boot (prog C) g0)) (Alive s)" and "running (main s)" and "main s \<noteq> Init"
  shows "I (threads s) (glob s) \<and> length (threads s) = no_th (prog C)"
  using sig.reach_inv [OF assms(1)] assms(2,3)
  by (cases "main s") (auto simp: proc_inv_def args_ok_def running_def)

lemma never_undefined:
  assumes "reach (cxx_step e C) (Alive (boot (prog C) g0)) (Alive s)"
  shows "main s \<noteq> Undefined"
  using sig.reach_inv [OF assms] by (auto simp: proc_inv_def)

end

section \<open>Termination\<close>

fun cxx_work :: "(('pc, 'g) proc \<Rightarrow> nat) \<Rightarrow> ('pc, 'g) cxx \<Rightarrow> nat" where
  "cxx_work w (Alive s) = Suc (w s)"
| "cxx_work w _ = 0"

fun cxx_final :: "('pc, 'g) cxx \<Rightarrow> bool" where
  "cxx_final (Alive s) \<longleftrightarrow> (\<exists>c. main s = Exited c)"
| "cxx_final _ \<longleftrightarrow> True"

text \<open>
  Programs without signals whose threads do a bounded amount of work: when every thread can
  be constructed they end as under \<open>Pthread\<close>; otherwise the process is terminated, except if
  the exception is caught and the very first thread has failed.
\<close>

locale cxx_counted = counted_program all_ok P g0 I pc_work
  for P :: "('pc, 'g) program"
    and g0 :: 'g
    and I :: "'pc thread list \<Rightarrow> 'g \<Rightarrow> bool"
    and pc_work :: "'pc \<Rightarrow> nat" +
  fixes C :: "('pc, 'g) cxx_program"
  assumes prog_C: "prog C = P"
    and no_handler: "on_signal C = (\<lambda>_. None)"
begin

sublocale cx: cxx_threads e C g0 I for e
  by (rule cxx_threads.intro) (simp_all add: prog_C no_handler thread_program_axioms)

definition proc_left :: "('pc, 'g) proc \<Rightarrow> nat" where
  "proc_left =
     proc_work P (threads_work P pc_work (replicate (no_th P) Unborn)) (\<lambda>ts g. threads_work P pc_work ts)"

lemma cxx_work_step:
  assumes "cxx_inv e C g0 I s" and "cxx_step e C a s = Some t"
  shows "cxx_work proc_left t < cxx_work proc_left s"
  using assms(2)
proof (cases rule: cxx_stepE)
  case (fails p i)
  then show ?thesis by (auto simp: thread_fails_def Let_def)
next
  case (create p i)
  with assms(1) cnt.create_work [of p i] show ?thesis by (simp add: prog_C creating_Some proc_left_def)
next
  case (main p q)
  with assms(1) cnt.main_step_work [of p q] show ?thesis by (simp add: prog_C proc_left_def)
next
  case (thread p i q)
  with assms(1) cnt.thread_step_work [of p i q] show ?thesis by (simp add: prog_C proc_left_def)
qed (simp add: no_handler)

lemma cxx_stuck:
  assumes inv: "cxx_inv e C g0 I s" and stuck: "\<And>a. cxx_step e C a s = None"
  shows "cxx_final s"
proof (cases s)
  case (Alive p)
  have "proc_step all_ok P a p = None" for a
  proof (cases a)
    case Main
    with stuck [of "Act Main"] Alive show ?thesis by (simp add: prog_C split: option.splits)
  next
    case (Thr i)
    with stuck [of "Act (Thr i)"] Alive show ?thesis by (simp add: prog_C)
  qed
  with cnt.stuck_exited [of p] inv Alive show ?thesis by (simp add: prog_C)
qed auto

sublocale cxs: terminating_system "cxx_step e C" "Alive (boot P g0)" "cxx_inv e C g0 I" "cxx_work proc_left" cxx_final for e
  using cx.sig.inv_start [unfolded prog_C]
  by unfold_locales (auto intro: cx.cxx_step_inv cxx_work_step cxx_stuck)

lemma cxx_maximal:
  assumes "run (cxx_step e C) sch (Alive (boot P g0)) = Some st" and "\<forall>a. cxx_step e C a st = None"
  shows "if \<exists>i < no_th P. throws e i
    then \<exists>s. st = (if catches C \<and> throws e 0 then Returned s else Terminated s)
    else \<exists>s h. st = Alive s \<and> main s = Exited EXIT_SUCCESS \<and> err s = [] \<and>
      fini P h = Inr (glob s) \<and> I (replicate (no_th P) Done) h"
proof -
  have inv: "cxx_inv e C g0 I st" and fin: "cxx_final st"
    using cxs.run_inv [OF assms(1)] cxs.maximal_final [OF assms(1)] assms(2) by auto
  show ?thesis
  proof (cases st)
    case (Alive s)
    with inv fin obtain h where "main s = Exited EXIT_SUCCESS" "err s = []" "I (replicate (no_th P) Done) h"
        "fini P h = Inr (glob s)" "\<forall>i < no_th P. \<not> throws e i"
      by (auto simp: proc_inv_def prog_C all_ok_def)
    with Alive show ?thesis by auto
  qed (use inv in \<open>auto simp: prog_C\<close>)
qed

lemma cxx_can_end: "\<exists>sch st. run (cxx_step e C) sch (Alive (boot P g0)) = Some st \<and> (\<forall>a. cxx_step e C a st = None)"
  using cxs.completes by blast

lemma cxx_bounded:
  assumes "run (cxx_step e C) sch (Alive (boot P g0)) = Some st"
  shows "length sch \<le> 2 * no_th P + 5 + (\<Sum>i < no_th P. pc_work (entry P i) + 1)"
  using cxs.run_bounded [OF assms] by (simp add: proc_left_def proc_work_def boot_def threads_work_def)

end

text \<open>Programs around one lock are such programs.\<close>

locale cxx_locked = locked_program acquire release held P lk in_cs side L R g0 pc_work
  for acquire :: "nat \<Rightarrow> 'l \<Rightarrow> 'l option"
    and release :: "nat \<Rightarrow> 'l \<Rightarrow> 'l option"
    and held :: "'l \<Rightarrow> nat option \<Rightarrow> bool"
    and P :: "('pc, 'g) program"
    and lk :: "'g \<Rightarrow> 'l"
    and in_cs :: "'pc \<Rightarrow> bool"
    and side :: "'pc thread list \<Rightarrow> 'g \<Rightarrow> bool"
    and L :: "'pc \<Rightarrow> 'g \<Rightarrow> bool"
    and R :: "'g \<Rightarrow> bool"
    and g0 :: 'g
    and pc_work :: "'pc \<Rightarrow> nat" +
  fixes C :: "('pc, 'g) cxx_program"
  assumes prog_L: "prog C = P"
    and no_handler_L: "on_signal C = (\<lambda>_. None)"
begin

sublocale cc: cxx_counted P g0 linv pc_work C
  by unfold_locales (simp_all add: prog_L no_handler_L)

lemma cxx_ended:
  assumes "run (cxx_step e C) sch (Alive (boot P g0)) = Some st" and "\<forall>a. cxx_step e C a st = None"
  shows "if \<exists>i < no_th P. throws e i
    then \<exists>s. st = (if catches C \<and> throws e 0 then Returned s else Terminated s)
    else \<exists>s h. st = Alive s \<and> main s = Exited EXIT_SUCCESS \<and> err s = [] \<and>
      fini P h = Inr (glob s) \<and> held (lk h) None \<and> R h \<and> side (replicate (no_th P) Done) h"
proof (cases "\<exists>i < no_th P. throws e i")
  case True
  with cc.cxx_maximal [OF assms] show ?thesis by simp
next
  case False
  with cc.cxx_maximal [OF assms] obtain s h where "st = Alive s" "main s = Exited EXIT_SUCCESS" "err s = []"
      "fini P h = Inr (glob s)" "linv (replicate (no_th P) Done) h"
    by auto
  with False linv_done [of "no_th P" h] show ?thesis by auto
qed

end

end
