(* ===== verification/Cpp_Warehouse.thy ===== *)
theory Cpp_Warehouse
  imports Cpp_Thread
begin

text \<open>
  The class template \<open>ProducerConsumer::Semaphore<BUFFER_LEN>\<close> of \<^verbatim>\<open>cpp/include/buffer.hh\<close>, the
  C++ version of lab 5b (\<^verbatim>\<open>cpp/cc_lab05_b.cc\<close>), for any length of the buffer and any number of
  producers and consumers. Other than in C (theory \<open>Warehouse\<close>) the slots hold no items, only
  what to draw, and the threads run until SIGINT clears the flag \<open>running\<close>, which each of them
  reads at the head of its loop.

  One action is one library call or one statement under \<open>sem_lock\<close>. The indices are \<open>size_t\<close>;
  they stay below \<open>BUFFER_LEN\<close>, so their increment does not wrap around.
\<close>

section \<open>The class\<close>

datatype Slot = EMPTY | TAKEN | RECENTLY

fun show_slot :: "Slot \<Rightarrow> string" where
  "show_slot EMPTY = ''0''"
| "show_slot TAKEN = ''+''"
| "show_slot RECENTLY = ''*''"

datatype mp_line = Line string | Number string nat

record mp_globals =
  mp_running :: bool
  producer_idx :: nat
  consumer_idx :: nat
  mp_full :: rk_sema
  mp_empty :: rk_sema
  mp_lock :: rk_sema
  cont :: "Slot list"
  mp_out :: "mp_line list"
  mp_err :: "string list"

definition mp_globals0 :: mp_globals where
  "mp_globals0 =
     \<lparr>mp_running = True, producer_idx = 0, consumer_idx = 0, mp_full = raw_sema, mp_empty = raw_sema,
      mp_lock = raw_sema, cont = [], mp_out = [], mp_err = []\<rparr>"

definition mp_report :: "int \<Rightarrow> string \<Rightarrow> mp_globals \<Rightarrow> mp_globals" where
  "mp_report r m g = (if r \<noteq> 0 then g\<lparr>mp_err := mp_err g @ [m]\<rparr> else g)"

text \<open>The constructor: \<open>BUFFER_LEN\<close> is converted to the \<open>unsigned\<close> argument of \<open>rk_sema_init\<close>.\<close>

definition mp_construct :: "nat \<Rightarrow> mp_globals \<Rightarrow> mp_globals" where
  "mp_construct LEN g0 =
     (let g = g0\<lparr>producer_idx := 0, consumer_idx := 0\<rparr>;
          (r1, full) = rk_sema_init (mp_full g) 0 0;
          g1 = mp_report r1 ''Error init semaphore for full lock'' (g\<lparr>mp_full := full\<rparr>);
          (r2, empty) = rk_sema_init (mp_empty g1) 0 (word_of_nat LEN);
          g2 = mp_report r2 ''Error init semaphore for empty lock'' (g1\<lparr>mp_empty := empty\<rparr>);
          (r3, lock) = rk_sema_init (mp_lock g2) 0 1;
          g3 = mp_report r3 ''Error init semaphore for lock'' (g2\<lparr>mp_lock := lock\<rparr>)
      in g3\<lparr>mp_out := mp_out g3 @ [Line ''Added SIGINT handler''], cont := replicate LEN EMPTY\<rparr>)"

definition mp_destruct :: "mp_globals \<Rightarrow> mp_globals" where
  "mp_destruct g =
     (let (r1, full) = rk_sema_destroy (mp_full g);
          g1 = mp_report r1 ''Error destroying Semaphore full lock'' (g\<lparr>mp_full := full\<rparr>);
          (r2, empty) = rk_sema_destroy (mp_empty g1);
          g2 = mp_report r2 ''Error destroying Semaphore empty lock'' (g1\<lparr>mp_empty := empty\<rparr>);
          (r3, lock) = rk_sema_destroy (mp_lock g2)
      in mp_report r3 ''Error destroying Semaphore lock'' (g2\<lparr>mp_lock := lock\<rparr>))"

text \<open>The operator \<open><<\<close> for the class.\<close>

definition mp_show :: "mp_globals \<Rightarrow> mp_globals" where
  "mp_show g = g\<lparr>mp_out := mp_out g @ [Line (''['' @ concat (map show_slot (cont g)) @ '']'')]\<rparr>"

text \<open>What \<open>run\<close> prints before it constructs the threads.\<close>

definition mp_schema :: "nat \<Rightarrow> nat \<Rightarrow> mp_globals \<Rightarrow> mp_globals" where
  "mp_schema n_producers n_consumers g =
     g\<lparr>mp_out := mp_out g @
        [Line ''Warehouse schema'', Line (CHR 0x09 # ''0 Empty slot''), Line (CHR 0x09 # ''* Taken slot''),
         Line (CHR 0x09 # ''+ Recently taken by worker''), Line '''',
         Number ''Number of trucks  (producers): '' n_producers,
         Number ''Number of workers (consumers): '' n_consumers]\<rparr>"

text \<open>The signal handler; SIGINT has the number 2.\<close>

definition mp_handler :: "mp_globals \<Rightarrow> mp_globals option" where
  "mp_handler g =
     Some (g\<lparr>mp_running := False, mp_out := mp_out g @ [Number ''shutting down producer consumer: '' 2]\<rparr>)"

datatype mp_pc =
    P_test | P_wait_empty | P_wait_lock | P_store | P_show | P_next | P_sleep | P_post_lock | P_post_full
  | C_test | C_wait_full | C_wait_lock | C_mark | C_next | C_show | C_clear | C_sleep | C_post_lock | C_post_empty

text \<open>Writing outside of the array and a remainder modulo zero are undefined.\<close>

definition mp_set :: "nat \<Rightarrow> Slot \<Rightarrow> mp_pc \<Rightarrow> mp_globals \<Rightarrow> (mp_pc, mp_globals) outcome" where
  "mp_set i x pc g = (if i < length (cont g) then Goto pc (g\<lparr>cont := (cont g)[i := x]\<rparr>) else Crash)"

definition mp_wait :: "rk_sema option \<Rightarrow> mp_pc \<Rightarrow> (rk_sema \<Rightarrow> mp_globals) \<Rightarrow> (mp_pc, mp_globals) outcome" where
  "mp_wait r pc f = (case r of None \<Rightarrow> Blocked | Some m \<Rightarrow> Goto pc (f m))"

fun mp_producer :: "nat \<Rightarrow> mp_pc \<Rightarrow> mp_globals \<Rightarrow> (mp_pc, mp_globals) outcome" where
  "mp_producer LEN P_test g = (if mp_running g then Goto P_wait_empty g else Return g)"
| "mp_producer LEN P_wait_empty g = mp_wait (sema_down (mp_empty g)) P_wait_lock (\<lambda>m. g\<lparr>mp_empty := m\<rparr>)"
| "mp_producer LEN P_wait_lock g = mp_wait (sema_down (mp_lock g)) P_store (\<lambda>m. g\<lparr>mp_lock := m\<rparr>)"
| "mp_producer LEN P_store g = mp_set (producer_idx g) TAKEN P_show g"
| "mp_producer LEN P_show g = Goto P_next (mp_show g)"
| "mp_producer LEN P_next g =
     (if LEN = 0 then Crash else Goto P_sleep (g\<lparr>producer_idx := (producer_idx g + 1) mod LEN\<rparr>))"
| "mp_producer LEN P_sleep g = Goto P_post_lock g"
| "mp_producer LEN P_post_lock g = Goto P_post_full (g\<lparr>mp_lock := rk_sema_post (mp_lock g)\<rparr>)"
| "mp_producer LEN P_post_full g = Goto P_test (g\<lparr>mp_full := rk_sema_post (mp_full g)\<rparr>)"
| "mp_producer LEN _ g = Crash"

fun mp_consumer :: "nat \<Rightarrow> mp_pc \<Rightarrow> mp_globals \<Rightarrow> (mp_pc, mp_globals) outcome" where
  "mp_consumer LEN C_test g = (if mp_running g then Goto C_wait_full g else Return g)"
| "mp_consumer LEN C_wait_full g = mp_wait (sema_down (mp_full g)) C_wait_lock (\<lambda>m. g\<lparr>mp_full := m\<rparr>)"
| "mp_consumer LEN C_wait_lock g = mp_wait (sema_down (mp_lock g)) C_mark (\<lambda>m. g\<lparr>mp_lock := m\<rparr>)"
| "mp_consumer LEN C_mark g = mp_set (consumer_idx g) RECENTLY C_next g"
| "mp_consumer LEN C_next g =
     (if LEN = 0 then Crash else Goto C_show (g\<lparr>consumer_idx := (consumer_idx g + 1) mod LEN\<rparr>))"
| "mp_consumer LEN C_show g = Goto C_clear (mp_show g)"
| "mp_consumer LEN C_clear g = mp_set (consumer_idx g) EMPTY C_sleep g"
| "mp_consumer LEN C_sleep g = Goto C_post_lock g"
| "mp_consumer LEN C_post_lock g = Goto C_post_empty (g\<lparr>mp_lock := rk_sema_post (mp_lock g)\<rparr>)"
| "mp_consumer LEN C_post_empty g = Goto C_test (g\<lparr>mp_empty := rk_sema_post (mp_empty g)\<rparr>)"
| "mp_consumer LEN _ g = Crash"

text \<open>\<open>main\<close>: construct, \<open>run\<close>, destroy. No thread takes an argument.\<close>

definition mp_program :: "nat \<Rightarrow> nat \<Rightarrow> nat \<Rightarrow> (mp_pc, mp_globals) program" where
  "mp_program LEN np nc =
     \<lparr>no_th = np + nc,
      entry = (\<lambda>i. if i < np then P_test else C_test),
      slot = (\<lambda>i. i),
      body = (\<lambda>i a pc g. if i < np then mp_producer LEN pc g else mp_consumer LEN pc g),
      bad_rc = (\<lambda>r. r \<noteq> 0),
      init = (\<lambda>g. Inr (mp_schema np nc (mp_construct LEN g))),
      fini = (\<lambda>g. Inr ((mp_destruct g)\<lparr>mp_out := mp_out (mp_destruct g) @ [Line ''main done '']\<rparr>)),
      create_msg = (\<lambda>i. []),
      join_msg = [],
      before = (\<lambda>i g. g)\<rparr>"

definition mp_cxx :: "nat \<Rightarrow> nat \<Rightarrow> nat \<Rightarrow> (mp_pc, mp_globals) cxx_program" where
  "mp_cxx LEN np nc = \<lparr>prog = mp_program LEN np nc, catches = False, on_signal = mp_handler\<rparr>"

definition mp_boot :: "nat \<Rightarrow> nat \<Rightarrow> nat \<Rightarrow> (mp_pc, mp_globals) cxx" where
  "mp_boot LEN np nc = Alive (boot (mp_program LEN np nc) mp_globals0)"

section \<open>The invariant\<close>

text \<open>
  Per thread: an item between the two indices that \<open>sem_full\<close> does not count (\<open>items\<close>), a free
  slot that \<open>sem_empty\<close> does not count (\<open>slots\<close>).
\<close>

fun mp_inside :: "mp_pc \<Rightarrow> bool" where
  "mp_inside pc \<longleftrightarrow>
     pc \<in> {P_store, P_show, P_next, P_sleep, P_post_lock, C_mark, C_next, C_show, C_clear, C_sleep, C_post_lock}"

definition mp_items :: "mp_pc \<Rightarrow> nat" where
  "mp_items pc = (if pc \<in> {P_sleep, P_post_lock, P_post_full, C_wait_lock, C_mark, C_next} then 1 else 0)"

definition mp_slots :: "mp_pc \<Rightarrow> nat" where
  "mp_slots pc =
     (if pc \<in> {P_wait_lock, P_store, P_show, P_next, C_show, C_clear, C_sleep, C_post_lock, C_post_empty} then 1 else 0)"

definition mp_is_producer :: "mp_pc \<Rightarrow> bool" where
  "mp_is_producer pc \<longleftrightarrow>
     pc \<in> {P_test, P_wait_empty, P_wait_lock, P_store, P_show, P_next, P_sleep, P_post_lock, P_post_full}"

definition mp_ring :: "nat \<Rightarrow> nat \<Rightarrow> mp_globals \<Rightarrow> bool" where
  "mp_ring LEN n g \<longleftrightarrow>
     length (cont g) = LEN \<and> n \<le> LEN \<and> producer_idx g < LEN \<and> consumer_idx g < LEN \<and>
     (consumer_idx g + n) mod LEN = producer_idx g"

definition mp_counts :: "nat \<Rightarrow> mp_pc thread list \<Rightarrow> mp_globals \<Rightarrow> bool" where
  "mp_counts LEN ts g \<longleftrightarrow>
     (\<exists>f e. mp_full g = live_sema f \<and> mp_empty g = live_sema e \<and>
        f + total mp_items ts + e + total mp_slots ts = LEN \<and> mp_ring LEN (f + total mp_items ts) g)"

definition mp_pcs :: "nat \<Rightarrow> mp_pc thread list \<Rightarrow> mp_globals \<Rightarrow> bool" where
  "mp_pcs np ts g \<longleftrightarrow>
     (\<forall>i < length ts. (\<forall>pc. ts ! i = Live pc \<longrightarrow> (mp_is_producer pc \<longleftrightarrow> i < np)) \<and> (ts ! i = Done \<longrightarrow> \<not> mp_running g))"

abbreviation sem_held :: "rk_sema \<Rightarrow> nat option \<Rightarrow> bool" where
  "sem_held \<equiv> \<lambda>s h. sema_holds s (if h = None then 1 else 0)"

definition mp_inv :: "nat \<Rightarrow> nat \<Rightarrow> mp_pc thread list \<Rightarrow> mp_globals \<Rightarrow> bool" where
  "mp_inv LEN np ts g \<longleftrightarrow> cs_inv sem_held mp_lock mp_inside ts g \<and> mp_counts LEN ts g \<and> mp_pcs np ts g"

lemma mp_program_simps [simp]:
  "no_th (mp_program LEN np nc) = np + nc"
  "entry (mp_program LEN np nc) i = (if i < np then P_test else C_test)"
  "slot (mp_program LEN np nc) i = i"
  "body (mp_program LEN np nc) i a pc g = (if i < np then mp_producer LEN pc g else mp_consumer LEN pc g)"
  "bad_rc (mp_program LEN np nc) r \<longleftrightarrow> r \<noteq> 0"
  "init (mp_program LEN np nc) g = Inr (mp_schema np nc (mp_construct LEN g))"
  "fini (mp_program LEN np nc) g = Inr ((mp_destruct g)\<lparr>mp_out := mp_out (mp_destruct g) @ [Line ''main done '']\<rparr>)"
  "prog (mp_cxx LEN np nc) = mp_program LEN np nc" "catches (mp_cxx LEN np nc) = False"
  "on_signal (mp_cxx LEN np nc) = mp_handler" "before (mp_program LEN np nc) = (\<lambda>i g. g)"
  by (simp_all add: mp_program_def mp_cxx_def)

lemmas mp_act_defs = mp_set_def mp_wait_def mp_show_def

text \<open>Each action by cases: a statement of a thread either moves it or returns.\<close>

lemma mp_wait_Goto: "mp_wait r pc f = Goto pc' g' \<longleftrightarrow> (\<exists>m. r = Some m \<and> pc' = pc \<and> g' = f m)"
  by (auto simp: mp_wait_def split: option.splits)

lemma mp_set_Goto:
  "mp_set i x pc g = Goto pc' g' \<longleftrightarrow> i < length (cont g) \<and> pc' = pc \<and> g' = g\<lparr>cont := (cont g)[i := x]\<rparr>"
  by (auto simp: mp_set_def)

lemma mp_return:
  "(if b then mp_producer LEN pc g else mp_consumer LEN pc g) = Return g' \<Longrightarrow>
   pc \<in> {P_test, C_test} \<and> g' = g \<and> \<not> mp_running g"
  by (cases pc) (auto simp: mp_act_defs split: if_splits option.splits)

interpretation mp: critical_section "\<lambda>i. sema_down" "\<lambda>i s. Some (rk_sema_post s)" sem_held
  "mp_program LEN np nc" mp_lock mp_inside for LEN np nc
proof (unfold_locales, goal_cases)
  case (2 i a pc g pc' g')
  then show ?case by (cases pc) (auto simp: mp_wait_Goto mp_set_Goto mp_show_def split: if_splits)
next
  case (3 i a pc g pc' g')
  then show ?case by (cases pc) (auto simp: mp_wait_Goto mp_set_Goto split: if_splits)
next
  case (4 i a pc g pc' g')
  then show ?case by (cases pc) (auto simp: mp_wait_Goto mp_set_Goto split: if_splits)
next
  case (5 i a pc g g')
  then have "(if i < np then mp_producer LEN pc g else mp_consumer LEN pc g) = Return g'" by simp
  then show ?case by (auto dest: mp_return)
qed simp


section \<open>The invariant holds\<close>

lemma mp_ring_put:
  assumes "mp_ring LEN n g" and "n < LEN" and "g' = g\<lparr>producer_idx := (producer_idx g + 1) mod LEN\<rparr>"
  shows "mp_ring LEN (n + 1) g'"
proof -
  have "((consumer_idx g + n) mod LEN + 1) mod LEN = (consumer_idx g + (n + 1)) mod LEN"
    by (simp add: mod_simps)
  with assms show ?thesis by (auto simp: mp_ring_def)
qed

lemma mp_ring_get:
  assumes "mp_ring LEN (Suc n) g" and "g' = g\<lparr>consumer_idx := (consumer_idx g + 1) mod LEN\<rparr>"
  shows "mp_ring LEN n g'"
proof -
  have "((consumer_idx g + 1) mod LEN + n) mod LEN = (consumer_idx g + Suc n) mod LEN"
    by (simp add: mod_simps)
  with assms show ?thesis by (auto simp: mp_ring_def)
qed

lemma mp_ring_frame [simp]:
  "mp_ring LEN n (g\<lparr>mp_full := m\<rparr>) = mp_ring LEN n g" "mp_ring LEN n (g\<lparr>mp_empty := m\<rparr>) = mp_ring LEN n g"
  "mp_ring LEN n (g\<lparr>mp_lock := m\<rparr>) = mp_ring LEN n g" "mp_ring LEN n (g\<lparr>mp_out := es\<rparr>) = mp_ring LEN n g"
  "mp_ring LEN n (g\<lparr>cont := (cont g)[i := x]\<rparr>) = mp_ring LEN n g"
  by (simp_all add: mp_ring_def)

lemma mp_countsI:
  "mp_full g = live_sema f \<Longrightarrow> mp_empty g = live_sema e \<Longrightarrow> f + total mp_items ts + e + total mp_slots ts = LEN \<Longrightarrow>
   mp_ring LEN (f + total mp_items ts) g \<Longrightarrow> mp_counts LEN ts g"
  by (auto simp: mp_counts_def)

lemma down_live_Some: "sema_down (live_sema n) = Some m \<longleftrightarrow> (\<exists>k. n = Suc k \<and> m = live_sema k)"
  by (auto simp: sem_simps split: nat.splits)

lemma mp_counts_goto:
  assumes c: "mp_counts LEN ts g" and i: "i < length ts" and pc: "ts ! i = Live pc"
    and b: "(if i < np then mp_producer LEN pc g else mp_consumer LEN pc g) = Goto pc' g'"
    and LEN: "0 < LEN" "int LEN \<le> SEM_VALUE_MAX"
  shows "mp_counts LEN (ts[i := Live pc']) g'"
proof -
  from c obtain f e where fe: "mp_full g = live_sema f" "mp_empty g = live_sema e"
      "f + total mp_items ts + e + total mp_slots ts = LEN" and ring: "mp_ring LEN (f + total mp_items ts) g"
    by (auto simp: mp_counts_def)
  have own: "mp_items pc \<le> total mp_items ts" "mp_slots pc \<le> total mp_slots ts"
    using of_thread_le [OF i, of mp_items] of_thread_le [OF i, of mp_slots] pc by auto
  have tot: "total mp_items (ts[i := Live pc']) + mp_items pc = total mp_items ts + mp_items pc'"
    "total mp_slots (ts[i := Live pc']) + mp_slots pc = total mp_slots ts + mp_slots pc'"
    using total_update [OF i, of mp_items "Live pc'"] total_update [OF i, of mp_slots "Live pc'"] pc by auto
  have post: "rk_sema_post (live_sema n) = live_sema (Suc n)" if "n < LEN" for n
    using that LEN by (intro rk_sema_post_live) simp
  note step = mp_wait_Goto mp_set_Goto mp_show_def down_live_Some mp_items_def mp_slots_def
  show ?thesis
  proof (cases pc)
    case P_wait_empty
    with b fe obtain k where "e = Suc k" "pc' = P_wait_lock" "g' = g\<lparr>mp_empty := live_sema k\<rparr>" by (auto simp: step split: if_splits)
    with fe tot P_wait_empty ring show ?thesis
      by (intro mp_countsI [of _ f k]) (auto simp: step)
  next
    case C_wait_full
    with b fe obtain k where k: "f = Suc k" "pc' = C_wait_lock" "g' = g\<lparr>mp_full := live_sema k\<rparr>" by (auto simp: step split: if_splits)
    with tot C_wait_full have "total mp_items (ts[i := Live pc']) = total mp_items ts + 1"
      "total mp_slots (ts[i := Live pc']) = total mp_slots ts" by (auto simp: step)
    with k fe ring show ?thesis by (intro mp_countsI [of _ k e]) (auto)
  next
    case P_next
    with b LEN have g': "pc' = P_sleep" "g' = g\<lparr>producer_idx := (producer_idx g + 1) mod LEN\<rparr>"
      by (auto split: if_splits)
    from tot P_next g' own have t: "total mp_items (ts[i := Live pc']) = total mp_items ts + 1"
      "total mp_slots (ts[i := Live pc']) + 1 = total mp_slots ts" by (auto simp: step)
    with fe have "f + total mp_items ts < LEN" by linarith
    from mp_ring_put [OF ring this g'(2)] t fe g'(2) show ?thesis by (intro mp_countsI [of _ f e]) auto
  next
    case C_next
    with b LEN have g': "pc' = C_show" "g' = g\<lparr>consumer_idx := (consumer_idx g + 1) mod LEN\<rparr>"
      by (auto split: if_splits)
    from tot C_next g' have t: "Suc (total mp_items (ts[i := Live pc'])) = total mp_items ts"
      "total mp_slots (ts[i := Live pc']) = total mp_slots ts + 1" by (auto simp: step)
    with ring have "mp_ring LEN (Suc (f + total mp_items (ts[i := Live pc']))) g"
      by (metis add_Suc_right)
    from mp_ring_get [OF this g'(2)] t fe g'(2) show ?thesis by (intro mp_countsI [of _ f e]) auto
  next
    case P_post_full
    with fe own have "f < LEN" by (auto simp: step)
    with b fe post P_post_full have g': "pc' = P_test" "g' = g\<lparr>mp_full := live_sema (Suc f)\<rparr>" by (auto split: if_splits)
    with tot P_post_full have "Suc (total mp_items (ts[i := Live pc'])) = total mp_items ts"
      "total mp_slots (ts[i := Live pc']) = total mp_slots ts" by (auto simp: step)
    then have eq: "Suc f + total mp_items (ts[i := Live pc']) = f + total mp_items ts"
      "total mp_slots (ts[i := Live pc']) = total mp_slots ts" by auto
    have "mp_ring LEN (f + total mp_items ts) g'" using ring g' by (auto)
    with eq fe g' show ?thesis by (intro mp_countsI [of _ "Suc f" e]) (simp_all only: eq, simp_all)
  next
    case C_post_empty
    with fe own have "e < LEN" by (auto simp: step)
    with b fe post C_post_empty have g': "pc' = C_test" "g' = g\<lparr>mp_empty := live_sema (Suc e)\<rparr>" by (auto split: if_splits)
    with tot C_post_empty fe ring show ?thesis
      by (intro mp_countsI [of _ f "Suc e"]) (auto simp: step)
  qed (use b fe ring tot in \<open>auto simp: step intro!: mp_countsI [of _ f e] split: if_splits\<close>)
qed

lemma mp_pcs_goto:
  assumes p: "mp_pcs np ts g" and i: "i < length ts" and pc: "ts ! i = Live pc"
    and b: "(if i < np then mp_producer LEN pc g else mp_consumer LEN pc g) = Goto pc' g'"
  shows "mp_pcs np (ts[i := Live pc']) g'"
proof -
  have "mp_is_producer pc' \<longleftrightarrow> i < np"
    using b by (cases pc) (auto simp: mp_wait_Goto mp_set_Goto mp_is_producer_def split: if_splits)
  moreover have "mp_running g' = mp_running g"
    using b by (cases pc) (auto simp: mp_wait_Goto mp_set_Goto mp_show_def split: if_splits)
  ultimately show ?thesis using p i by (auto simp: mp_pcs_def nth_list_update)
qed

lemma mp_defined:
  assumes inv: "mp_inv LEN np ts g" and i: "i < length ts" and pc: "ts ! i = Live pc" and LEN: "0 < LEN"
  shows "(if i < np then mp_producer LEN pc g else mp_consumer LEN pc g) \<noteq> Crash"
proof -
  from inv have "producer_idx g < length (cont g)" "consumer_idx g < length (cont g)"
    by (auto simp: mp_inv_def mp_counts_def mp_ring_def)
  moreover from inv i pc have "mp_is_producer pc \<longleftrightarrow> i < np" by (auto simp: mp_inv_def mp_pcs_def)
  ultimately show ?thesis using LEN by (cases pc) (auto simp: mp_act_defs mp_is_producer_def split: option.splits)
qed

lemma mp_quiet_update:
  assumes "mp_counts LEN ts g" and "i < length ts" and "of_thread mp_items (ts ! i) = 0" "of_thread mp_slots (ts ! i) = 0"
    and "of_thread mp_items x = 0" "of_thread mp_slots x = 0"
  shows "mp_counts LEN (ts[i := x]) g"
  using assms total_update [OF assms(2), of mp_items x] total_update [OF assms(2), of mp_slots x]
  by (simp add: mp_counts_def)

lemma mp_construct_sems:
  assumes "int LEN \<le> SEM_VALUE_MAX"
  shows "mp_full (mp_construct LEN mp_globals0) = live_sema 0 \<and> mp_empty (mp_construct LEN mp_globals0) = live_sema LEN \<and>
    mp_lock (mp_construct LEN mp_globals0) = live_sema 1 \<and> mp_err (mp_construct LEN mp_globals0) = []"
proof -
  from assms have "LEN < 2 ^ LENGTH(32)" by (simp add: SEM_VALUE_MAX_def)
  then have "unat (word_of_nat LEN :: u32) = LEN" by (simp add: unat_of_nat)
  moreover from this have "uint (word_of_nat LEN :: u32) = int LEN" by (simp add: uint_nat)
  ultimately show ?thesis
    using assms by (simp add: mp_construct_def mp_globals0_def mp_report_def rk_sema_init_small SEM_VALUE_MAX_def)
qed

lemma mp_construct_rest [simp]:
  "cont (mp_construct LEN g) = replicate LEN EMPTY" "producer_idx (mp_construct LEN g) = 0"
  "consumer_idx (mp_construct LEN g) = 0" "mp_running (mp_construct LEN g) = mp_running g"
  by (auto simp: mp_construct_def mp_report_def Let_def split: prod.splits)

lemma mp_running_destruct [simp]: "mp_running (mp_destruct g) = mp_running g"
  by (auto simp: mp_destruct_def mp_report_def Let_def split: prod.splits)

lemma mp_inv_init:
  assumes "0 < LEN" and "int LEN \<le> SEM_VALUE_MAX"
  shows "mp_inv LEN np (replicate n Unborn) (mp_schema np nc (mp_construct LEN mp_globals0))"
proof -
  let ?g = "mp_schema np nc (mp_construct LEN mp_globals0)"
  have 0: "total h (replicate n Unborn) = 0" for h :: "mp_pc \<Rightarrow> nat" by (simp add: total_def)
  have g: "mp_full ?g = live_sema 0" "mp_empty ?g = live_sema LEN" "mp_lock ?g = live_sema 1" "mp_running ?g"
      "cont ?g = replicate LEN EMPTY" "producer_idx ?g = 0" "consumer_idx ?g = 0"
    using mp_construct_sems [OF assms(2)] by (simp_all add: mp_schema_def) (simp add: mp_globals0_def)
  have "mp_counts LEN (replicate n Unborn) ?g"
    using assms(1) 0 g by (intro mp_countsI [of _ 0 LEN]) (simp_all add: mp_ring_def)
  moreover have "sem_held (mp_lock ?g) None" using g by (simp add: sema_holds_def)
  ultimately show ?thesis by (simp add: mp_inv_def mp_pcs_def mp.cs_init)
qed

lemma mp_thread_program:
  assumes LEN: "0 < LEN" "int LEN \<le> SEM_VALUE_MAX"
  shows "thread_program all_ok (mp_program LEN np nc) mp_globals0 (mp_inv LEN np)"
proof (unfold_locales, goal_cases)
  case (4)
  then show ?case using mp_inv_init [OF LEN] by simp
next
  case (5 ts g i)
  then have ex: "cs_inv sem_held mp_lock mp_inside ts g" and c: "mp_counts LEN ts g" and p: "mp_pcs np ts g"
    by (auto simp: mp_inv_def)
  from 5 have i: "i < length ts" by simp
  have "mp_counts LEN (ts[i := Live (entry (mp_program LEN np nc) i)]) g"
    using 5(4) by (intro mp_quiet_update [OF c i]) (auto simp: mp_items_def mp_slots_def)
  moreover have "mp_pcs np (ts[i := Live (entry (mp_program LEN np nc) i)]) g"
    using p i by (auto simp: mp_pcs_def mp_is_producer_def nth_list_update)
  ultimately show ?case using mp.cs_birth [OF ex i 5(4), of LEN np nc] by (simp add: mp_inv_def)
next
  case (6 ts g i pc pc' g')
  then show ?case
    using mp.cs_goto [of ts g i pc LEN np nc _ pc' g'] mp_counts_goto [of LEN ts g i pc np pc' g'] mp_pcs_goto [of np ts g i pc LEN pc' g'] LEN
    by (simp add: mp_inv_def)
next
  case (7 ts g i pc g')
  then have r: "pc \<in> {P_test, C_test}" "g' = g" "\<not> mp_running g" and i: "i < length ts" and inv: "mp_inv LEN np ts g"
    using mp_return [of "i < np" LEN pc g g'] by auto
  have "mp_counts LEN (ts[i := Done]) g"
    using inv 7(4) r(1) by (intro mp_quiet_update [OF _ i]) (auto simp: mp_inv_def mp_items_def mp_slots_def)
  moreover have "mp_pcs np (ts[i := Done]) g"
    using inv r(3) i unfolding mp_inv_def mp_pcs_def by (auto simp: nth_list_update)
  ultimately show ?case using mp.cs_done [OF _ i 7(4,5)] inv r(2) by (simp add: mp_inv_def)
next
  case (8 ts g i pc)
  then show ?case using mp_defined [of LEN np ts g i pc] LEN by simp
qed (auto simp: all_ok_def)


lemma mp_threads:
  assumes "0 < LEN" and "int LEN \<le> SEM_VALUE_MAX"
  shows "cxx_threads (mp_cxx LEN np nc) mp_globals0 (mp_inv LEN np)"
proof (rule cxx_threads.intro)
  fix ts g g'
  assume "mp_inv LEN np ts g" "on_signal (mp_cxx LEN np nc) g = Some g'"
  moreover from this have "g' = g\<lparr>mp_running := False, mp_out := mp_out g @ [Number ''shutting down producer consumer: '' 2]\<rparr>"
    by (simp add: mp_handler_def)
  ultimately show "mp_inv LEN np ts g'"
    by (simp add: mp_inv_def cs_inv_def mp_counts_def mp_ring_def mp_pcs_def)
qed (use mp_thread_program [OF assms] in simp)

text \<open>The program of \<^verbatim>\<open>cpp/cc_lab05_b.cc\<close>: ten slots, three producers, two consumers.\<close>

interpretation lab05b: cxx_threads e "mp_cxx 10 3 2" mp_globals0 "mp_inv 10 3" for e
  by (rule mp_threads) (simp_all add: SEM_VALUE_MAX_def)

section \<open>Safety\<close>

lemma mp_alive:
  assumes "0 < LEN" and "int LEN \<le> SEM_VALUE_MAX"
    and "reach (cxx_step e (mp_cxx LEN np nc)) (mp_boot LEN np nc) (Alive s)"
  shows "main s \<noteq> Undefined"
    and "running (main s) \<Longrightarrow> main s \<noteq> Init \<Longrightarrow> mp_inv LEN np (threads s) (glob s) \<and> length (threads s) = np + nc"
    and "proc_inv all_ok (mp_program LEN np nc) mp_globals0 (mp_inv LEN np) s"
proof -
  note sp = mp_threads [OF assms(1,2), of np nc]
  have r: "reach (cxx_step e (mp_cxx LEN np nc)) (Alive (boot (prog (mp_cxx LEN np nc)) mp_globals0)) (Alive s)"
    using assms(3) by (simp add: mp_boot_def)
  show "main s \<noteq> Undefined" by (rule cxx_threads.never_undefined [OF sp r])
  show "running (main s) \<Longrightarrow> main s \<noteq> Init \<Longrightarrow> mp_inv LEN np (threads s) (glob s) \<and> length (threads s) = np + nc"
    using cxx_threads.alive_inv [OF sp r] by simp
  show "proc_inv all_ok (mp_program LEN np nc) mp_globals0 (mp_inv LEN np) s"
    using cxx_threads.reach_cxx_inv [OF sp r] by simp
qed

text \<open>
  C1. The C++ warehouse is safe for every length of the buffer that a semaphore can count,
  any number of producers and consumers, every schedule and interrupts at any time: no
  action is undefined, at most one thread is at the buffer, both indices stay inside of it,
  every slot is accounted for by exactly one semaphore or thread, and the number of stored
  items is the distance between the two indices.
\<close>

theorem cpp_warehouse_safe:
  assumes "0 < LEN" and "int LEN \<le> SEM_VALUE_MAX"
    and "reach (cxx_step e (mp_cxx LEN np nc)) (mp_boot LEN np nc) (Alive s)"
  shows "main s \<noteq> Undefined \<and>
    (running (main s) \<and> main s \<noteq> Init \<longrightarrow>
      mp_counts LEN (threads s) (glob s) \<and>
      (\<forall>i < np + nc. \<forall>j < np + nc.
         inside mp_inside (threads s ! i) \<and> inside mp_inside (threads s ! j) \<longrightarrow> i = j))"
  using mp_alive [OF assms] cs_inv_excl [of sem_held mp_lock mp_inside "threads s" "glob s"]
  by (auto simp: mp_inv_def)

section \<open>Deadlock and shutdown\<close>

lemma mp_inside_moves: "mp_inside pc \<Longrightarrow> (if b then mp_producer LEN pc g else mp_consumer LEN pc g) \<noteq> Blocked"
  by (cases pc) (auto simp: mp_act_defs)

lemma mp_blocked:
  assumes "(if b then mp_producer LEN pc g else mp_consumer LEN pc g) = Blocked" and "mp_lock g = live_sema 1"
  shows "pc = P_wait_empty \<and> b \<and> sema_down (mp_empty g) = None \<or> pc = C_wait_full \<and> \<not> b \<and> sema_down (mp_full g) = None"
  using assms by (cases pc) (auto simp: mp_act_defs split: option.splits if_splits)

lemma down_live_None: "sema_down (live_sema n) = None \<longleftrightarrow> n = 0"
  by (auto simp: sem_simps split: nat.splits)

lemma mp_asleep:
  assumes inv: "mp_inv LEN np ts g"
    and stuck: "\<And>i pc. i < length ts \<Longrightarrow> ts ! i = Live pc \<Longrightarrow>
      (if i < np then mp_producer LEN pc g else mp_consumer LEN pc g) = Blocked"
    and i: "i < length ts" and pc: "ts ! i = Live pc"
  shows "i < np \<and> pc = P_wait_empty \<and> mp_empty g = live_sema 0 \<or> np \<le> i \<and> pc = C_wait_full \<and> mp_full g = live_sema 0"
proof -
  have "\<not> inside mp_inside (ts ! j)" if "j < length ts" for j
    using stuck [OF that] mp_inside_moves by (auto simp: inside_iff simp del: mp_inside.simps)
  with inv have "mp_lock g = live_sema 1"
    by (fastforce simp: mp_inv_def cs_inv_def sema_holds_def split: if_splits)
  from mp_blocked [OF stuck [OF i pc] this] inv show ?thesis
    by (auto simp: mp_inv_def mp_counts_def down_live_None not_less)
qed

lemma mp_not_all_asleep:
  assumes inv: "mp_inv LEN np ts g" and "0 < np" "np < length ts" "0 < LEN" "mp_running g"
    and born: "\<And>i. i < length ts \<Longrightarrow> ts ! i \<noteq> Unborn"
    and stuck: "\<And>i pc. i < length ts \<Longrightarrow> ts ! i = Live pc \<Longrightarrow>
      (if i < np then mp_producer LEN pc g else mp_consumer LEN pc g) = Blocked"
  shows False
proof -
  have live: "\<exists>pc. ts ! i = Live pc" if "i < length ts" for i
    using that inv born [OF that] assms(5) by (cases "ts ! i") (auto simp: mp_inv_def mp_pcs_def)
  note asleep = mp_asleep [OF inv stuck]
  have "of_thread mp_items (ts ! i) = 0 \<and> of_thread mp_slots (ts ! i) = 0" if "i < length ts" for i
    using live [OF that] asleep [of i] that by (auto simp: mp_items_def mp_slots_def)
  then have "total mp_items ts = 0" "total mp_slots ts = 0" by (simp_all add: total_def)
  moreover have 0: "0 < length ts" using assms(3) by linarith
  from live [OF 0] live [OF assms(3)] obtain p c where "ts ! 0 = Live p" "ts ! np = Live c" by blast
  then have "mp_empty g = live_sema 0" "mp_full g = live_sema 0"
    using asleep [OF _ _ 0, of p] asleep [OF _ _ assms(3), of c] assms(2) by auto
  ultimately show False using inv assms(4) by (auto simp: mp_inv_def mp_counts_def)
qed

lemma mp_stuck_threads:
  assumes "0 < LEN" and "mp_inv LEN np (threads s) (glob s)" and "running (main s)"
    and "cxx_step e (mp_cxx LEN np nc) (Act (Thr i)) (Alive s) = None" and "i < length (threads s)" "threads s ! i = Live pc"
  shows "(if i < np then mp_producer LEN pc (glob s) else mp_consumer LEN pc (glob s)) = Blocked"
  using assms mp_defined [OF assms(2,5,6,1)] by (auto simp: thread_step_def split: outcome.splits if_splits)

text \<open>
  C2. As long as nobody has pressed Ctrl-C, the C++ warehouse cannot come to a halt. After
  it, the program may halt in two ways: it has left \<open>main\<close> with every thread joined, or
  \<open>main\<close> joins a thread that sleeps on a semaphore of value zero: a producer on \<open>sem_empty\<close>
  or a consumer on \<open>sem_full\<close>.
\<close>

theorem cpp_warehouse_halts:
  assumes "0 < LEN" and "int LEN \<le> SEM_VALUE_MAX" and "0 < np" and "0 < nc"
    and "reach (cxx_step e (mp_cxx LEN np nc)) (mp_boot LEN np nc) (Alive s)"
    and "\<forall>a. cxx_step e (mp_cxx LEN np nc) (Act a) (Alive s) = None"
  shows "\<not> mp_running (glob s) \<and>
    (main s = Exited EXIT_SUCCESS \<and> threads s = replicate (np + nc) Done \<or>
     (\<exists>k < np + nc. main s = Join k \<and>
        (k < np \<and> threads s ! k = Live P_wait_empty \<and> mp_empty (glob s) = live_sema 0 \<or>
         np \<le> k \<and> threads s ! k = Live C_wait_full \<and> mp_full (glob s) = live_sema 0)))"
proof -
  note alive = mp_alive [OF assms(1,2,5)]
  have main: "main_step all_ok (mp_program LEN np nc) s = None"
    using spec [OF assms(6), of Main] by (auto split: option.splits)
  show ?thesis
  proof (cases "main s")
    case (Exited c)
    with alive(3) have "main s = Exited 0 \<and> threads s = replicate (np + nc) Done \<and>
      (\<exists>h. mp_inv LEN np (replicate (np + nc) Done) h \<and> fini (mp_program LEN np nc) h = Inr (glob s))"
      by (auto simp: proc_inv_def all_ok_def)
    with Exited obtain h where "threads s = replicate (np + nc) Done" "c = 0" "mp_inv LEN np (replicate (np + nc) Done) h"
        "glob s = (mp_destruct h)\<lparr>mp_out := mp_out (mp_destruct h) @ [Line ''main done '']\<rparr>"
      by (metis Inr_inject main_pc.inject(3) mp_program_simps(7))
    moreover from this assms(3) have "\<not> mp_running h" by (auto simp: mp_inv_def mp_pcs_def)
    ultimately show ?thesis using Exited by simp
  next
    case (Join k)
    with alive(2) have inv: "mp_inv LEN np (threads s) (glob s)" and len: "length (threads s) = np + nc"
      by (auto simp: running_def)
    from Join alive(3) have born: "\<And>i. i < length (threads s) \<Longrightarrow> threads s ! i \<noteq> Unborn"
      using len by (auto simp: proc_inv_def)
    have stuck: "(if i < np then mp_producer LEN pc (glob s) else mp_consumer LEN pc (glob s)) = Blocked"
      if "i < length (threads s)" "threads s ! i = Live pc" for i pc
      using mp_stuck_threads [OF assms(1) inv _ spec [OF assms(6)] that] Join by (simp add: running_def)
    have "\<not> mp_running (glob s)" 
      by (rule notI, rule mp_not_all_asleep [OF inv assms(3) _ assms(1) _ born stuck]) (use assms(4) len in simp_all)
    moreover from Join main born have "k < np + nc" "\<exists>pc. threads s ! k = Live pc"
      using len by (auto simp: main_step_def wait_thread_def split: if_splits thread.splits)
    ultimately show ?thesis using Join len mp_asleep [OF inv stuck, of k] by auto
  qed (use main alive(1) in \<open>auto simp: main_step_def split: if_splits\<close>)
qed


text \<open>How far a thread is from the head of its loop.\<close>

fun mp_work :: "mp_pc \<Rightarrow> nat" where
  "mp_work P_wait_empty = 8" | "mp_work P_wait_lock = 7" | "mp_work P_store = 6" | "mp_work P_show = 5"
| "mp_work P_next = 4" | "mp_work P_sleep = 3" | "mp_work P_post_lock = 2" | "mp_work P_post_full = 1"
| "mp_work C_wait_full = 9" | "mp_work C_wait_lock = 8" | "mp_work C_mark = 7" | "mp_work C_next = 6"
| "mp_work C_show = 5" | "mp_work C_clear = 4" | "mp_work C_sleep = 3" | "mp_work C_post_lock = 2"
| "mp_work C_post_empty = 1" | "mp_work _ = 0"

lemma mp_work_goto:
  assumes "(if b then mp_producer LEN pc g else mp_consumer LEN pc g) = Goto pc' g'" and "\<not> mp_running g"
  shows "mp_work pc' < mp_work pc \<and> \<not> mp_running g'"
  using assms by (cases pc) (auto simp: mp_wait_Goto mp_set_Goto mp_show_def split: if_splits)

definition mp_left :: "nat \<Rightarrow> nat \<Rightarrow> nat \<Rightarrow> (mp_pc, mp_globals) proc \<Rightarrow> nat" where
  "mp_left LEN np nc s = main_work (np + nc) (main s) + threads_work (mp_program LEN np nc) mp_work (threads s)"

lemma mp_left_thread:
  assumes "thread_step (mp_program LEN np nc) i s = Some t" and "\<not> mp_running (glob s)" and "main t \<noteq> Undefined"
  shows "mp_left LEN np nc t < mp_left LEN np nc s \<and> \<not> mp_running (glob t)"
proof -
  from assms(1) obtain pc where i: "i < length (threads s)" "threads s ! i = Live pc"
    by (auto simp: thread_step_def split: if_splits thread.splits)
  let ?b = "if i < np then mp_producer LEN pc (glob s) else mp_consumer LEN pc (glob s)"
  have less: "threads_work (mp_program LEN np nc) mp_work ((threads s)[i := x]) < threads_work (mp_program LEN np nc) mp_work (threads s)"
    if "thread_work mp_work (entry (mp_program LEN np nc) i) x < mp_work pc + 1" for x
    using that i by (intro threads_work_update) simp_all
  show ?thesis
  proof (cases ?b)
    case (Goto pc' g')
    with assms(1) i have "t = s\<lparr>threads := (threads s)[i := Live pc'], glob := g'\<rparr>"
      by (simp add: thread_step_def split: if_splits)
    with mp_work_goto [OF Goto assms(2)] less [of "Live pc'"] show ?thesis by (simp add: mp_left_def)
  next
    case (Return g')
    with assms(1) i have "t = s\<lparr>threads := (threads s)[i := Done], glob := g'\<rparr>"
      by (simp add: thread_step_def split: if_splits)
    with mp_return [OF Return] assms(2) less [of Done] show ?thesis by (simp add: mp_left_def)
  qed (use assms i in \<open>auto simp: thread_step_def split: if_splits\<close>)
qed

lemma mp_left_main:
  assumes "main_step all_ok (mp_program LEN np nc) s = Some t" and "\<not> mp_running (glob s)" and "main t \<noteq> Undefined"
    and inv: "proc_inv all_ok (mp_program LEN np nc) mp_globals0 (mp_inv LEN np) s"
  shows "mp_left LEN np nc t < mp_left LEN np nc s \<and> \<not> mp_running (glob t)"
proof (cases "main s")
  case Init
  with inv assms(2) show ?thesis by (simp add: proc_inv_def mp_globals0_def)
next
  case (Create k)
  show ?thesis
  proof (cases "k < np + nc")
    case True
    with inv Create have "k < length (threads s)" "threads s ! k = Unborn"
      by (auto simp: proc_inv_def args_ok_def)
    note birth = threads_work_birth [OF this, of "mp_program LEN np nc" mp_work]
    have "t = create_thread all_ok (mp_program LEN np nc) k s" using True Create assms(1) by (simp add: main_step_def)
    with True Create birth assms(2) show ?thesis
      by (auto simp: create_thread_def all_ok_def Let_def mp_left_def)
  next
    case False
    with Create assms(1,2) inv show ?thesis by (auto simp: main_step_def mp_left_def proc_inv_def)
  qed
next
  case (Join k)
  with inv have "k \<le> np + nc" by (simp add: proc_inv_def)
  with Join assms(1-3) show ?thesis
    by (auto simp: main_step_def wait_thread_def mp_left_def all_ok_def split: if_splits thread.splits)
qed (use assms in \<open>auto simp: main_step_def mp_left_def\<close>)

lemma mp_left_le:
  assumes "length (threads s) = np + nc"
  shows "mp_left LEN np nc s \<le> 12 * (np + nc) + 4"
proof -
  have 9: "mp_work pc \<le> 9" for pc by (cases pc) auto
  have "thread_work mp_work p t \<le> 10" if "mp_work p \<le> 9" for p t using that 9 by (cases t) auto
  with 9 have "thread_work mp_work (entry (mp_program LEN np nc) i) (threads s ! i) \<le> 10" for i by blast
  then have "threads_work (mp_program LEN np nc) mp_work (threads s) \<le> (\<Sum>i < length (threads s). 10)"
    unfolding threads_work_def by (rule sum_mono)
  moreover have "main_work (np + nc) (main s) \<le> 2 * (np + nc) + 4" by (cases "main s") auto
  ultimately show ?thesis using assms by (simp add: mp_left_def)
qed

lemma mp_shutdown_run:
  assumes LEN: "0 < LEN" "int LEN \<le> SEM_VALUE_MAX"
  shows "reach (cxx_step e (mp_cxx LEN np nc)) (mp_boot LEN np nc) (Alive s) \<Longrightarrow> \<not> mp_running (glob s) \<Longrightarrow>
    run (cxx_step e (mp_cxx LEN np nc)) (map Act sch) (Alive s) = Some t \<Longrightarrow> length sch \<le> mp_left LEN np nc s + 1"
proof (induction sch arbitrary: s)
  case (Cons a sch)
  let ?step = "cxx_step e (mp_cxx LEN np nc)"
  from Cons.prems(3) obtain u where u: "?step (Act a) (Alive s) = Some u" "run ?step (map Act sch) u = Some t"
    by (auto split: option.splits)
  show ?case
  proof (cases u)
    case (Alive q)
    with u Cons.prems(1) have r: "reach ?step (mp_boot LEN np nc) (Alive q)" by (auto intro: reach.step)
    note q = mp_alive(1) [OF LEN r]
    have "mp_left LEN np nc q < mp_left LEN np nc s \<and> \<not> mp_running (glob q)"
    proof (cases a)
      case Main
      with u(1) Alive have "main_step all_ok (mp_program LEN np nc) s = Some q"
        by (auto simp: construct_thread_def creating_Some main_step_def thread_fails_def Let_def
            split: option.splits if_splits)
      with mp_left_main Cons.prems(2) q mp_alive(3) [OF LEN Cons.prems(1)] show ?thesis by blast
    next
      case (Thr i)
      with u(1) Alive have "thread_step (mp_program LEN np nc) i s = Some q" by auto
      with mp_left_thread Cons.prems(2) q show ?thesis by blast
    qed
    with Cons.IH [OF r] u Alive show ?thesis by simp
  qed (use u in \<open>cases sch; auto\<close>)+
qed simp


text \<open>
  C3. After Ctrl-C the threads of the C++ warehouse finish the round they are in and no
  more: not more than \<open>12 * n + 5\<close> further steps are possible for \<open>n\<close> threads, whatever the
  schedule.
\<close>

theorem cpp_warehouse_stops:
  assumes "0 < LEN" and "int LEN \<le> SEM_VALUE_MAX"
    and "reach (cxx_step e (mp_cxx LEN np nc)) (mp_boot LEN np nc) (Alive s)" and "\<not> mp_running (glob s)"
    and "run (cxx_step e (mp_cxx LEN np nc)) (map Act sch) (Alive s) = Some t"
  shows "length sch \<le> 12 * (np + nc) + 5"
proof -
  have "length (threads s) = np + nc"
    using mp_alive(3) [OF assms(1-3)] by (simp add: proc_inv_def args_ok_def)
  from mp_left_le [OF this, of LEN] mp_shutdown_run [OF assms(1-5)] show ?thesis by linarith
qed

section \<open>Ctrl-C may leave the program hanging\<close>

abbreviation mp_lab :: "(mp_pc, mp_globals) cxx_program" where
  "mp_lab \<equiv> mp_cxx 10 3 2"

text \<open>Both consumers wait for an item, then Ctrl-C; the producers see the flag and return.\<close>

definition mp_hang :: "cxx_actor list" where
  "mp_hang =
     replicate 6 (Act Main) @ [Act (Thr 3), Act (Thr 4), Signal, Act (Thr 0), Act (Thr 1), Act (Thr 2)] @
     replicate 4 (Act Main)"

definition mp_hung :: "(mp_pc, mp_globals) proc \<Rightarrow> bool" where
  "mp_hung s \<longleftrightarrow>
     main s = Join 3 \<and> threads s = [Done, Done, Done, Live C_wait_full, Live C_wait_full] \<and>
     mp_full (glob s) = live_sema 0 \<and> \<not> mp_running (glob s)"

lemma mp_hang_run:
  "case run (cxx_step all_start mp_lab) mp_hang (mp_boot 10 3 2) of Some (Alive s) \<Rightarrow> mp_hung s | _ \<Rightarrow> False"
  by code_simp

lemma mp_hung_stuck: "mp_hung s \<Longrightarrow> cxx_step all_start mp_lab (Act a) (Alive s) = None"
proof (cases a)
  case (Thr i)
  assume "mp_hung s"
  moreover have "i < 5 \<Longrightarrow> i = 0 \<or> i = 1 \<or> i = 2 \<or> i = 3 \<or> i = 4" by linarith
  ultimately show ?thesis using Thr
    by (auto simp: mp_hung_def thread_step_def running_def mp_wait_def split: if_splits)
qed (auto simp: mp_hung_def creating_def main_step_def wait_thread_def)

lemma mp_hung_signal:
  "mp_hung s \<Longrightarrow> \<exists>t. cxx_step all_start mp_lab Signal (Alive s) = Some (Alive t) \<and> mp_hung t"
  by (auto simp: mp_hung_def mp_handler_def running_def)

lemma mp_hung_for_ever: "mp_hung s \<Longrightarrow> run (cxx_step all_start mp_lab) (replicate n Signal @ [Act a]) (Alive s) = None"
proof (induction n arbitrary: s)
  case 0
  with mp_hung_stuck show ?case by simp
next
  case (Suc n)
  with mp_hung_signal [of s] show ?case by auto
qed

text \<open>
  C4. Ctrl-C need not end the C++ warehouse: if the consumers sleep for want of items when it
  is pressed and the producers then leave, \<open>main\<close> joins the first consumer for ever, whatever
  is pressed from then on.
\<close>

theorem cpp_warehouse_shutdown_hangs:
  "\<exists>s. run (cxx_step all_start mp_lab) mp_hang (mp_boot 10 3 2) = Some (Alive s) \<and>
     \<not> mp_running (glob s) \<and> main s = Join 3 \<and>
     (\<forall>n a. run (cxx_step all_start mp_lab) (replicate n Signal @ [Act a]) (Alive s) = None)"
proof -
  from mp_hang_run obtain s where "run (cxx_step all_start mp_lab) mp_hang (mp_boot 10 3 2) = Some (Alive s)" "mp_hung s"
    by (auto split: option.splits cxx.splits)
  then show ?thesis using mp_hung_for_ever by (auto simp: mp_hung_def)
qed

section \<open>What is drawn\<close>

text \<open>Two rounds of a producer, then one of a consumer.\<close>

definition mp_draw :: "cxx_actor list" where
  "mp_draw = replicate 6 (Act Main) @ replicate 18 (Act (Thr 0)) @ replicate 10 (Act (Thr 3))"

text \<open>
  The consumer of the C++ warehouse clears the wrong slot: it advances \<open>consumer_idx\<close> before
  it empties the slot at \<open>consumer_idx\<close>, so the slot of the next item is drawn empty. After two
  items have been stored and one taken, one item is left and no slot shows it; the slot of the
  item that was taken keeps its mark.
\<close>

theorem cpp_warehouse_draws_wrong:
  "case run (cxx_step all_start mp_lab) mp_draw (mp_boot 10 3 2) of
     Some (Alive s) \<Rightarrow>
       mp_full (glob s) = live_sema 1 \<and> consumer_idx (glob s) = 1 \<and> producer_idx (glob s) = 2 \<and>
       cont (glob s) = RECENTLY # replicate 9 EMPTY \<and>
       filter (\<lambda>l. case l of Line (c # _) \<Rightarrow> c = CHR ''['' | _ \<Rightarrow> False) (mp_out (glob s)) =
         [Line ''[+000000000]'', Line ''[++00000000]'', Line ''[*+00000000]'']
   | _ \<Rightarrow> False"
  by code_simp

section \<open>Witnesses\<close>

definition mp_state :: "(mp_pc, mp_globals) proc" where
  "mp_state =
     (case run (cxx_step all_start mp_lab) mp_hang (mp_boot 10 3 2) of
        Some (Alive s) \<Rightarrow> s | _ \<Rightarrow> boot (mp_program 10 3 2) mp_globals0)"

lemma mp_state_run: "run (cxx_step all_start mp_lab) mp_hang (mp_boot 10 3 2) = Some (Alive mp_state)"
  and mp_state_hung: "mp_hung mp_state"
  using mp_hang_run by (auto simp: mp_state_def split: option.splits cxx.splits)

lemma mp_state_reach: "reach (cxx_step all_start mp_lab) (mp_boot 10 3 2) (Alive mp_state)"
  using mp_state_run reach_iff_run by fast

theorem cpp_warehouse_safe_witness: "mp_counts 10 (threads mp_state) (glob mp_state)"
  using cpp_warehouse_safe [OF _ _ mp_state_reach] mp_state_hung
  by (simp add: mp_hung_def running_def SEM_VALUE_MAX_def)

theorem cpp_warehouse_halts_witness: "threads mp_state ! 3 = Live C_wait_full \<and> mp_full (glob mp_state) = live_sema 0"
  using cpp_warehouse_halts [OF _ _ _ _ mp_state_reach] mp_hung_stuck [OF mp_state_hung] mp_state_hung
  by (simp add: mp_hung_def SEM_VALUE_MAX_def)

text \<open>The moment of Ctrl-C in that run: seven more steps follow.\<close>

definition mp_pressed :: "(mp_pc, mp_globals) proc" where
  "mp_pressed =
     (case run (cxx_step all_start mp_lab) (take 9 mp_hang) (mp_boot 10 3 2) of
        Some (Alive s) \<Rightarrow> s | _ \<Rightarrow> boot (mp_program 10 3 2) mp_globals0)"

definition mp_rest :: "actor list" where
  "mp_rest = [Thr 0, Thr 1, Thr 2, Main, Main, Main, Main]"

lemma mp_pressed_run:
  "run (cxx_step all_start mp_lab) (take 9 mp_hang) (mp_boot 10 3 2) = Some (Alive mp_pressed)"
  "\<not> mp_running (glob mp_pressed)"
  by code_simp+

lemma mp_rest_run: "run (cxx_step all_start mp_lab) (map Act mp_rest) (Alive mp_pressed) = Some (Alive mp_state)"
  by code_simp

theorem cpp_warehouse_stops_witness:
  "run (cxx_step all_start mp_lab) (map Act mp_rest) (Alive mp_pressed) = Some (Alive mp_state) \<and> length mp_rest \<le> 65"
proof -
  have "reach (cxx_step all_start mp_lab) (mp_boot 10 3 2) (Alive mp_pressed)"
    using mp_pressed_run(1) reach_iff_run by fast
  from cpp_warehouse_stops [OF _ _ this mp_pressed_run(2) mp_rest_run] mp_rest_run show ?thesis
    by (simp add: SEM_VALUE_MAX_def)
qed

end
