(* ===== verification/Mutex_Counter.thy ===== *)
theory Mutex_Counter
  imports Pthread
begin

text \<open>
  \<^verbatim>\<open>c/c_lab03_a.c\<close>: ten threads, alternately running \<open>func1\<close> and \<open>func2\<close>, add to one
  shared counter and print it, fifty times each, under a mutex. \<open>counter++\<close> is split
  into its load and its store, so that the mutex has something to protect.
\<close>

section \<open>The program\<close>

datatype fn_line = Function i32 i32 i32

record fn_globals =
  fn_mut :: pthread_mutex_t
  fn_counter :: i32
  fn_out :: "fn_line list"

definition N_MAX :: i32 where
  "N_MAX = 50"

definition fn_NO_TH :: nat where
  "fn_NO_TH = 10"

datatype fn_pc =
    F_start | F_lock i32 | F_test i32 i32 | F_load i32 i32 | F_store i32 i32 i32 | F_print i32 i32 i32
  | F_unlock i32 | F_end

text \<open>
  The two thread functions differ in the number they print. \<open>F_test n i\<close> is the loop
  head with the thread's locals; the increment of \<open>i\<close> is done on the way back to it. \<open>inc\<close> is
  what the type of the variables makes of a sum: checked for \<open>int\<close> here, modulo \<open>2 ^ 64\<close> for
  the \<open>size_t\<close> of the C++ version (theory \<open>Cpp_Counter\<close>).
\<close>

fun func :: "(int \<Rightarrow> int option) \<Rightarrow> i32 \<Rightarrow> nat \<Rightarrow> i32 option \<Rightarrow> fn_pc \<Rightarrow> fn_globals \<Rightarrow> (fn_pc, fn_globals) outcome" where
  "func inc f me a F_start g = (case a of None \<Rightarrow> Crash | Some n \<Rightarrow> Goto (F_lock n) g)"
| "func inc f me a (F_lock n) g =
     (case pthread_mutex_lock me (fn_mut g) of None \<Rightarrow> Blocked | Some m \<Rightarrow> Goto (F_test n 0) (g\<lparr>fn_mut := m\<rparr>))"
| "func inc f me a (F_test n i) g = Goto (if i < N_MAX then F_load n i else F_unlock n) g"
| "func inc f me a (F_load n i) g = Goto (F_store n i (fn_counter g)) g"
| "func inc f me a (F_store n i v) g =
     (case inc (v + 1) of None \<Rightarrow> Crash | Some c \<Rightarrow> Goto (F_print n i v) (g\<lparr>fn_counter := c\<rparr>))"
| "func inc f me a (F_print n i v) g =
     (case inc (n + 1) of
        None \<Rightarrow> Crash
      | Some m \<Rightarrow>
          (case inc (i + 1) of
             None \<Rightarrow> Crash
           | Some j \<Rightarrow> Goto (F_test n j) (g\<lparr>fn_out := fn_out g @ [Function f v m]\<rparr>)))"
| "func inc f me a (F_unlock n) g =
     (case pthread_mutex_unlock me (fn_mut g) of None \<Rightarrow> Crash | Some m \<Rightarrow> Goto F_end (g\<lparr>fn_mut := m\<rparr>))"
| "func inc f me a F_end g = Return g"

definition func1 :: "nat \<Rightarrow> i32 option \<Rightarrow> fn_pc \<Rightarrow> fn_globals \<Rightarrow> (fn_pc, fn_globals) outcome" where
  "func1 = func i32_check 1"

definition func2 :: "nat \<Rightarrow> i32 option \<Rightarrow> fn_pc \<Rightarrow> fn_globals \<Rightarrow> (fn_pc, fn_globals) outcome" where
  "func2 = func i32_check 2"

text \<open>The creation loop starts two threads per round: even indices run \<open>func1\<close>, odd ones \<open>func2\<close>.\<close>

definition fn_program :: "(fn_pc, fn_globals) program" where
  "fn_program =
     \<lparr>no_th = fn_NO_TH,
      entry = (\<lambda>i. F_start),
      slot = (\<lambda>i. i),
      body = (\<lambda>i. if even i then func1 i else func2 i),
      bad_rc = (\<lambda>r. r \<noteq> 0),
      init = Inr,
      fini = Inr,
      create_msg = (\<lambda>i. if even i then ''Error creating thread for func1''
                        else ''Error creating thread for func2''),
      join_msg = ''Unable to join threads'',
      before = (\<lambda>i g. g)\<rparr>"

definition fn_globals0 :: fn_globals where
  "fn_globals0 = \<lparr>fn_mut = PTHREAD_MUTEX_INITIALIZER, fn_counter = 1, fn_out = []\<rparr>"

section \<open>What is printed\<close>

text \<open>
  \<open>fn_lines n c k\<close>: thread \<open>n\<close> prints \<open>k\<close> numbers from \<open>c\<close> on. \<open>fn_blocks c ns\<close>: the
  threads \<open>ns\<close> print fifty numbers each, one thread after the other.
\<close>

definition fn_no :: "i32 \<Rightarrow> i32" where
  "fn_no n = (if even n then 1 else 2)"

definition fn_lines :: "i32 \<Rightarrow> i32 \<Rightarrow> i32 \<Rightarrow> fn_line list" where
  "fn_lines n c k = map (\<lambda>v. Function (fn_no n) v (n + 1)) [c..c + k - 1]"

fun fn_blocks :: "i32 \<Rightarrow> i32 list \<Rightarrow> fn_line list" where
  "fn_blocks c [] = []"
| "fn_blocks c (n # ns) = fn_lines n c 50 @ fn_blocks (c + 50) ns"

fun fn_by :: "i32 \<Rightarrow> fn_line \<Rightarrow> bool" where
  "fn_by n (Function f v m) \<longleftrightarrow> m = n + 1"

lemma fn_lines_0 [simp]: "fn_lines n c 0 = []"
  by (simp add: fn_lines_def)

lemma fn_lines_snoc: "0 \<le> k \<Longrightarrow> fn_lines n c k @ [Function (fn_no n) (c + k) (n + 1)] = fn_lines n c (k + 1)"
  using upto_rec2 [of c "c + k"] by (simp add: fn_lines_def)

lemma fn_blocks_snoc: "fn_blocks c (ns @ [n]) = fn_blocks c ns @ fn_lines n (c + 50 * int (length ns)) 50"
  by (induction ns arbitrary: c) (simp_all add: algebra_simps)

lemma filter_fn_lines: "filter (fn_by m) (fn_lines n c k) = (if m = n then fn_lines n c k else [])"
  by (auto simp: fn_lines_def filter_map o_def)

lemma length_fn_lines: "length (fn_lines n c k) = nat k"
  by (simp add: fn_lines_def)

text \<open>A thread that has not printed is not among the blocks; one that has is.\<close>

lemma count_fn_blocks: "length (filter (fn_by m) (fn_blocks c ns)) = 50 * count_list ns m"
  by (induction ns arbitrary: c) (auto simp: filter_fn_lines length_fn_lines)

section \<open>The invariant\<close>

fun fn_inside :: "fn_pc \<Rightarrow> bool" where
  "fn_inside F_start = False" | "fn_inside (F_lock n) = False" | "fn_inside F_end = False" | "fn_inside _ = True"

fun fn_printed :: "fn_pc \<Rightarrow> int" where
  "fn_printed F_start = 0" | "fn_printed (F_lock n) = 0" | "fn_printed (F_test n i) = i"
| "fn_printed (F_load n i) = i" | "fn_printed (F_store n i v) = i" | "fn_printed (F_print n i v) = i"
| "fn_printed (F_unlock n) = 50" | "fn_printed F_end = 50"

fun fn_pc_ok :: "i32 \<Rightarrow> fn_pc \<Rightarrow> bool" where
  "fn_pc_ok k F_start \<longleftrightarrow> True"
| "fn_pc_ok k (F_lock n) \<longleftrightarrow> n = k"
| "fn_pc_ok k (F_test n i) \<longleftrightarrow> n = k \<and> 0 \<le> i \<and> i \<le> 50"
| "fn_pc_ok k (F_load n i) \<longleftrightarrow> n = k \<and> 0 \<le> i \<and> i < 50"
| "fn_pc_ok k (F_store n i v) \<longleftrightarrow> n = k \<and> 0 \<le> i \<and> i < 50"
| "fn_pc_ok k (F_print n i v) \<longleftrightarrow> n = k \<and> 0 \<le> i \<and> i < 50"
| "fn_pc_ok k (F_unlock n) \<longleftrightarrow> n = k"
| "fn_pc_ok k F_end \<longleftrightarrow> True"

definition fn_count :: "i32 \<Rightarrow> fn_line list \<Rightarrow> int" where
  "fn_count n xs = int (length (filter (fn_by n) xs))"

fun fn_thread_ok :: "i32 \<Rightarrow> fn_pc thread \<Rightarrow> fn_line list \<Rightarrow> bool" where
  "fn_thread_ok n Unborn xs \<longleftrightarrow> fn_count n xs = 0"
| "fn_thread_ok n (Live pc) xs \<longleftrightarrow> fn_pc_ok n pc \<and> fn_count n xs = fn_printed pc"
| "fn_thread_ok n Done xs \<longleftrightarrow> fn_count n xs = 50"

definition fn_side :: "fn_pc thread list \<Rightarrow> fn_globals \<Rightarrow> bool" where
  "fn_side ts g \<longleftrightarrow> length ts = 10 \<and> (\<forall>i < 10. fn_thread_ok (int i) (ts ! i) (fn_out g))"

definition fn_done :: "i32 list \<Rightarrow> bool" where
  "fn_done ns \<longleftrightarrow> distinct ns \<and> set ns \<subseteq> {0..9}"

definition fn_R :: "fn_globals \<Rightarrow> bool" where
  "fn_R g \<longleftrightarrow> (\<exists>ns. fn_done ns \<and> fn_out g = fn_blocks 1 ns \<and> fn_counter g = 50 * int (length ns) + 1)"

definition fn_mid :: "i32 \<Rightarrow> i32 \<Rightarrow> i32 \<Rightarrow> fn_globals \<Rightarrow> bool" where
  "fn_mid n i v g \<longleftrightarrow>
     (\<exists>ns. fn_done (ns @ [n]) \<and> v = 50 * int (length ns) + 1 + i \<and>
           fn_out g = fn_blocks 1 ns @ fn_lines n (50 * int (length ns) + 1) i)"

fun fn_L :: "fn_pc \<Rightarrow> fn_globals \<Rightarrow> bool" where
  "fn_L (F_test n i) g \<longleftrightarrow> fn_mid n i (fn_counter g) g"
| "fn_L (F_load n i) g \<longleftrightarrow> fn_mid n i (fn_counter g) g"
| "fn_L (F_store n i v) g \<longleftrightarrow> fn_mid n i (fn_counter g) g \<and> v = fn_counter g"
| "fn_L (F_print n i v) g \<longleftrightarrow> fn_mid n i v g \<and> fn_counter g = v + 1"
| "fn_L _ g \<longleftrightarrow> fn_R g"

fun fn_work :: "fn_pc \<Rightarrow> nat" where
  "fn_work F_start = 205" | "fn_work (F_lock n) = 204"
| "fn_work (F_test n i) = 4 * nat (50 - i) + 3" | "fn_work (F_load n i) = 4 * nat (50 - i) + 2"
| "fn_work (F_store n i v) = 4 * nat (50 - i) + 1" | "fn_work (F_print n i v) = 4 * nat (50 - i)"
| "fn_work (F_unlock n) = 1" | "fn_work F_end = 0"

lemma fn_done_length: "fn_done ns \<Longrightarrow> length ns \<le> 10"
proof -
  assume "fn_done ns"
  then have "card (set ns) = length ns" and "set ns \<subseteq> {0..9}" by (simp_all add: fn_done_def distinct_card)
  with card_mono [of "{0..9}" "set ns"] show ?thesis by simp
qed

lemma fn_mid_bounds: "fn_mid n i v g \<Longrightarrow> 0 \<le> i \<Longrightarrow> i \<le> 50 \<Longrightarrow> 1 \<le> v \<and> v \<le> 501 \<and> 0 \<le> n \<and> n \<le> 9"
proof -
  assume a: "fn_mid n i v g" "0 \<le> i" "i \<le> 50"
  then obtain ns where "fn_done (ns @ [n])" "v = 50 * int (length ns) + 1 + i" by (auto simp: fn_mid_def)
  with fn_done_length [of "ns @ [n]"] a show ?thesis by (auto simp: fn_done_def)
qed

lemma fn_mid_start:
  assumes "fn_R g" and "fn_count n (fn_out g) = 0" and "0 \<le> n" and "n \<le> 9"
  shows "fn_mid n 0 (fn_counter g) g"
proof -
  from assms(1) obtain ns where ns: "fn_done ns" "fn_out g = fn_blocks 1 ns" "fn_counter g = 50 * int (length ns) + 1"
    by (auto simp: fn_R_def)
  with assms(2) have "n \<notin> set ns" by (simp add: fn_count_def count_fn_blocks flip: count_list_0_iff)
  with ns assms(3,4) show ?thesis
    by (auto simp: fn_mid_def fn_done_def intro!: exI [where x = ns])
qed

lemma fn_mid_print:
  assumes "fn_mid n i v g" and "0 \<le> i" and "fn_out g' = fn_out g @ [Function (fn_no n) v (n + 1)]"
  shows "fn_mid n (i + 1) (v + 1) g'"
proof -
  from assms(1) obtain ns where ns: "fn_done (ns @ [n])" "v = 50 * int (length ns) + 1 + i"
      "fn_out g = fn_blocks 1 ns @ fn_lines n (50 * int (length ns) + 1) i"
    by (auto simp: fn_mid_def)
  with assms(2,3) fn_lines_snoc [of i n "50 * int (length ns) + 1"] show ?thesis
    by (auto simp: fn_mid_def intro!: exI [where x = ns])
qed

lemma fn_mid_end: "fn_mid n 50 (fn_counter g) g \<Longrightarrow> fn_R g"
  unfolding fn_mid_def fn_R_def
  by (elim exE, rule_tac x = "ns @ [n]" in exI) (simp add: fn_blocks_snoc add.commute)

text \<open>One action of a thread, seen from its own lines and from those of the others.\<close>

lemma fn_count_simps [simp]:
  "fn_count n [] = 0" "fn_count n (xs @ [Function f v m]) = fn_count n xs + (if m = n + 1 then 1 else 0)"
  by (simp_all add: fn_count_def)

text \<open>
  The proof is carried out for any arithmetic that is exact up to a thousand, and for any
  program that starts ten threads on \<open>func\<close>, alternately with the numbers 1 and 2.
\<close>

locale counter_program =
  fixes inc :: "int \<Rightarrow> int option"
    and P :: "(fn_pc, fn_globals) program"
  assumes inc_small: "0 \<le> x \<Longrightarrow> x \<le> 1000 \<Longrightarrow> inc x = Some x"
    and fn_P [simp]: "no_th P = 10" "slot P i = i" "bad_rc P r \<longleftrightarrow> r \<noteq> 0" "init P = Inr" "fini P = Inr"
      "entry P i = F_start" "before P = (\<lambda>i g. g)" "body P i = func inc (fn_no (int i)) i"
begin

lemma func_goto_ok:
  assumes "func inc f i (Some (int i)) pc g = Goto pc' g'" and "i < 10" and "fn_pc_ok (int i) pc"
  shows "fn_pc_ok (int i) pc' \<and>
    fn_count (int i) (fn_out g') = fn_count (int i) (fn_out g) + (fn_printed pc' - fn_printed pc) \<and>
    (\<forall>n. n \<noteq> int i \<longrightarrow> fn_count n (fn_out g') = fn_count n (fn_out g))"
  using assms by (cases pc) (auto simp: N_MAX_def inc_small split: option.splits if_splits)

lemma fn_side_goto:
  assumes s: "fn_side ts g" and i: "i < 10" and pc: "ts ! i = Live pc"
    and b: "func inc f i (Some (int i)) pc g = Goto pc' g'"
  shows "fn_side (ts[i := Live pc']) g'"
proof -
  from s i pc have ok: "fn_thread_ok (int i) (Live pc) (fn_out g)" unfolding fn_side_def by metis
  then have "fn_pc_ok (int i) pc" by simp
  note fn = func_goto_ok [OF b i this]
  have "fn_thread_ok (int i) (Live pc') (fn_out g')" using fn ok by simp
  moreover have "fn_thread_ok n t (fn_out g') = fn_thread_ok n t (fn_out g)" if "n \<noteq> int i" for n t
    using fn that by (cases t) auto
  ultimately show ?thesis using s i by (auto simp: fn_side_def nth_list_update)
qed

lemma fn_side_at:
  assumes "fn_side ts g" and "i < length ts" and "ts ! i = Live pc"
  shows "i < 10" and "fn_pc_ok (int i) pc" and "fn_count (int i) (fn_out g) = fn_printed pc"
  using assms unfolding fn_side_def by (metis fn_thread_ok.simps(2))+

lemma func_return: "func inc f i a pc g = Return g' \<Longrightarrow> pc = F_end \<and> g' = g"
  by (cases pc) (auto split: option.splits)

lemma func_works:
  assumes "fn_pc_ok k pc" and "func inc f i a pc g = Goto pc' g'"
  shows "fn_work pc' < fn_work pc"
  using assms by (cases pc) (auto simp: N_MAX_def nat_diff_distrib inc_small split: option.splits if_splits)

lemma func_defined:
  assumes "i < 10" and "fn_pc_ok (int i) pc"
    and "fn_inside pc \<Longrightarrow> fn_L pc g \<and> pthread_mutex_unlock i (fn_mut g) \<noteq> None"
  shows "func inc f i (Some (int i)) pc g \<noteq> Crash"
proof (cases pc)
  case (F_store n k v)
  with assms fn_mid_bounds [of n k v g] show ?thesis by (auto simp: inc_small split: option.splits)
qed (use assms in \<open>auto simp: inc_small split: option.splits\<close>)

lemma fn_done_side:
  assumes "fn_side ts g" and "i < 10" and "ts ! i = Live F_end"
  shows "fn_side (ts[i := Done]) g"
  using assms unfolding fn_side_def by (auto simp: nth_list_update)

lemma fn_birth_side:
  assumes "fn_side ts g" and "i < 10" and "ts ! i = Unborn"
  shows "fn_side (ts[i := Live F_start]) g"
  using assms unfolding fn_side_def by (auto simp: nth_list_update)

lemma fn_enter:
  assumes s: "fn_side ts g" and i: "i < length ts" and pc: "ts ! i = Live pc"
    and b: "func inc f i (Some (int i)) pc g = Goto pc' g'" and "\<not> fn_inside pc" "fn_inside pc'" and R: "fn_R g"
  shows "fn_L pc' g'"
proof -
  note at = fn_side_at [OF s i pc]
  from b assms(5,6) at obtain m where pc: "pc = F_lock (int i)" "pc' = F_test (int i) 0" "g' = g\<lparr>fn_mut := m\<rparr>"
    by (cases pc) (auto split: option.splits)
  with at fn_mid_start [OF R, of "int i"] show ?thesis by (simp add: fn_mid_def)
qed

lemma fn_work_inside:
  assumes s: "fn_side ts g" and i: "i < length ts" and pc: "ts ! i = Live pc"
    and b: "func inc (fn_no (int i)) i (Some (int i)) pc g = Goto pc' g'" and "fn_inside pc" and L: "fn_L pc g"
  shows "if fn_inside pc' then fn_L pc' g' else fn_R g'"
proof (cases pc)
  case (F_test n k)
  with fn_side_at [OF s i pc] have "k \<le> 50" by simp
  show ?thesis
  proof (cases "k < 50")
    case True
    with F_test b L show ?thesis by (auto simp: N_MAX_def)
  next
    case False
    with \<open>k \<le> 50\<close> F_test b L fn_mid_end [of n g] show ?thesis by (auto simp: N_MAX_def)
  qed
next
  case (F_store n k v)
  with fn_side_at [OF s i pc] L fn_mid_bounds [of n k v g] have "inc (v + 1) = Some (v + 1)" by (intro inc_small) auto
  with F_store b L show ?thesis by (auto simp: fn_mid_def)
next
  case (F_print n k v)
  with fn_side_at [OF s i pc] b L fn_mid_print [of n k v g g'] show ?thesis
    by (auto simp: inc_small split: option.splits)
next
  case (F_unlock n)
  with b L show ?thesis by (auto simp: fn_R_def split: option.splits)
qed (use b L assms(5) in auto)

sublocale lp: locked_program pthread_mutex_lock pthread_mutex_unlock "\<lambda>m h. owner m = h" P
  fn_mut fn_inside fn_side fn_L fn_R fn_globals0 fn_work
proof (unfold_locales, goal_cases)
  case (2 i a pc g pc' g') then show ?case by (cases pc) (auto split: option.splits if_splits)
next
  case (3 i a pc g pc' g') then show ?case by (cases pc) (auto split: option.splits if_splits)
next
  case (4 i a pc g pc' g') then show ?case by (cases pc) (auto split: option.splits if_splits)
next
  case (5 i a pc g g') then show ?case by (auto dest: func_return)
next
  case (6 ts g i pc pc' g')
  then show ?case using fn_enter [of ts g i pc] by simp
next
  case (7 ts g i pc pc' g')
  then show ?case using fn_work_inside [of ts g i pc pc' g'] by simp
next
  case (8 ts g i pc pc' g')
  then show ?case using fn_work_inside [of ts g i pc pc' g'] by simp
next
  case (9 i pc g pc' g') then show ?case by (cases pc) (auto split: option.splits if_splits)
next
  case (10 i pc g g') then show ?case by (auto dest: func_return)
next
  case 13
  have "fn_R fn_globals0" by (auto simp: fn_R_def fn_globals0_def fn_done_def intro!: exI [where x = "[]"])
  then show ?case by (simp add: fn_side_def fn_globals0_def PTHREAD_MUTEX_INITIALIZER_def)
next
  case (18 ts g i pc)
  then show ?case using func_defined [of i pc g] fn_side_at [of ts g i pc] by simp
next
  case (19 i a pc g) then show ?case by (cases pc) (auto split: option.splits if_splits)
next
  case (20 ts g i pc pc' g') then show ?case by (auto intro!: func_works dest: fn_side_at)
qed (auto simp: fn_birth_side fn_side_goto fn_done_side dest: func_return)

end

interpretation fn: counter_program i32_check fn_program
  by unfold_locales (auto simp: fn_program_def fn_NO_TH_def func1_def func2_def fn_no_def)

section \<open>Properties\<close>

text \<open>What has been printed when every thread is done.\<close>

lemma fn_result:
  assumes R: "fn_R g" and side: "fn_side (replicate 10 Done) g"
  shows "fn_counter g = 501 \<and> (\<exists>ns. distinct ns \<and> set ns = {0..9} \<and> fn_out g = fn_blocks 1 ns) \<and>
    map (\<lambda>x. case x of Function f v n \<Rightarrow> v) (fn_out g) = [1..500]"
proof -
  from R obtain ns where ns: "fn_done ns" "fn_out g = fn_blocks 1 ns" "fn_counter g = 50 * int (length ns) + 1"
    by (auto simp: fn_R_def)
  have "n \<in> set ns" if "n \<in> {0..9}" for n
  proof -
    from that have "nat n < 10" "int (nat n) = n" by auto
    with side have "fn_thread_ok n Done (fn_out g)" unfolding fn_side_def by (metis nth_replicate)
    with ns(2) have "count_list ns n \<noteq> 0" by (auto simp: fn_count_def count_fn_blocks)
    then show ?thesis by (simp add: count_list_0_iff)
  qed
  with ns(1) have set: "distinct ns" "set ns = {0..9}" by (auto simp: fn_done_def)
  then have len: "length ns = 10" using distinct_card [of ns] by simp
  have "map (\<lambda>x. case x of Function f v n \<Rightarrow> v) (fn_blocks c ms) = [c..c + 50 * int (length ms) - 1]" for c ms
  proof (induction ms arbitrary: c)
    case (Cons m ms)
    have "[c..c + 49] @ [c + 50..c + 50 * int (length (m # ms)) - 1] = [c..c + 50 * int (length (m # ms)) - 1]"
      by (subst upto_split2 [of c "c + 49"]) (auto simp: algebra_simps)
    with Cons [of "c + 50"] show ?case by (simp add: fn_lines_def o_def algebra_simps)
  qed simp
  from this [of 1 ns] ns set len show ?thesis by auto
qed

text \<open>
  C26. No update of lab 3a is lost, and no thread's lines are torn apart: under every
  schedule the process exits with status zero, the counter has gone from 1 to 501,
  the numbers 1 to 500 are printed in order, and the output consists of ten blocks of
  fifty lines, one block per thread, in some order.
\<close>

theorem mutex_counter_blocks:
  assumes "run (proc_step all_ok fn_program) sch (boot fn_program fn_globals0) = Some s"
    and "\<forall>a. proc_step all_ok fn_program a s = None"
  shows "main s = Exited EXIT_SUCCESS \<and> err s = [] \<and> fn_counter (glob s) = 501 \<and>
    (\<exists>ns. distinct ns \<and> set ns = {0..9} \<and> fn_out (glob s) = fn_blocks 1 ns) \<and>
    map (\<lambda>x. case x of Function f v n \<Rightarrow> v) (fn_out (glob s)) = [1..500]"
  using fn.lp.ended [OF assms] fn_result [of "glob s"] by auto

theorem mutex_counter_blocks_witness:
  "\<exists>sch s. run (proc_step all_ok fn_program) sch (boot fn_program fn_globals0) = Some s \<and> fn_counter (glob s) = 501"
  using fn.lp.can_end [of all_ok] mutex_counter_blocks by blast

end
