(* ===== verification/Cpp_Mutex.thy ===== *)
theory Cpp_Mutex
  imports Cpp_Thread Mutex_Counter
begin

text \<open>
  The C++ versions of lab 3. \<^verbatim>\<open>cpp/cc_lab03_a.cc\<close>: ten threads count under a \<open>std::unique_lock\<close>;
  the lambda \<open>func\<close> does what \<open>func1\<close> and \<open>func2\<close> do in C, with \<open>size_t\<close> for \<open>int\<close>, so it is the
  same definition with the arithmetic of \<open>size_t\<close>. \<^verbatim>\<open>cpp/cc_lab03_b.cc\<close>: two threads print
  blocks; other than in C, each of them prints a block of either kind.
\<close>

section \<open>Lab 3a\<close>

definition size_t :: "int \<Rightarrow> int option" where
  "size_t x = Some (x mod 2 ^ 64)"

definition cxx_func :: "i32 \<Rightarrow> nat \<Rightarrow> i32 option \<Rightarrow> fn_pc \<Rightarrow> fn_globals \<Rightarrow> (fn_pc, fn_globals) outcome" where
  "cxx_func = func size_t"

definition cxx_fn_program :: "(fn_pc, fn_globals) program" where
  "cxx_fn_program =
     \<lparr>no_th = 10,
      entry = (\<lambda>i. F_start),
      slot = (\<lambda>i. i),
      body = (\<lambda>i. if even i then cxx_func 1 i else cxx_func 2 i),
      bad_rc = (\<lambda>r. r \<noteq> 0),
      init = Inr,
      fini = Inr,
      create_msg = (\<lambda>i. []),
      join_msg = [],
      before = (\<lambda>i g. g)\<rparr>"

definition cxx_fn :: "(fn_pc, fn_globals) cxx_program" where
  "cxx_fn = \<lparr>prog = cxx_fn_program, catches = False, on_signal = (\<lambda>_. None)\<rparr>"

interpretation cfn: counter_program size_t cxx_fn_program
  by unfold_locales (auto simp: size_t_def cxx_fn_program_def cxx_func_def fn_no_def)

interpretation cfx: cxx_locked pthread_mutex_lock pthread_mutex_unlock "\<lambda>m h. owner m = h" cxx_fn_program
  fn_mut fn_inside fn_side fn_L fn_R fn_globals0 fn_work cxx_fn
  by unfold_locales (simp_all add: cxx_fn_def)

text \<open>
  C8. The C++ version of lab 3a loses no update either: under every schedule the counter goes
  from 1 to 501 and the ten blocks of fifty lines are whole; if a thread cannot be constructed,
  the uncaught exception terminates the process.
\<close>

theorem cpp_counter_blocks:
  assumes "run (cxx_step e cxx_fn) sch (Alive (boot cxx_fn_program fn_globals0)) = Some st"
    and "\<forall>a. cxx_step e cxx_fn a st = None"
  shows "if \<exists>i < 10. throws e i then \<exists>s. st = Terminated s
    else \<exists>s. st = Alive s \<and> main s = Exited EXIT_SUCCESS \<and> fn_counter (glob s) = 501 \<and>
      (\<exists>ns. distinct ns \<and> set ns = {0..9} \<and> fn_out (glob s) = fn_blocks 1 ns)"
proof (cases "\<exists>i < 10. throws e i")
  case True
  with cfx.cxx_ended [OF assms] show ?thesis by (simp add: cxx_fn_def)
next
  case False
  with cfx.cxx_ended [OF assms] obtain s where "st = Alive s" "main s = Exited EXIT_SUCCESS" "fn_R (glob s)"
      "fn_side (replicate 10 Done) (glob s)"
    by auto
  with False fn_result [of "glob s"] show ?thesis by auto
qed

theorem cpp_counter_blocks_witness:
  "\<exists>sch s. run (cxx_step all_start cxx_fn) sch (Alive (boot cxx_fn_program fn_globals0)) = Some (Alive s) \<and>
     fn_counter (glob s) = 501"
proof -
  obtain sch st where "run (cxx_step all_start cxx_fn) sch (Alive (boot cxx_fn_program fn_globals0)) = Some st"
      "\<forall>a. cxx_step all_start cxx_fn a st = None"
    using cfx.cc.cxx_can_end by blast
  with cpp_counter_blocks [OF this] show ?thesis by (auto simp: all_start_def)
qed


section \<open>Lab 3b\<close>

datatype bl_line = Thread_I nat | Thread_II nat

record bl_globals =
  bl_mut :: pthread_mutex_t
  bl_out :: "bl_line list"
  bl_err :: "nat list"

datatype bl_pc = B_test nat | B_lock nat | B_print nat nat | B_unlock nat | B_end

text \<open>One round of the loop in \<open>print_thread\<close>; the default branch reports the constant \<open>n\<close>.\<close>

definition cxx_print_thread :: "nat \<Rightarrow> nat \<Rightarrow> bl_globals \<Rightarrow> bl_globals" where
  "cxx_print_thread thread_id i g =
     (if thread_id = 0 then g\<lparr>bl_out := bl_out g @ [Thread_I (i * 1000 + 1)]\<rparr>
      else if thread_id = 1 then g\<lparr>bl_out := bl_out g @ [Thread_II (i * 1000 + 1)]\<rparr>
      else g\<lparr>bl_err := bl_err g @ [10]\<rparr>)"

text \<open>The lambda that the threads run; \<open>B_unlock\<close> is the destructor of the lock.\<close>

fun bl_thread :: "nat \<Rightarrow> i32 option \<Rightarrow> bl_pc \<Rightarrow> bl_globals \<Rightarrow> (bl_pc, bl_globals) outcome" where
  "bl_thread me a (B_test i) g = (if i < 2 then Goto (B_lock i) g else Goto B_end g)"
| "bl_thread me a (B_lock i) g =
     (case pthread_mutex_lock me (bl_mut g) of None \<Rightarrow> Blocked | Some m \<Rightarrow> Goto (B_print i 0) (g\<lparr>bl_mut := m\<rparr>))"
| "bl_thread me a (B_print i j) g =
     (if j < 10 then Goto (B_print i (j + 1)) (cxx_print_thread i j g) else Goto (B_unlock i) g)"
| "bl_thread me a (B_unlock i) g =
     (case pthread_mutex_unlock me (bl_mut g) of None \<Rightarrow> Crash | Some m \<Rightarrow> Goto (B_test (i + 1)) (g\<lparr>bl_mut := m\<rparr>))"
| "bl_thread me a B_end g = Return g"

definition bl_program :: "(bl_pc, bl_globals) program" where
  "bl_program =
     \<lparr>no_th = 2,
      entry = (\<lambda>i. B_test 0),
      slot = (\<lambda>i. i),
      body = bl_thread,
      bad_rc = (\<lambda>r. r \<noteq> 0),
      init = Inr,
      fini = Inr,
      create_msg = (\<lambda>i. []),
      join_msg = [],
      before = (\<lambda>i g. g)\<rparr>"

definition bl_cxx :: "(bl_pc, bl_globals) cxx_program" where
  "bl_cxx = \<lparr>prog = bl_program, catches = False, on_signal = (\<lambda>_. None)\<rparr>"

definition bl_globals0 :: bl_globals where
  "bl_globals0 = \<lparr>bl_mut = PTHREAD_MUTEX_INITIALIZER, bl_out = [], bl_err = []\<rparr>"

subsection \<open>What is printed\<close>

definition bl_line_of :: "nat \<Rightarrow> nat \<Rightarrow> bl_line" where
  "bl_line_of n v = (if n = 0 then Thread_I v else Thread_II v)"

definition bl_block :: "nat \<Rightarrow> nat \<Rightarrow> bl_line list" where
  "bl_block n k = map (\<lambda>j. bl_line_of n (j * 1000 + 1)) [0..<k]"

definition bl_blocks :: "nat list \<Rightarrow> bl_line list" where
  "bl_blocks ns = concat (map (\<lambda>n. bl_block n 10) ns)"

fun bl_inside :: "bl_pc \<Rightarrow> bool" where
  "bl_inside (B_print i j) = True" | "bl_inside (B_unlock i) = True" | "bl_inside _ = False"

fun bl_ok :: "bl_pc \<Rightarrow> bool" where
  "bl_ok (B_test i) \<longleftrightarrow> i \<le> 2"
| "bl_ok (B_lock i) \<longleftrightarrow> i < 2"
| "bl_ok (B_print i j) \<longleftrightarrow> i < 2 \<and> j \<le> 10"
| "bl_ok (B_unlock i) \<longleftrightarrow> i < 2"
| "bl_ok B_end \<longleftrightarrow> True"

text \<open>Blocks that a thread has finished, and the part it has printed of the current one.\<close>

fun bl_pc_done :: "bl_pc \<Rightarrow> nat" where
  "bl_pc_done (B_test i) = i" | "bl_pc_done (B_lock i) = i" | "bl_pc_done (B_print i j) = i"
| "bl_pc_done (B_unlock i) = i + 1" | "bl_pc_done B_end = 2"

fun bl_done :: "bl_pc thread \<Rightarrow> nat" where
  "bl_done Unborn = 0" | "bl_done (Live pc) = bl_pc_done pc" | "bl_done Done = 2"

fun bl_part :: "bl_pc thread \<Rightarrow> bl_line list" where
  "bl_part (Live (B_print i j)) = bl_block i j" | "bl_part _ = []"

definition bl_printed :: "bl_pc thread \<Rightarrow> bl_pc thread \<Rightarrow> bl_line list \<Rightarrow> bool" where
  "bl_printed t u out \<longleftrightarrow>
     (\<exists>ns \<in> shuffles [0..<bl_done t] [0..<bl_done u]. out = bl_blocks ns @ bl_part t @ bl_part u)"

definition bl_inv :: "bl_pc thread list \<Rightarrow> bl_globals \<Rightarrow> bool" where
  "bl_inv ts g \<longleftrightarrow>
     cs_inv (\<lambda>m h. owner m = h) bl_mut bl_inside ts g \<and> length ts = 2 \<and> bl_err g = [] \<and>
     (\<forall>i < 2. \<forall>pc. ts ! i = Live pc \<longrightarrow> bl_ok pc) \<and> bl_printed (ts ! 0) (ts ! 1) (bl_out g)"

fun bl_work :: "bl_pc \<Rightarrow> nat" where
  "bl_work (B_test i) = 15 * (2 - i) + 1" | "bl_work (B_lock i) = 15 * (2 - i)"
| "bl_work (B_print i j) = 15 * (2 - i) - 13 + (11 - j)"
| "bl_work (B_unlock i) = 15 * (2 - i) - 13" | "bl_work B_end = 0"

lemma bl_program_simps [simp]:
  "no_th bl_program = 2" "slot bl_program i = i" "bad_rc bl_program r \<longleftrightarrow> r \<noteq> 0" "init bl_program = Inr"
  "fini bl_program = Inr" "entry bl_program i = B_test 0" "body bl_program = bl_thread"
  "prog bl_cxx = bl_program" "on_signal bl_cxx = (\<lambda>_. None)" "before bl_program = (\<lambda>i g. g)" "\<not> catches bl_cxx"
  by (simp_all add: bl_program_def bl_cxx_def)

lemma shuffles_snoc_left: "zs \<in> shuffles xs ys \<Longrightarrow> zs @ [x] \<in> shuffles (xs @ [x]) ys"
proof (induction xs ys arbitrary: zs rule: shuffles.induct)
  case (1 ys)
  then have "zs = ys" by simp
  moreover have "ws @ [x] \<in> shuffles [x] ws" for ws
    by (induction ws) (auto intro: Cons_in_shuffles_rightI)
  ultimately show ?case by simp
qed auto

lemma bl_printed_sym: "bl_part t = [] \<or> bl_part u = [] \<Longrightarrow> bl_printed t u out = bl_printed u t out"
  unfolding bl_printed_def by (subst shuffles_commutes) auto

lemma bl_blocks_snoc: "bl_blocks (ns @ [n]) = bl_blocks ns @ bl_block n 10"
  by (simp add: bl_blocks_def)

lemma bl_part_outside: "\<not> inside bl_inside t \<Longrightarrow> bl_part t = []"
  by (cases t rule: bl_part.cases) auto

lemma bl_goto:
  assumes b: "bl_thread me a pc g = Goto pc' g'" and ok: "bl_ok pc"
    and other: "bl_inside pc \<Longrightarrow> bl_part u = []" and pr: "bl_printed (Live pc) u (bl_out g)"
  shows "bl_ok pc' \<and> bl_err g' = bl_err g \<and> bl_printed (Live pc') u (bl_out g')"
proof (cases pc)
  case (B_print i j)
  with pr other obtain ns where ns: "ns \<in> shuffles [0..<i] [0..<bl_done u]" "bl_out g = bl_blocks ns @ bl_block i j"
    by (auto simp: bl_printed_def)
  show ?thesis
  proof (cases "j < 10")
    case True
    with b B_print ok have "pc' = B_print i (j + 1)" "bl_err g' = bl_err g"
        "bl_out g' = bl_blocks ns @ bl_block i (j + 1)"
      using ns(2) by (auto simp: cxx_print_thread_def bl_block_def bl_line_of_def)
    with ns True ok B_print other show ?thesis by (auto simp: bl_printed_def)
  next
    case False
    with b B_print ok have "pc' = B_unlock i" "g' = g" "j = 10" by auto
    with ns ok B_print other shuffles_snoc_left [OF ns(1), of i] show ?thesis
      by (auto simp: bl_printed_def bl_blocks_snoc intro!: bexI [of _ "ns @ [i]"])
  qed
qed (use b ok pr in \<open>auto simp: bl_printed_def bl_block_def split: option.splits if_splits\<close>)


interpretation bl: critical_section pthread_mutex_lock pthread_mutex_unlock "\<lambda>m h. owner m = h" bl_program bl_mut bl_inside
proof (unfold_locales, goal_cases)
  case (2 i a pc g pc' g') then show ?case by (cases pc) (auto simp: cxx_print_thread_def split: option.splits if_splits)
next
  case (3 i a pc g pc' g') then show ?case by (cases pc) (auto split: option.splits if_splits)
next
  case (4 i a pc g pc' g') then show ?case by (cases pc) (auto split: option.splits if_splits)
next
  case (5 i a pc g g') then show ?case by (cases pc) (auto split: option.splits if_splits)
qed simp

lemma less_2: "i < 2 \<longleftrightarrow> i = 0 \<or> i = (1::nat)"
  by auto

lemma bl_inv_goto:
  assumes inv: "bl_inv ts g" and i: "i < 2" and pc: "ts ! i = Live pc" and b: "bl_thread i a pc g = Goto pc' g'"
  shows "bl_inv (ts[i := Live pc']) g'"
proof -
  from inv have ex: "cs_inv (\<lambda>m h. owner m = h) bl_mut bl_inside ts g" and len: "length ts = 2"
    and pr: "bl_printed (ts ! 0) (ts ! 1) (bl_out g)" and ok: "bl_ok pc"
    using i pc by (auto simp: bl_inv_def)
  have ex': "cs_inv (\<lambda>m h. owner m = h) bl_mut bl_inside (ts[i := Live pc']) g'"
    using bl.cs_goto [OF ex _ pc] b i len by simp
  let ?u = "ts ! (1 - i)"
  have j: "1 - i < 2" "i \<noteq> 1 - i" using i by (auto simp: less_2)
  have in1: "bl_inside pc \<Longrightarrow> bl_part ?u = []"
    using cs_inv_excl [OF ex, of i "1 - i"] i j len pc bl_part_outside [of ?u] by fastforce
  have in2: "bl_inside pc' \<Longrightarrow> bl_part ?u = []"
    using cs_inv_excl [OF ex', of i "1 - i"] i j len bl_part_outside [of ?u] by fastforce
  have one: "bl_part (Live pc) = [] \<or> bl_part ?u = []" and one': "bl_part (Live pc') = [] \<or> bl_part ?u = []"
    using in1 in2 by (metis bl_part_outside inside_simps(3))+
  have "bl_printed (Live pc) ?u (bl_out g)"
  proof (cases "i = 0")
    case False
    with i pr pc have "bl_printed ?u (Live pc) (bl_out g)" by (simp add: less_2)
    with bl_printed_sym [OF one] show ?thesis by blast
  qed (use pr pc in simp)
  note goto = bl_goto [OF b ok in1 this]
  have "bl_printed (ts[i := Live pc'] ! 0) (ts[i := Live pc'] ! 1) (bl_out g')"
  proof (cases "i = 0")
    case False
    from goto have "bl_printed ?u (Live pc') (bl_out g')" using bl_printed_sym [OF one'] by blast
    with False i len show ?thesis by (simp add: less_2)
  qed (use goto len in simp)
  with goto ex' inv i show ?thesis by (auto simp: bl_inv_def nth_list_update)
qed

lemma bl_quiet:
  assumes inv: "bl_inv ts g" and i: "i < 2" and "bl_done x = bl_done (ts ! i)" "bl_part x = []" "bl_part (ts ! i) = []"
    and "cs_inv (\<lambda>m h. owner m = h) bl_mut bl_inside (ts[i := x]) g" and "\<And>pc. x = Live pc \<Longrightarrow> bl_ok pc"
  shows "bl_inv (ts[i := x]) g"
  using assms by (auto simp: bl_inv_def bl_printed_def less_2 nth_list_update)

interpretation blx: cxx_counted bl_program bl_globals0 bl_inv bl_work bl_cxx
proof (unfold_locales, goal_cases)
  case 4
  have "cs_inv (\<lambda>m h. owner m = h) bl_mut bl_inside (replicate 2 Unborn) bl_globals0"
    by (rule bl.cs_init) (simp add: bl_globals0_def PTHREAD_MUTEX_INITIALIZER_def)
  then show ?case by (simp add: bl_inv_def bl_printed_def bl_globals0_def bl_blocks_def less_2)
next
  case (5 ts g i)
  then show ?case using bl.cs_birth [of ts g i] by (intro bl_quiet) (auto simp: bl_inv_def)
next
  case (6 ts g i pc pc' g')
  then show ?case by (auto intro: bl_inv_goto)
next
  case (7 ts g i pc g')
  then have "pc = B_end" "g' = g" by (cases pc; auto split: option.splits if_splits)+
  with 7 bl.cs_done [of ts g i pc] show ?case by (intro bl_quiet) (auto simp: bl_inv_def)
next
  case (8 ts g i pc)
  then have "bl_inside pc \<Longrightarrow> pthread_mutex_unlock i (bl_mut g) \<noteq> None"
    using bl.cs_can_release [of ts g i] by (simp add: bl_inv_def)
  then show ?case by (cases pc) (auto split: option.splits if_splits)
next
  case (10 ts g i pc pc' g')
  then have "bl_ok pc" by (simp add: bl_inv_def)
  with 10 show ?case by (cases pc) (auto simp: less_2 split: option.splits if_splits)
next
  case (11 ts g k)
  then obtain pc where pc: "ts ! k = Live pc" by (cases "ts ! k") auto
  show ?case
  proof (cases "bl_thread k (Some (int k)) pc g = Blocked")
    case True
    then have "pthread_mutex_lock k (bl_mut g) = None" by (cases pc) (auto split: option.splits if_splits)
    with 11 obtain j q where "j < 2" "ts ! j = Live q" "bl_inside q"
      using bl.cs_waits [of ts g k] by (auto simp: bl_inv_def inside_iff)
    moreover from this(3) have "bl_thread j (Some (int j)) q g \<noteq> Blocked"
      by (cases q) (auto split: option.splits if_splits)
    ultimately show ?thesis by auto
  next
    case False
    with pc 11 show ?thesis by auto
  qed
qed auto

text \<open>
  In the C++ version of lab 3b no block is torn, and each thread prints its block I before
  its block II: under every schedule the output is four whole blocks of ten lines, in one of
  the two orders I, I, II, II and I, II, I, II. If a thread cannot be constructed, the process
  is terminated.
\<close>

theorem cpp_blocks_whole:
  assumes "run (cxx_step e bl_cxx) sch (Alive (boot bl_program bl_globals0)) = Some st"
    and "\<forall>a. cxx_step e bl_cxx a st = None"
  shows "if \<exists>i < 2. throws e i then \<exists>s. st = Terminated s
    else \<exists>s ns. st = Alive s \<and> main s = Exited EXIT_SUCCESS \<and> bl_err (glob s) = [] \<and>
      bl_out (glob s) = bl_blocks ns \<and> ns \<in> {[0, 0, 1, 1], [0, 1, 0, 1]}"
proof (cases "\<exists>i < 2. throws e i")
  case True
  with blx.cxx_maximal [OF assms] show ?thesis by simp
next
  case False
  with blx.cxx_maximal [OF assms] obtain s where s: "st = Alive s" "main s = Exited EXIT_SUCCESS" "bl_inv (replicate 2 Done) (glob s)"
    by auto
  then obtain ns where "ns \<in> shuffles [0..<2] [0..<2]" "bl_out (glob s) = bl_blocks ns" "bl_err (glob s) = []"
    by (auto simp: bl_inv_def bl_printed_def less_2)
  moreover have "shuffles [0..<2] [0..<2] = {[0, 0, 1, 1], [0, 1, 0, 1 :: nat]}"
    by (auto simp: numeral_2_eq_2)
  ultimately show ?thesis using False s by auto
qed

theorem cpp_blocks_whole_witness:
  "\<exists>sch s ns. run (cxx_step all_start bl_cxx) sch (Alive (boot bl_program bl_globals0)) = Some (Alive s) \<and>
     bl_out (glob s) = bl_blocks ns \<and> length ns = 4"
proof -
  obtain sch st where "run (cxx_step all_start bl_cxx) sch (Alive (boot bl_program bl_globals0)) = Some st"
      "\<forall>a. cxx_step all_start bl_cxx a st = None"
    using blx.cxx_can_end by blast
  with cpp_blocks_whole [OF this] obtain s ns where "run (cxx_step all_start bl_cxx) sch (Alive (boot bl_program bl_globals0)) = Some (Alive s)"
      "bl_out (glob s) = bl_blocks ns" "ns \<in> {[0, 0, 1, 1], [0, 1, 0, 1]}"
    by (auto simp: all_start_def)
  moreover from this(3) have "length ns = 4" by auto
  ultimately show ?thesis by blast
qed

end
