(* ===== verification/Airport.thy ===== *)
theory Airport
  imports Pthread
begin

text \<open>
  \<^verbatim>\<open>c/c_lab04.c\<close> and \<^verbatim>\<open>c/c_lab06.c\<close>: five airplanes share one runway. Each asks
  the control tower for permission, takes the runway, lands and gives the runway
  back. Lab 4 guards the runway with a mutex, lab 6 with a semaphore that starts
  at one; the code is otherwise the same, so it is translated once, over the pair
  of operations that take and return the runway, and its correctness is proved
  once, in a locale over the lock contract.
\<close>

section \<open>The program\<close>

datatype ap_line = Request i32 | Granted i32 | Landed i32 | Available

record 'l ap_globals =
  runway :: 'l
  traffic :: "ap_line list"

datatype ap_pc = Start | Ask i32 | Enter i32 | Grant i32 | Land i32 | Announce i32 | Leave i32 | Finish

definition ap_say :: "ap_line \<Rightarrow> 'l ap_globals \<Rightarrow> 'l ap_globals" where
  "ap_say x g = g\<lparr>traffic := traffic g @ [x]\<rparr>"

fun airplanes ::
  "(nat \<Rightarrow> 'l \<Rightarrow> 'l option) \<Rightarrow> (nat \<Rightarrow> 'l \<Rightarrow> 'l option) \<Rightarrow> nat \<Rightarrow> i32 option \<Rightarrow>
   ap_pc \<Rightarrow> 'l ap_globals \<Rightarrow> (ap_pc, 'l ap_globals) outcome" where
  "airplanes acquire release i a Start g =
     (case a of
        None \<Rightarrow> Crash
      | Some k \<Rightarrow> (case i32_check (k + 1) of None \<Rightarrow> Crash | Some n \<Rightarrow> Goto (Ask n) g))"
| "airplanes acquire release i a (Ask n) g = Goto (Enter n) (ap_say (Request n) g)"
| "airplanes acquire release i a (Enter n) g =
     (case acquire i (runway g) of None \<Rightarrow> Blocked | Some l \<Rightarrow> Goto (Grant n) (g\<lparr>runway := l\<rparr>))"
| "airplanes acquire release i a (Grant n) g = Goto (Land n) (ap_say (Granted n) g)"
| "airplanes acquire release i a (Land n) g = Goto (Announce n) (ap_say (Landed n) g)"
| "airplanes acquire release i a (Announce n) g = Goto (Leave n) (ap_say Available g)"
| "airplanes acquire release i a (Leave n) g =
     (case release i (runway g) of None \<Rightarrow> Crash | Some l \<Rightarrow> Goto Finish (g\<lparr>runway := l\<rparr>))"
| "airplanes acquire release i a Finish g = Return g"

definition ap_NO_TH :: nat where
  "ap_NO_TH = 5"

definition airport_program ::
  "(nat \<Rightarrow> 'l \<Rightarrow> 'l option) \<Rightarrow> (nat \<Rightarrow> 'l \<Rightarrow> 'l option) \<Rightarrow>
   ('l ap_globals \<Rightarrow> string + 'l ap_globals) \<Rightarrow> ('l ap_globals \<Rightarrow> string + 'l ap_globals) \<Rightarrow> string \<Rightarrow>
   (ap_pc, 'l ap_globals) program" where
  "airport_program acquire release ini fin jmsg =
     \<lparr>no_th = ap_NO_TH,
      entry = (\<lambda>i. Start),
      slot = (\<lambda>i. i),
      body = airplanes acquire release,
      bad_rc = (\<lambda>r. r \<noteq> 0),
      init = ini,
      fini = fin,
      create_msg = (\<lambda>i. ''Error creating thread for airplanes''),
      join_msg = jmsg,
      before = (\<lambda>i g. g)\<rparr>"

subsection \<open>Lab 4: the runway is a mutex\<close>

definition lab04_globals0 :: "pthread_mutex_t ap_globals" where
  "lab04_globals0 = \<lparr>runway = PTHREAD_MUTEX_INITIALIZER, traffic = []\<rparr>"

definition lab04_program :: "(ap_pc, pthread_mutex_t ap_globals) program" where
  "lab04_program =
     airport_program pthread_mutex_lock pthread_mutex_unlock Inr Inr ''Unable to join threads''"

subsection \<open>Lab 6: the runway is a binary semaphore\<close>

definition init_semaphore :: "rk_sema ap_globals \<Rightarrow> string + rk_sema ap_globals" where
  "init_semaphore g =
     (case rk_sema_init (runway g) 0 1 of (r, s) \<Rightarrow>
        if r \<noteq> 0 then Inl ''Error init binary semaphore'' else Inr (g\<lparr>runway := s\<rparr>))"

definition close_semaphore :: "rk_sema ap_globals \<Rightarrow> string + rk_sema ap_globals" where
  "close_semaphore g =
     (case rk_sema_destroy (runway g) of (r, s) \<Rightarrow>
        if r \<noteq> 0 then Inl ''Error destroying binary semaphore'' else Inr (g\<lparr>runway := s\<rparr>))"

definition lab06_globals0 :: "rk_sema ap_globals" where
  "lab06_globals0 = \<lparr>runway = raw_sema, traffic = []\<rparr>"

definition lab06_program :: "(ap_pc, rk_sema ap_globals) program" where
  "lab06_program =
     airport_program (\<lambda>i. sema_down) (\<lambda>i s. Some (rk_sema_post s)) init_semaphore close_semaphore
       ''unable to join threads''"

section \<open>What is heard on the radio\<close>

text \<open>
  \<open>of_plane n\<close> are the lines that carry the number \<open>n\<close>; \<open>runway_lines\<close> are the
  lines spoken while holding the runway; \<open>landings ns\<close> is what uninterrupted
  landings of the planes \<open>ns\<close> sound like.
\<close>

fun plane :: "ap_line \<Rightarrow> i32 option" where
  "plane (Request n) = Some n"
| "plane (Granted n) = Some n"
| "plane (Landed n) = Some n"
| "plane Available = None"

fun on_runway :: "ap_line \<Rightarrow> bool" where
  "on_runway (Request n) = False"
| "on_runway _ = True"

definition of_plane :: "i32 \<Rightarrow> ap_line list \<Rightarrow> ap_line list" where
  "of_plane n xs = filter (\<lambda>x. plane x = Some n) xs"

definition runway_lines :: "ap_line list \<Rightarrow> ap_line list" where
  "runway_lines xs = filter on_runway xs"

definition landings :: "i32 list \<Rightarrow> ap_line list" where
  "landings ns = concat (map (\<lambda>n. [Granted n, Landed n, Available]) ns)"

lemma of_plane_simps [simp]:
  "of_plane n [] = []" "of_plane n (xs @ ys) = of_plane n xs @ of_plane n ys"
  "of_plane n (x # xs) = (if plane x = Some n then x # of_plane n xs else of_plane n xs)"
  by (simp_all add: of_plane_def)

lemma runway_lines_simps [simp]:
  "runway_lines [] = []" "runway_lines (xs @ ys) = runway_lines xs @ runway_lines ys"
  "runway_lines (x # xs) = (if on_runway x then x # runway_lines xs else runway_lines xs)"
  by (simp_all add: runway_lines_def)

lemma landings_simps [simp]:
  "landings [] = []" "landings (n # ns) = [Granted n, Landed n, Available] @ landings ns"
  "landings (ns @ ms) = landings ns @ landings ms"
  by (simp_all add: landings_def)

lemma ap_say_simps [simp]:
  "traffic (ap_say x g) = traffic g @ [x]" "runway (ap_say x g) = runway g"
  by (simp_all add: ap_say_def)

lemma landings_snoc: "\<exists>ms. landings ns @ [Granted n, Landed n, Available] = landings ms"
  by (rule exI [where x = "ns @ [n]"]) simp

text \<open>How often a plane lands can be read off its own lines.\<close>

lemma of_plane_landings:
  "of_plane n (landings ns) = concat (replicate (count_list ns n) [Granted n, Landed n])"
  by (induction ns) auto

lemma runway_of_plane: "of_plane n (runway_lines xs) = runway_lines (of_plane n xs)"
  by (simp add: of_plane_def runway_lines_def conj_commute)

lemma distinct_count_le: "(\<And>x. count_list xs x \<le> 1) \<Longrightarrow> distinct xs"
proof (induction xs)
  case (Cons a xs)
  have "count_list xs x \<le> 1" for x using Cons.prems [of x] by (simp split: if_splits)
  moreover from Cons.prems [of a] have "a \<notin> set xs" by (simp flip: count_list_0_iff)
  ultimately show ?case using Cons.IH by simp
qed simp

lemma lands_once:
  assumes "of_plane n xs = [Request n, Granted n, Landed n]" and "runway_lines xs = landings ns"
  shows "count_list ns n = 1"
proof -
  from assms have "length (of_plane n (landings ns)) = 2"
    by (metis One_nat_def Suc_1 length_Cons list.size(3) on_runway.simps runway_lines_simps(1,3) runway_of_plane)
  then show ?thesis by (simp add: of_plane_landings length_concat sum_list_replicate)
qed

lemma lands_never:
  assumes "of_plane n xs = []" and "runway_lines xs = landings ns"
  shows "count_list ns n = 0"
proof -
  from assms have "of_plane n (landings ns) = []" by (metis runway_lines_simps(1) runway_of_plane)
  then show ?thesis by (simp add: of_plane_landings)
qed

section \<open>The invariant\<close>

fun ap_script :: "i32 \<Rightarrow> ap_pc \<Rightarrow> ap_line list" where
  "ap_script n Start = []"
| "ap_script n (Ask _) = []"
| "ap_script n (Enter _) = [Request n]"
| "ap_script n (Grant _) = [Request n]"
| "ap_script n (Land _) = [Request n, Granted n]"
| "ap_script n (Announce _) = [Request n, Granted n, Landed n]"
| "ap_script n (Leave _) = [Request n, Granted n, Landed n]"
| "ap_script n Finish = [Request n, Granted n, Landed n]"

fun ap_pc_ok :: "i32 \<Rightarrow> ap_pc \<Rightarrow> bool" where
  "ap_pc_ok n Start \<longleftrightarrow> True"
| "ap_pc_ok n (Ask m) \<longleftrightarrow> m = n"
| "ap_pc_ok n (Enter m) \<longleftrightarrow> m = n"
| "ap_pc_ok n (Grant m) \<longleftrightarrow> m = n"
| "ap_pc_ok n (Land m) \<longleftrightarrow> m = n"
| "ap_pc_ok n (Announce m) \<longleftrightarrow> m = n"
| "ap_pc_ok n (Leave m) \<longleftrightarrow> m = n"
| "ap_pc_ok n Finish \<longleftrightarrow> True"

fun ap_thread_ok :: "i32 \<Rightarrow> ap_pc thread \<Rightarrow> ap_line list \<Rightarrow> bool" where
  "ap_thread_ok n Unborn xs \<longleftrightarrow> of_plane n xs = []"
| "ap_thread_ok n (Live pc) xs \<longleftrightarrow> ap_pc_ok n pc \<and> of_plane n xs = ap_script n pc"
| "ap_thread_ok n Done xs \<longleftrightarrow> of_plane n xs = [Request n, Granted n, Landed n]"

definition ap_side :: "ap_pc thread list \<Rightarrow> 'l ap_globals \<Rightarrow> bool" where
  "ap_side ts g \<longleftrightarrow>
     length ts = 5 \<and> (\<forall>i < 5. ap_thread_ok (int i + 1) (ts ! i) (traffic g)) \<and>
     (\<forall>n. n < 1 \<or> 5 < n \<longrightarrow> of_plane n (traffic g) = [])"

fun landing :: "ap_pc \<Rightarrow> bool" where
  "landing (Grant n) = True"
| "landing (Land n) = True"
| "landing (Announce n) = True"
| "landing (Leave n) = True"
| "landing _ = False"

definition runway_clear :: "'l ap_globals \<Rightarrow> bool" where
  "runway_clear g \<longleftrightarrow> (\<exists>ns. runway_lines (traffic g) = landings ns)"

fun runway_used :: "ap_pc \<Rightarrow> 'l ap_globals \<Rightarrow> bool" where
  "runway_used (Land n) g \<longleftrightarrow> (\<exists>ns. runway_lines (traffic g) = landings ns @ [Granted n])"
| "runway_used (Announce n) g \<longleftrightarrow> (\<exists>ns. runway_lines (traffic g) = landings ns @ [Granted n, Landed n])"
| "runway_used _ g \<longleftrightarrow> runway_clear g"

abbreviation ap_inv ::
  "('l \<Rightarrow> nat option \<Rightarrow> bool) \<Rightarrow> ap_pc thread list \<Rightarrow> 'l ap_globals \<Rightarrow> bool" where
  "ap_inv held \<equiv> locked_inv held runway landing runway_used runway_clear ap_side"

fun ap_work :: "ap_pc \<Rightarrow> nat" where
  "ap_work Start = 7" | "ap_work (Ask n) = 6" | "ap_work (Enter n) = 5" | "ap_work (Grant n) = 4"
| "ap_work (Land n) = 3" | "ap_work (Announce n) = 2" | "ap_work (Leave n) = 1" | "ap_work Finish = 0"

lemma ap_work_goto: "airplanes acq rel i a pc g = Goto pc' g' \<Longrightarrow> ap_work pc' < ap_work pc"
  by (cases pc) (auto split: option.splits)

lemma ap_blocked:
  "airplanes acq rel i a pc g = Blocked \<Longrightarrow> (\<exists>n. pc = Enter n) \<and> acq i (runway g) = None"
  by (cases pc) (auto split: option.splits)

lemma ap_return: "airplanes acq rel i a pc g = Return g' \<Longrightarrow> pc = Finish \<and> g' = g"
  by (cases pc) (auto split: option.splits)

text \<open>What one action says: nothing, or one line that carries the plane's number or none.\<close>

lemma ap_goto_lines:
  assumes "airplanes acq rel i (Some (int i)) pc g = Goto pc' g'" and "i < 5" and "ap_pc_ok (int i + 1) pc"
  shows "ap_pc_ok (int i + 1) pc' \<and>
    of_plane (int i + 1) (traffic g') = of_plane (int i + 1) (traffic g) @ drop (length (ap_script (int i + 1) pc)) (ap_script (int i + 1) pc') \<and>
    ap_script (int i + 1) pc = take (length (ap_script (int i + 1) pc)) (ap_script (int i + 1) pc') \<and>
    (\<forall>n. n \<noteq> int i + 1 \<longrightarrow> of_plane n (traffic g') = of_plane n (traffic g))"
  using assms by (cases pc) (auto split: option.splits)

lemma ap_side_goto:
  assumes s: "ap_side ts g" and i: "i < length ts" and pc: "ts ! i = Live pc"
    and b: "airplanes acq rel i (Some (int i)) pc g = Goto pc' g'"
  shows "ap_side (ts[i := Live pc']) g'"
proof -
  from s i pc have i5: "i < 5" and ok: "ap_thread_ok (int i + 1) (Live pc) (traffic g)"
    unfolding ap_side_def by metis+
  then have pcok: "ap_pc_ok (int i + 1) pc" by simp
  note ap = ap_goto_lines [OF b i5 pcok]
  have me: "ap_thread_ok (int i + 1) (Live pc') (traffic g')"
    using ap ok by (metis append_take_drop_id ap_thread_ok.simps(2))
  have others: "ap_thread_ok n t (traffic g') = ap_thread_ok n t (traffic g)" if "n \<noteq> int i + 1" for n t
    using ap that by (cases t) auto
  from s me others i5 ap show ?thesis
    by (auto simp: ap_side_def nth_list_update)
qed

lemma ap_done:
  assumes "ap_side ts g" and "i < length ts" and "ts ! i = Live Finish"
  shows "ap_side (ts[i := Done]) g"
  using assms unfolding ap_side_def by (auto simp: nth_list_update)

lemma ap_birth:
  assumes "ap_side ts g" and "i < length ts" and "ts ! i = Unborn"
  shows "ap_side (ts[i := Live Start]) g"
  using assms unfolding ap_side_def by (auto simp: nth_list_update)

section \<open>Correctness over any lock\<close>

lemma airport_program_simps [simp]:
  "no_th (airport_program acq rel ini fin j) = 5" "slot (airport_program acq rel ini fin j) i = i"
  "body (airport_program acq rel ini fin j) = airplanes acq rel"
  "bad_rc (airport_program acq rel ini fin j) r \<longleftrightarrow> r \<noteq> 0"
  "init (airport_program acq rel ini fin j) = ini" "fini (airport_program acq rel ini fin j) = fin"
  "entry (airport_program acq rel ini fin j) i = Start" "before (airport_program acq rel ini fin j) = (\<lambda>i g. g)"
  by (simp_all add: airport_program_def ap_NO_TH_def)

locale airport = lock acquire release held
  for acquire :: "nat \<Rightarrow> 'l \<Rightarrow> 'l option"
    and release :: "nat \<Rightarrow> 'l \<Rightarrow> 'l option"
    and held :: "'l \<Rightarrow> nat option \<Rightarrow> bool" +
  fixes ini fin :: "'l ap_globals \<Rightarrow> string + 'l ap_globals"
    and jmsg :: string
    and g0 :: "'l ap_globals"
  assumes ini_free: "\<exists>g. ini g0 = Inr g \<and> held (runway g) None \<and> traffic g = []"
    and fin_free: "held (runway g) None \<Longrightarrow> \<exists>h. fin g = Inr h \<and> traffic h = traffic g"
begin

abbreviation prog :: "(ap_pc, 'l ap_globals) program" where
  "prog \<equiv> airport_program acquire release ini fin jmsg"

sublocale lp: locked_program acquire release held prog runway landing ap_side runway_used runway_clear g0 ap_work
proof (unfold_locales, goal_cases)
  case (2 i a pc g pc' g') then show ?case by (cases pc) (auto split: option.splits)
next
  case (3 i a pc g pc' g') then show ?case by (cases pc) (auto split: option.splits)
next
  case (4 i a pc g pc' g') then show ?case by (cases pc) (auto split: option.splits)
next
  case (5 i a pc g g') then show ?case by (cases pc) (auto split: option.splits)
next
  case (6 ts g i pc pc' g') then show ?case by (cases pc) (auto simp: runway_clear_def split: option.splits)
next
  case (7 ts g i pc pc' g')
  then show ?case by (cases pc) (auto simp: runway_clear_def landings_snoc split: option.splits)
next
  case (8 ts g i pc pc' g') then show ?case by (cases pc) (auto simp: runway_clear_def split: option.splits)
next
  case (9 i pc g pc' g')
  have "runway_used q g' = runway_used q g" if "runway_lines (traffic g') = runway_lines (traffic g)" for q
    using that by (cases q) (auto simp: runway_clear_def)
  moreover from 9 have "runway_lines (traffic g') = runway_lines (traffic g)"
    by (cases pc) (auto split: option.splits)
  ultimately show ?case by (simp add: runway_clear_def)
next
  case 13
  have "runway_clear g" if "traffic g = []" for g :: "'l ap_globals"
    using that landings_simps(1) by (auto simp: runway_clear_def intro: exI [where x = "[]"])
  with ini_free show ?case by (auto simp: ap_side_def)
next
  case (14 g)
  with fin_free show ?case by fastforce
next
  case (18 ts g i pc) then show ?case by (cases pc) (auto split: option.splits)
next
  case (19 i a pc g) then show ?case by (auto dest: ap_blocked)
qed (auto simp: ap_birth ap_side_goto ap_done dest: ap_return ap_work_goto)

lemma ap_thread_done:
  assumes "ap_side (replicate 5 Done) g" and "n \<in> {1..5}"
  shows "of_plane n (traffic g) = [Request n, Granted n, Landed n]"
proof -
  from assms(2) have "nat (n - 1) < 5" "int (nat (n - 1)) + 1 = n" by auto
  with assms(1) have "ap_thread_ok n Done (traffic g)"
    unfolding ap_side_def by (metis nth_replicate)
  then show ?thesis by simp
qed

text \<open>When all five are done, each has landed once, and landings do not overlap.\<close>

lemma ap_all_landed:
  assumes side: "ap_side (replicate 5 Done) g" and "runway_clear g"
  shows "\<exists>ns. distinct ns \<and> set ns = {1..5} \<and> runway_lines (traffic g) = landings ns"
proof -
  from assms(2) obtain ns where ns: "runway_lines (traffic g) = landings ns" by (auto simp: runway_clear_def)
  have cnt: "count_list ns n = (if n \<in> {1..5} then 1 else 0)" for n
  proof (cases "n \<in> {1..5}")
    case True
    with lands_once [OF ap_thread_done [OF side True] ns] show ?thesis by simp
  next
    case False
    with side have "of_plane n (traffic g) = []" by (auto simp: ap_side_def)
    with lands_never [OF _ ns] False show ?thesis by simp
  qed
  have "x \<in> set ns \<longleftrightarrow> x \<in> {1..5}" and "count_list ns x \<le> 1" for x
    using cnt [of x] count_list_0_iff [of ns x] by (simp_all split: if_splits)
  then have "set ns = {1..5}" and "distinct ns" by (blast, blast intro: distinct_count_le)
  with ns show ?thesis by blast
qed

lemma all_land:
  assumes "run (proc_step all_ok prog) sch (boot prog g0) = Some s"
    and "\<forall>a. proc_step all_ok prog a s = None"
  shows "main s = Exited EXIT_SUCCESS \<and> err s = [] \<and> length sch \<le> 54 \<and>
    (\<exists>ns. distinct ns \<and> set ns = {1..5} \<and> runway_lines (traffic (glob s)) = landings ns) \<and>
    (\<forall>n \<in> {1..5}. of_plane n (traffic (glob s)) = [Request n, Granted n, Landed n])"
proof -
  from lp.ended [OF assms] obtain h where ex: "main s = Exited EXIT_SUCCESS" "err s = []"
    and h: "fin h = Inr (glob s)" "held (runway h) None" "runway_clear h" "ap_side (replicate 5 Done) h"
    by auto
  from fin_free [OF h(2)] h(1) have "traffic (glob s) = traffic h" by auto
  with ex ap_all_landed [OF h(4,3)] ap_thread_done [OF h(4)] lp.length_bounded [OF assms(1)]
  show ?thesis by simp
qed

end

section \<open>The two airports\<close>

abbreviation sema_as_lock :: "rk_sema \<Rightarrow> nat option \<Rightarrow> bool" where
  "sema_as_lock s h \<equiv> sema_holds s (if h = None then 1 else 0)"

interpretation lab04: airport pthread_mutex_lock pthread_mutex_unlock "\<lambda>m h. owner m = h" Inr Inr
  "''Unable to join threads''" lab04_globals0
  by unfold_locales (auto simp: lab04_globals0_def PTHREAD_MUTEX_INITIALIZER_def)

interpretation lab06: airport "\<lambda>i. sema_down" "\<lambda>i s. Some (rk_sema_post s)" sema_as_lock
  init_semaphore close_semaphore "''unable to join threads''" lab06_globals0
  by unfold_locales
    (auto simp: lab06_globals0_def init_semaphore_def close_semaphore_def sem_simps SEM_VALUE_MAX_def sema_holds_def)

text \<open>
  C25. Lab 4: under every schedule all five airplanes land and the process exits with
  status zero, after at most 54 steps. Each airplane asks, is granted the runway and
  lands, in this order and once; and nobody speaks on the runway during another
  airplane's landing: the lines spoken there are the landings of the five airplanes
  one after the other, in some order.
\<close>

theorem airport_mutex_all_land:
  assumes "run (proc_step all_ok lab04_program) sch (boot lab04_program lab04_globals0) = Some s"
    and "\<forall>a. proc_step all_ok lab04_program a s = None"
  shows "main s = Exited EXIT_SUCCESS \<and> err s = [] \<and> length sch \<le> 54 \<and>
    (\<exists>ns. distinct ns \<and> set ns = {1..5} \<and> runway_lines (traffic (glob s)) = landings ns) \<and>
    (\<forall>n \<in> {1..5}. of_plane n (traffic (glob s)) = [Request n, Granted n, Landed n])"
  using assms unfolding lab04_program_def by (rule lab04.all_land)

text \<open>
  Lab 6, with the binary semaphore in place of the mutex, keeps the same promise:
  the five landings do not overlap, and the process exits with status zero, having
  destroyed its semaphore.
\<close>

theorem airport_semaphore_all_land:
  assumes "run (proc_step all_ok lab06_program) sch (boot lab06_program lab06_globals0) = Some s"
    and "\<forall>a. proc_step all_ok lab06_program a s = None"
  shows "main s = Exited EXIT_SUCCESS \<and> err s = [] \<and> length sch \<le> 54 \<and>
    (\<exists>ns. distinct ns \<and> set ns = {1..5} \<and> runway_lines (traffic (glob s)) = landings ns) \<and>
    (\<forall>n \<in> {1..5}. of_plane n (traffic (glob s)) = [Request n, Granted n, Landed n])"
  using assms unfolding lab06_program_def by (rule lab06.all_land)

text \<open>
  When a pthread call fails, labs 4 and 6 notice: whatever the return codes are,
  every run that cannot be extended has left the process, with status zero if no call
  failed and otherwise perhaps with status one; undefined behaviour is never reached.
\<close>

theorem airport_failures_exit:
  "(\<forall>sch s. run (proc_step rc lab04_program) sch (boot lab04_program lab04_globals0) = Some s \<longrightarrow>
      main s \<noteq> Undefined \<and>
      ((\<forall>a. proc_step rc lab04_program a s = None) \<longrightarrow>
        main s = Exited EXIT_SUCCESS \<and> err s = [] \<or>
        main s = Exited EXIT_FAILURE \<and> (\<exists>i < 5. create_rc rc i \<noteq> 0 \<or> join_rc rc i \<noteq> 0))) \<and>
   (\<forall>sch s. run (proc_step rc lab06_program) sch (boot lab06_program lab06_globals0) = Some s \<longrightarrow>
      main s \<noteq> Undefined \<and>
      ((\<forall>a. proc_step rc lab06_program a s = None) \<longrightarrow>
        main s = Exited EXIT_SUCCESS \<and> err s = [] \<or>
        main s = Exited EXIT_FAILURE \<and> (\<exists>i < 5. create_rc rc i \<noteq> 0 \<or> join_rc rc i \<noteq> 0)))"
  using lab04.lp.failures_exit [of rc] lab06.lp.failures_exit [of rc]
  by (simp add: lab04_program_def lab06_program_def)

section \<open>Mutex and semaphore make no difference\<close>

text \<open>
  The two programs side by side: in corresponding states the threads are at the same
  points, the same has been said, and the semaphore is one where the mutex is free.
\<close>

definition same_runway :: "pthread_mutex_t ap_globals \<Rightarrow> rk_sema ap_globals \<Rightarrow> bool" where
  "same_runway g h \<longleftrightarrow> traffic h = traffic g \<and> runway h = live_sema (if owner (runway g) = None then 1 else 0)"

fun same_outcome ::
  "(ap_pc, pthread_mutex_t ap_globals) outcome \<Rightarrow> (ap_pc, rk_sema ap_globals) outcome \<Rightarrow> bool" where
  "same_outcome Blocked x \<longleftrightarrow> x = Blocked"
| "same_outcome (Goto pc g) x \<longleftrightarrow> (\<exists>h. x = Goto pc h \<and> same_runway g h)"
| "same_outcome (Return g) x \<longleftrightarrow> (\<exists>h. x = Return h \<and> same_runway g h)"
| "same_outcome Crash x \<longleftrightarrow> x = Crash"

definition same_airport ::
  "(ap_pc, pthread_mutex_t ap_globals) proc \<Rightarrow> (ap_pc, rk_sema ap_globals) proc \<Rightarrow> bool" where
  "same_airport s t \<longleftrightarrow>
     main t = main s \<and> threads t = threads s \<and> thread_no t = thread_no s \<and>
     traffic (glob t) = traffic (glob s) \<and> (main s = Init \<longrightarrow> owner (runway (glob s)) = None) \<and>
     (running (main s) \<and> main s \<noteq> Init \<longrightarrow> same_runway (glob s) (glob t))"

lemma not_running: "\<not> running (Exited c)" "\<not> running Undefined"
  by (simp_all add: running_def)

lemma airplanes_same:
  assumes "same_runway g h" and "landing pc \<Longrightarrow> owner (runway g) = Some i"
  shows "same_outcome (airplanes pthread_mutex_lock pthread_mutex_unlock i a pc g)
    (airplanes (\<lambda>i. sema_down) (\<lambda>i s. Some (rk_sema_post s)) i a pc h)"
  using assms
  by (cases pc)
    (auto simp: same_runway_def pthread_mutex_lock_def pthread_mutex_unlock_def rk_sema_post_live SEM_VALUE_MAX_def
      split: option.splits)

lemma lab04_owner:
  assumes "proc_inv rc lab04_program lab04_globals0 (ap_inv (\<lambda>m h. owner m = h)) s"
    and "running (main s)" and "i < length (threads s)" and "threads s ! i = Live pc" and "landing pc"
  shows "owner (runway (glob s)) = Some i"
proof -
  from assms have "ap_inv (\<lambda>m h. owner m = h) (threads s) (glob s)"
    by (cases "main s") (auto simp: proc_inv_def running_def lab04_program_def args_ok_def)
  with assms(3-5) show ?thesis by (auto simp: locked_inv_def cs_inv_def)
qed

lemma thread_step_same:
  assumes same: "same_airport s t"
    and inv: "proc_inv rc lab04_program lab04_globals0 (ap_inv (\<lambda>m h. owner m = h)) s"
  shows "rel_option same_airport (thread_step lab04_program i s) (thread_step lab06_program i t)"
proof (cases "\<exists>pc. running (main s) \<and> i < length (threads s) \<and> threads s ! i = Live pc")
  case True
  then obtain pc where pc: "running (main s)" "i < length (threads s)" "threads s ! i = Live pc" by blast
  from inv pc have "main s \<noteq> Init" by (auto simp: proc_inv_def args_ok_def)
  with same pc have g: "same_runway (glob s) (glob t)" by (auto simp: same_airport_def)
  have "same_outcome (airplanes pthread_mutex_lock pthread_mutex_unlock i (thread_no s ! i) pc (glob s))
      (airplanes (\<lambda>i. sema_down) (\<lambda>i s. Some (rk_sema_post s)) i (thread_no s ! i) pc (glob t))"
    by (rule airplanes_same [OF g lab04_owner [OF inv pc]])
  then show ?thesis
    using pc same \<open>main s \<noteq> Init\<close>
    by (cases "airplanes pthread_mutex_lock pthread_mutex_unlock i (thread_no s ! i) pc (glob s)")
      (auto simp: thread_step_def same_airport_def lab04_program_def lab06_program_def same_runway_def not_running)
next
  case False
  with same show ?thesis by (auto simp: thread_step_def same_airport_def split: thread.splits)
qed

lemma main_step_same:
  assumes "same_airport s t"
  shows "rel_option same_airport (main_step rc lab04_program s) (main_step rc lab06_program t)"
proof -
  have ini: "init_semaphore g = Inr (g\<lparr>runway := live_sema 1\<rparr>)" for g
    by (simp add: init_semaphore_def sem_simps SEM_VALUE_MAX_def)
  have fin: "\<exists>h. close_semaphore g = Inr h \<and> traffic h = traffic g" if "runway g = live_sema n" for g n
    using that by (simp add: close_semaphore_def sem_simps)
  show ?thesis
  proof (cases "main s")
    case Fini
    with assms fin [of "glob t"] show ?thesis
      by (auto simp: same_airport_def main_step_def lab04_program_def lab06_program_def running_def same_runway_def)
  next
    case (Join k)
    with assms show ?thesis
      by (auto simp: same_airport_def main_step_def lab04_program_def lab06_program_def running_def
          wait_thread_def error_msg_def split: thread.splits)
  qed (use assms ini in \<open>auto simp: same_airport_def main_step_def lab04_program_def lab06_program_def running_def
      same_runway_def create_thread_def error_msg_def Let_def\<close>)
qed

lemma run_same:
  assumes "same_airport s t"
    and "proc_inv rc lab04_program lab04_globals0 (ap_inv (\<lambda>m h. owner m = h)) s"
  shows "rel_option same_airport (run (proc_step rc lab04_program) sch s) (run (proc_step rc lab06_program) sch t)"
  using assms
proof (induction sch arbitrary: s t)
  case (Cons a sch)
  have st: "rel_option same_airport (proc_step rc lab04_program a s) (proc_step rc lab06_program a t)"
    using Cons.prems by (cases a) (simp_all add: main_step_same thread_step_same)
  show ?case
  proof (cases "proc_step rc lab04_program a s")
    case None
    with st show ?thesis by simp
  next
    case (Some s')
    with st obtain t' where "proc_step rc lab06_program a t = Some t'" "same_airport s' t'"
      by (auto simp: option_rel_Some1)
    with Some Cons.IH [of s' t'] Cons.prems lab04.lp.cp.proc_step_inv [of rc s a s'] show ?thesis
      by (simp add: lab04_program_def)
  qed
qed simp

text \<open>
  C24. Replacing the mutex of lab 4 by the binary semaphore of lab 6 changes nothing
  in the traffic: for every schedule and whatever the pthread calls return, one
  program can follow the schedule exactly when the other can, and then \<open>main\<close> and the
  threads are at the same points (with the same exit status once \<open>main\<close> has ended) and the planes
  and the tower have said the same. Standard error is not compared: the messages for a
  failing join differ by a capital letter.
\<close>

theorem mutex_and_semaphore_agree:
  "map_option (\<lambda>s. (main s, threads s, traffic (glob s)))
     (run (proc_step rc lab04_program) sch (boot lab04_program lab04_globals0)) =
   map_option (\<lambda>s. (main s, threads s, traffic (glob s)))
     (run (proc_step rc lab06_program) sch (boot lab06_program lab06_globals0))"
proof -
  have "same_airport (boot lab04_program lab04_globals0) (boot lab06_program lab06_globals0)"
    by (simp add: same_airport_def boot_def lab04_program_def lab06_program_def lab04_globals0_def
        lab06_globals0_def PTHREAD_MUTEX_INITIALIZER_def)
  from run_same [OF this lab04.lp.cp.boot_inv [folded lab04_program_def], of rc sch] show ?thesis
    by (auto simp: same_airport_def elim: option.rel_cases)
qed

section \<open>Two complete runs\<close>

definition ap_schedule :: "actor list" where
  "ap_schedule = replicate 7 Main @ replicate 5 (Thr 2) @ replicate 2 (Thr 0) @ replicate 3 (Thr 2) @
     replicate 6 (Thr 0) @ concat (map (\<lambda>i. replicate 8 (Thr i)) [4, 3, 1]) @ replicate 7 Main"

definition lab04_end :: "(ap_pc, pthread_mutex_t ap_globals) proc" where
  "lab04_end = the (run (proc_step all_ok lab04_program) ap_schedule (boot lab04_program lab04_globals0))"

definition lab06_end :: "(ap_pc, rk_sema ap_globals) proc" where
  "lab06_end = the (run (proc_step all_ok lab06_program) ap_schedule (boot lab06_program lab06_globals0))"

lemma exited_stuck: "main s = Exited c \<Longrightarrow> \<forall>a. proc_step rc P a s = None"
  by (intro allI, case_tac a) (simp_all add: main_step_def thread_step_def running_def)

theorem airport_mutex_all_land_witness:
  "run (proc_step all_ok lab04_program) ap_schedule (boot lab04_program lab04_globals0) = Some lab04_end \<and>
   (\<exists>ns. set ns = {1..5} \<and> runway_lines (traffic (glob lab04_end)) = landings ns)"
proof -
  have r: "run (proc_step all_ok lab04_program) ap_schedule (boot lab04_program lab04_globals0) = Some lab04_end"
    by code_simp
  have "main lab04_end = Exited 0" by code_simp
  from airport_mutex_all_land [OF r exited_stuck [OF this]] r show ?thesis by blast
qed

theorem airport_semaphore_all_land_witness:
  "run (proc_step all_ok lab06_program) ap_schedule (boot lab06_program lab06_globals0) = Some lab06_end \<and>
   (\<exists>ns. set ns = {1..5} \<and> runway_lines (traffic (glob lab06_end)) = landings ns)"
proof -
  have r: "run (proc_step all_ok lab06_program) ap_schedule (boot lab06_program lab06_globals0) = Some lab06_end"
    by code_simp
  have "main lab06_end = Exited 0" by code_simp
  from airport_semaphore_all_land [OF r exited_stuck [OF this]] r show ?thesis by blast
qed

definition no_third_thread :: rcodes where
  "no_third_thread = \<lparr>create_rc = (\<lambda>i. if i = 2 then 11 else 0), join_rc = (\<lambda>_. 0)\<rparr>"

definition lab04_failed :: "(ap_pc, pthread_mutex_t ap_globals) proc" where
  "lab04_failed =
     the (run (proc_step no_third_thread lab04_program) (replicate 4 Main) (boot lab04_program lab04_globals0))"

theorem airport_failures_exit_witness:
  "main lab04_failed = Exited EXIT_FAILURE \<and> err lab04_failed = [''Error creating thread for airplanes''] \<and>
   (\<exists>i < 5. create_rc no_third_thread i \<noteq> 0 \<or> join_rc no_third_thread i \<noteq> 0)"
proof -
  have r: "run (proc_step no_third_thread lab04_program) (replicate 4 Main) (boot lab04_program lab04_globals0)
      = Some lab04_failed" by code_simp
  have m: "main lab04_failed = Exited 1" by code_simp
  have "err lab04_failed = [''Error creating thread for airplanes'']" by code_simp
  with airport_failures_exit [of no_third_thread] r m exited_stuck [OF m] show ?thesis by fastforce
qed

end
