(* ===== verification/Cpp_Airport.thy ===== *)
theory Cpp_Airport
  imports Cpp_Thread Airport
begin

text \<open>
  The C++ versions of labs 4 and 6 (\<^verbatim>\<open>cpp/cc_lab04.cc\<close>, \<^verbatim>\<open>cpp/cc_lab06.cc\<close>): five airplanes and one
  runway. The landing is the same as in C (theory \<open>Airport\<close>); what differs is the request.
  In lab 4 a plane asks with the mutex in its hands, in a critical section of its own, and
  \<open>main\<close> catches the exceptions of the thread library. In lab 6 \<open>main\<close> itself prints the
  request, before it constructs the plane's thread.
\<close>

section \<open>The programs\<close>

record 'l ca_globals =
  ca_runway :: 'l
  ca_traffic :: "ap_line list"
  ca_closed :: "int list"

datatype ca_pc =
    A_lock i32 | A_ask i32 | A_unlock i32 | A_enter i32 | A_grant i32 | A_land i32 | A_avail i32 | A_leave i32 | A_end

definition ca_say :: "ap_line \<Rightarrow> 'l ca_globals \<Rightarrow> 'l ca_globals" where
  "ca_say x g = g\<lparr>ca_traffic := ca_traffic g @ [x]\<rparr>"

text \<open>
  The lambda \<open>airplanes\<close> of lab 4. That of lab 6 is its second part, from \<open>A_enter\<close> on, with a
  semaphore for the mutex.
\<close>

fun cxx_airplanes ::
  "(nat \<Rightarrow> 'l \<Rightarrow> 'l option) \<Rightarrow> (nat \<Rightarrow> 'l \<Rightarrow> 'l option) \<Rightarrow> nat \<Rightarrow> i32 option \<Rightarrow>
   ca_pc \<Rightarrow> 'l ca_globals \<Rightarrow> (ca_pc, 'l ca_globals) outcome" where
  "cxx_airplanes acquire release i a (A_lock n) g =
     (case acquire i (ca_runway g) of None \<Rightarrow> Blocked | Some l \<Rightarrow> Goto (A_ask n) (g\<lparr>ca_runway := l\<rparr>))"
| "cxx_airplanes acquire release i a (A_ask n) g = Goto (A_unlock n) (ca_say (Request n) g)"
| "cxx_airplanes acquire release i a (A_unlock n) g =
     (case release i (ca_runway g) of None \<Rightarrow> Crash | Some l \<Rightarrow> Goto (A_enter n) (g\<lparr>ca_runway := l\<rparr>))"
| "cxx_airplanes acquire release i a (A_enter n) g =
     (case acquire i (ca_runway g) of None \<Rightarrow> Blocked | Some l \<Rightarrow> Goto (A_grant n) (g\<lparr>ca_runway := l\<rparr>))"
| "cxx_airplanes acquire release i a (A_grant n) g = Goto (A_land n) (ca_say (Granted n) g)"
| "cxx_airplanes acquire release i a (A_land n) g = Goto (A_avail n) (ca_say (Landed n) g)"
| "cxx_airplanes acquire release i a (A_avail n) g = Goto (A_leave n) (ca_say Available g)"
| "cxx_airplanes acquire release i a (A_leave n) g =
     (case release i (ca_runway g) of None \<Rightarrow> Crash | Some l \<Rightarrow> Goto A_end (g\<lparr>ca_runway := l\<rparr>))"
| "cxx_airplanes acquire release i a A_end g = Return g"

definition ca4_program :: "(ca_pc, pthread_mutex_t ca_globals) program" where
  "ca4_program =
     \<lparr>no_th = 5,
      entry = (\<lambda>i. A_lock (int i + 1)),
      slot = (\<lambda>i. i),
      body = cxx_airplanes pthread_mutex_lock pthread_mutex_unlock,
      bad_rc = (\<lambda>r. r \<noteq> 0),
      init = Inr,
      fini = Inr,
      create_msg = (\<lambda>i. []),
      join_msg = [],
      before = (\<lambda>i g. g)\<rparr>"

definition ca4_cxx :: "(ca_pc, pthread_mutex_t ca_globals) cxx_program" where
  "ca4_cxx = \<lparr>prog = ca4_program, catches = True, on_signal = (\<lambda>_. None)\<rparr>"

definition ca4_globals0 :: "pthread_mutex_t ca_globals" where
  "ca4_globals0 = \<lparr>ca_runway = PTHREAD_MUTEX_INITIALIZER, ca_traffic = [], ca_closed = []\<rparr>"

definition ca6_airplane :: "nat \<Rightarrow> i32 option \<Rightarrow> ca_pc \<Rightarrow> rk_sema ca_globals \<Rightarrow> (ca_pc, rk_sema ca_globals) outcome" where
  "ca6_airplane = cxx_airplanes (\<lambda>i. sema_down) (\<lambda>i s. Some (rk_sema_post s))"

text \<open>Constructor (with its assertion) and destructor of the class \<open>Semaphore\<close> of lab 6.\<close>

definition ca6_construct :: "rk_sema ca_globals \<Rightarrow> string + rk_sema ca_globals" where
  "ca6_construct g =
     (case rk_sema_init (ca_runway g) 0 1 of (r, s) \<Rightarrow>
        if r = 0 then Inr (g\<lparr>ca_runway := s\<rparr>) else Inl ''Assertion `r == 0' failed.'')"

definition ca6_destruct :: "rk_sema ca_globals \<Rightarrow> string + rk_sema ca_globals" where
  "ca6_destruct g =
     (case rk_sema_destroy (ca_runway g) of (r, s) \<Rightarrow> Inr (g\<lparr>ca_runway := s, ca_closed := ca_closed g @ [r]\<rparr>))"

definition ca6_program :: "(ca_pc, rk_sema ca_globals) program" where
  "ca6_program =
     \<lparr>no_th = 5,
      entry = (\<lambda>i. A_enter (int i + 1)),
      slot = (\<lambda>i. i),
      body = ca6_airplane,
      bad_rc = (\<lambda>r. r \<noteq> 0),
      init = ca6_construct,
      fini = ca6_destruct,
      create_msg = (\<lambda>i. []),
      join_msg = [],
      before = (\<lambda>i g. ca_say (Request (int i + 1)) g)\<rparr>"

definition ca6_cxx :: "(ca_pc, rk_sema ca_globals) cxx_program" where
  "ca6_cxx = \<lparr>prog = ca6_program, catches = False, on_signal = (\<lambda>_. None)\<rparr>"

definition ca6_globals0 :: "rk_sema ca_globals" where
  "ca6_globals0 = \<lparr>ca_runway = raw_sema, ca_traffic = [], ca_closed = []\<rparr>"

section \<open>What is heard on the radio\<close>

text \<open>
  \<open>calls\<close>: undisturbed requests (\<open>Inl\<close>) and landings (\<open>Inr\<close>), one after the other.
\<close>

fun radio :: "i32 + i32 \<Rightarrow> ap_line list" where
  "radio (Inl n) = [Request n]"
| "radio (Inr n) = [Granted n, Landed n, Available]"

definition calls :: "(i32 + i32) list \<Rightarrow> ap_line list" where
  "calls cs = concat (map radio cs)"

lemma calls_simps [simp]:
  "calls [] = []" "calls (c # cs) = radio c @ calls cs" "calls (cs @ ds) = calls cs @ calls ds"
  by (simp_all add: calls_def)

fun ca_script :: "i32 \<Rightarrow> ca_pc \<Rightarrow> ap_line list" where
  "ca_script n (A_lock _) = []"
| "ca_script n (A_ask _) = []"
| "ca_script n (A_unlock _) = [Request n]"
| "ca_script n (A_enter _) = [Request n]"
| "ca_script n (A_grant _) = [Request n]"
| "ca_script n (A_land _) = [Request n, Granted n]"
| "ca_script n _ = [Request n, Granted n, Landed n]"

fun ca_pc_ok :: "i32 \<Rightarrow> ca_pc \<Rightarrow> bool" where
  "ca_pc_ok n (A_lock m) \<longleftrightarrow> m = n" | "ca_pc_ok n (A_ask m) \<longleftrightarrow> m = n" | "ca_pc_ok n (A_unlock m) \<longleftrightarrow> m = n"
| "ca_pc_ok n (A_enter m) \<longleftrightarrow> m = n" | "ca_pc_ok n (A_grant m) \<longleftrightarrow> m = n" | "ca_pc_ok n (A_land m) \<longleftrightarrow> m = n"
| "ca_pc_ok n (A_avail m) \<longleftrightarrow> m = n" | "ca_pc_ok n (A_leave m) \<longleftrightarrow> m = n" | "ca_pc_ok n A_end \<longleftrightarrow> True"

fun ca_thread_ok :: "i32 \<Rightarrow> ca_pc thread \<Rightarrow> ap_line list \<Rightarrow> bool" where
  "ca_thread_ok n Unborn xs \<longleftrightarrow> of_plane n xs = []"
| "ca_thread_ok n (Live pc) xs \<longleftrightarrow> ca_pc_ok n pc \<and> of_plane n xs = ca_script n pc"
| "ca_thread_ok n Done xs \<longleftrightarrow> of_plane n xs = [Request n, Granted n, Landed n]"

definition ca_side :: "ca_pc thread list \<Rightarrow> 'l ca_globals \<Rightarrow> bool" where
  "ca_side ts g \<longleftrightarrow>
     length ts = 5 \<and> (\<forall>i < 5. ca_thread_ok (int i + 1) (ts ! i) (ca_traffic g)) \<and>
     (\<forall>n. n < 1 \<or> 5 < n \<longrightarrow> of_plane n (ca_traffic g) = []) \<and> ca_closed g = []"

fun ca_inside :: "ca_pc \<Rightarrow> bool" where
  "ca_inside (A_lock n) = False" | "ca_inside (A_enter n) = False" | "ca_inside A_end = False" | "ca_inside _ = True"

fun ca_work :: "ca_pc \<Rightarrow> nat" where
  "ca_work (A_lock n) = 8" | "ca_work (A_ask n) = 7" | "ca_work (A_unlock n) = 6" | "ca_work (A_enter n) = 5"
| "ca_work (A_grant n) = 4" | "ca_work (A_land n) = 3" | "ca_work (A_avail n) = 2" | "ca_work (A_leave n) = 1"
| "ca_work A_end = 0"

text \<open>\<open>view\<close> selects the lines that are said with the runway in hand.\<close>

definition ca_clear :: "(ap_line list \<Rightarrow> ap_line list) \<Rightarrow> 'l ca_globals \<Rightarrow> bool" where
  "ca_clear view g \<longleftrightarrow> (\<exists>cs. view (ca_traffic g) = calls cs)"

fun ca_used :: "(ap_line list \<Rightarrow> ap_line list) \<Rightarrow> ca_pc \<Rightarrow> 'l ca_globals \<Rightarrow> bool" where
  "ca_used view (A_land n) g \<longleftrightarrow> (\<exists>cs. view (ca_traffic g) = calls cs @ [Granted n])"
| "ca_used view (A_avail n) g \<longleftrightarrow> (\<exists>cs. view (ca_traffic g) = calls cs @ [Granted n, Landed n])"
| "ca_used view _ g \<longleftrightarrow> ca_clear view g"

lemma ca_say_simps [simp]:
  "ca_traffic (ca_say x g) = ca_traffic g @ [x]" "ca_runway (ca_say x g) = ca_runway g" "ca_closed (ca_say x g) = ca_closed g"
  by (simp_all add: ca_say_def)

lemma ca_goto_lines:
  assumes "cxx_airplanes acq rel i a pc g = Goto pc' g'" and "ca_pc_ok n pc"
  shows "ca_pc_ok n pc' \<and> ca_closed g' = ca_closed g \<and>
    of_plane n (ca_traffic g') = of_plane n (ca_traffic g) @ drop (length (ca_script n pc)) (ca_script n pc') \<and>
    ca_script n pc = take (length (ca_script n pc)) (ca_script n pc') \<and>
    (\<forall>m. m \<noteq> n \<longrightarrow> of_plane m (ca_traffic g') = of_plane m (ca_traffic g))"
  using assms by (cases pc) (auto split: option.splits)

lemma ca_side_goto:
  assumes s: "ca_side ts g" and i: "i < 5" and pc: "ts ! i = Live pc"
    and b: "cxx_airplanes acq rel i a pc g = Goto pc' g'"
  shows "ca_side (ts[i := Live pc']) g'"
proof -
  from s i pc have ok: "ca_thread_ok (int i + 1) (Live pc) (ca_traffic g)" unfolding ca_side_def by metis
  then have pcok: "ca_pc_ok (int i + 1) pc" by simp
  note ca = ca_goto_lines [OF b pcok]
  have me: "ca_thread_ok (int i + 1) (Live pc') (ca_traffic g')"
    using ca ok by (metis append_take_drop_id ca_thread_ok.simps(2))
  have others: "ca_thread_ok n t (ca_traffic g') = ca_thread_ok n t (ca_traffic g)" if "n \<noteq> int i + 1" for n t
    using ca that by (cases t) auto
  from s me others i ca show ?thesis by (auto simp: ca_side_def nth_list_update)
qed

lemma ca_side_done:
  assumes "ca_side ts g" and "i < 5" and "ts ! i = Live A_end"
  shows "ca_side (ts[i := Done]) g"
  using assms unfolding ca_side_def by (auto simp: nth_list_update)

lemma ca_return: "cxx_airplanes acq rel i a pc g = Return g' \<Longrightarrow> pc = A_end \<and> g' = g"
  by (cases pc) (auto split: option.splits)

section \<open>Correctness over any lock\<close>

text \<open>The two programs: a plane asks by itself, or \<open>main\<close> asks for it.\<close>

locale cxx_airport = lock acquire release held
  for acquire :: "nat \<Rightarrow> 'l \<Rightarrow> 'l option"
    and release :: "nat \<Rightarrow> 'l \<Rightarrow> 'l option"
    and held :: "'l \<Rightarrow> nat option \<Rightarrow> bool" +
  fixes P :: "(ca_pc, 'l ca_globals) program"
    and g0 :: "'l ca_globals"
    and view :: "ap_line list \<Rightarrow> ap_line list"
  assumes ca_P [simp]: "no_th P = 5" "slot P i = i" "bad_rc P r \<longleftrightarrow> r \<noteq> 0" "body P = cxx_airplanes acquire release"
    and ca_asks: "(\<forall>i. entry P i = A_lock (int i + 1)) \<and> before P = (\<lambda>i g. g) \<or>
      (\<forall>i. entry P i = A_enter (int i + 1)) \<and> before P = (\<lambda>i. ca_say (Request (int i + 1))) \<and>
      (\<forall>n. view [Request n] = [])"
    and ca_start: "\<exists>g. init P g0 = Inr g \<and> held (ca_runway g) None \<and> ca_traffic g = [] \<and> ca_closed g = []"
    and ca_fini: "held (ca_runway g) None \<Longrightarrow> \<exists>h. fini P g = Inr h"
    and view_append: "view (xs @ ys) = view xs @ view ys"
    and view_runway: "on_runway x \<Longrightarrow> view [x] = [x]"
    and view_request: "view [Request n] = [] \<or> view [Request n] = [Request n]"
begin

lemma view_Nil: "view [] = []"
  using view_append [of "[]" "[]"] by simp

lemma ca_clear_request: "ca_clear view g \<Longrightarrow> ca_clear view (ca_say (Request n) g)"
proof -
  assume "ca_clear view g"
  then obtain cs where cs: "view (ca_traffic g) = calls cs" by (auto simp: ca_clear_def)
  have "view (ca_traffic g) @ view [Request n] = calls (if view [Request n] = [] then cs else cs @ [Inl n])"
    using view_request [of n] by (auto simp: cs)
  then show ?thesis unfolding ca_clear_def ca_say_simps view_append by (rule exI)
qed

lemma ca_used_goto:
  assumes "cxx_airplanes acquire release i a pc g = Goto pc' g'" and "ca_inside pc" and "ca_used view pc g"
  shows "if ca_inside pc' then ca_used view pc' g' else ca_clear view g'"
proof (cases pc)
  case (A_avail n)
  with assms obtain cs where cs: "view (ca_traffic g) = calls cs @ [Granted n, Landed n]" "pc' = A_leave n" "g' = ca_say Available g"
    by auto
  then have "view (ca_traffic g') = calls (cs @ [Inr n])" by (simp add: view_append view_runway)
  with cs(2) show ?thesis by (auto simp: ca_clear_def simp del: calls_simps)
next
  case (A_ask n)
  with assms ca_clear_request [of g n] show ?thesis by auto
qed (use assms in \<open>auto simp: ca_clear_def view_append view_runway split: option.splits\<close>)

lemma ca_birth:
  assumes s: "ca_side ts g" and i: "i < 5" and "ts ! i = Unborn"
  shows "ca_side (ts[i := Live (entry P i)]) (before P i g)"
proof -
  from s i assms(3) have no: "of_plane (int i + 1) (ca_traffic g) = []" by (auto simp: ca_side_def)
  have same: "ca_thread_ok n t (ca_traffic (before P i g)) = ca_thread_ok n t (ca_traffic g)" if "n \<noteq> int i + 1" for n t
    using ca_asks that by (cases t) auto
  have "ca_thread_ok (int i + 1) (Live (entry P i)) (ca_traffic (before P i g))"
    using ca_asks no by auto
  moreover have "of_plane n (ca_traffic (before P i g)) = of_plane n (ca_traffic g)" if "n \<noteq> int i + 1" for n
    using ca_asks that by auto
  moreover have "ca_closed (before P i g) = ca_closed g" using ca_asks by auto
  ultimately show ?thesis using s i same by (auto simp: ca_side_def nth_list_update)
qed

sublocale lp: locked_program acquire release held P ca_runway ca_inside ca_side "ca_used view" "ca_clear view" g0 ca_work
proof (unfold_locales, goal_cases)
  case (1 i)
  then show ?case using ca_asks by auto
next
  case (2 i a pc g pc' g') then show ?case by (cases pc) (auto split: option.splits)
next
  case (3 i a pc g pc' g') then show ?case by (cases pc) (auto split: option.splits)
next
  case (4 i a pc g pc' g') then show ?case by (cases pc) (auto split: option.splits)
next
  case (5 i a pc g g') then show ?case by (auto dest: ca_return)
next
  case (6 ts g i pc pc' g') then show ?case by (cases pc) (auto simp: ca_clear_def split: option.splits)
next
  case (7 ts g i pc pc' g') then show ?case using ca_used_goto [of i _ pc g pc' g'] by auto
next
  case (8 ts g i pc pc' g') then show ?case using ca_used_goto [of i _ pc g pc' g'] by auto
next
  case (9 i pc g pc' g')
  then have eq: "ca_traffic g' = ca_traffic g" by (cases pc) (auto split: option.splits)
  have "ca_used view q g' = ca_used view q g" for q by (cases q) (auto simp: ca_clear_def eq)
  then show ?case by (simp add: ca_clear_def eq)
next
  case (10 i pc g g') then show ?case by (auto dest: ca_return)
next
  case 13
  from ca_start obtain g where "init P g0 = Inr g" "held (ca_runway g) None" "ca_traffic g = []" "ca_closed g = []" by auto
  moreover from this view_Nil have "ca_clear view g" by (auto simp: ca_clear_def intro: exI [of _ "[]"])
  ultimately show ?case by (auto simp: ca_side_def)
next
  case (14 g) then show ?case by (auto intro: ca_fini)
next
  case (15 ts g i) then show ?case by (auto intro: ca_birth)
next
  case (18 ts g i pc) then show ?case by (cases pc) (auto split: option.splits)
next
  case (19 i a pc g) then show ?case by (cases pc) (auto split: option.splits)
next
  case (20 ts g i pc pc' g') then show ?case by (cases pc) (auto split: option.splits)
next
  case (21 i g)
  have keep: "view (ca_traffic (before P i g)) = view (ca_traffic g) \<and> ca_runway (before P i g) = ca_runway g"
    using ca_asks by (auto simp: view_append)
  have "ca_used view q (before P i g) = ca_used view q g" for q
    using keep by (cases q) (auto simp: ca_clear_def)
  with keep show ?case by (simp add: ca_clear_def)
qed (auto dest: ca_return intro: ca_side_goto ca_side_done)

end

section \<open>Lab 4\<close>

interpretation ca4: cxx_airport pthread_mutex_lock pthread_mutex_unlock "\<lambda>m h. owner m = h" ca4_program ca4_globals0 "\<lambda>xs. xs"
  by unfold_locales (auto simp: ca4_program_def ca4_globals0_def PTHREAD_MUTEX_INITIALIZER_def)

interpretation ca4x: cxx_locked pthread_mutex_lock pthread_mutex_unlock "\<lambda>m h. owner m = h" ca4_program
  ca_runway ca_inside ca_side "ca_used (\<lambda>xs. xs)" "ca_clear (\<lambda>xs. xs)" ca4_globals0 ca_work ca4_cxx
  by unfold_locales (simp_all add: ca4_cxx_def)

lemma ca_lands:
  assumes "ca_side (replicate 5 Done) g" and "n \<in> {1..5}"
  shows "of_plane n (ca_traffic g) = [Request n, Granted n, Landed n]"
proof -
  from assms(2) have "nat (n - 1) < 5" "int (nat (n - 1)) + 1 = n" by auto
  with assms(1) show ?thesis unfolding ca_side_def by (metis ca_thread_ok.simps(3) nth_replicate)
qed

text \<open>
  C9. In the C++ version of lab 4 nothing at all is said during a landing: under every
  schedule the whole transcript is a sequence of single requests and whole landings, and every
  plane asks, is granted and lands, once each and in this order. If a thread cannot be
  constructed, \<open>main\<close> catches the exception, but unless it was the first thread the process is
  terminated all the same, because the vector of joinable threads is destroyed.
\<close>

theorem cpp_airport_mutex:
  assumes "run (cxx_step e ca4_cxx) sch (Alive (boot ca4_program ca4_globals0)) = Some st"
    and "\<forall>a. cxx_step e ca4_cxx a st = None"
  shows "if \<exists>i < 5. throws e i then \<exists>s. st = (if throws e 0 then Returned s else Terminated s)
    else \<exists>s cs. st = Alive s \<and> main s = Exited EXIT_SUCCESS \<and> err s = [] \<and> ca_traffic (glob s) = calls cs \<and>
      (\<forall>n \<in> {1..5}. of_plane n (ca_traffic (glob s)) = [Request n, Granted n, Landed n])"
proof (cases "\<exists>i < 5. throws e i")
  case True
  with ca4x.cxx_ended [OF assms] show ?thesis by (simp add: ca4_cxx_def)
next
  case False
  with ca4x.cxx_ended [OF assms] obtain s where "st = Alive s" "main s = Exited EXIT_SUCCESS" "err s = []"
      "ca_clear (\<lambda>xs. xs) (glob s)" "ca_side (replicate 5 Done) (glob s)"
    by (auto simp: ca4_program_def)
  with False ca_lands [of "glob s"] show ?thesis by (auto simp: ca_clear_def)
qed

text \<open>The third thread cannot be constructed: two threads are joinable when \<open>main\<close> returns.\<close>

definition third_fails :: cxx_env where
  "third_fails = \<lparr>throws = (\<lambda>i. i = 2), what = ''Resource temporarily unavailable'', code = ''generic:11''\<rparr>"

theorem cpp_airport_mutex_witness:
  "(\<exists>sch s. run (cxx_step all_start ca4_cxx) sch (Alive (boot ca4_program ca4_globals0)) = Some (Alive s) \<and>
     of_plane 3 (ca_traffic (glob s)) = [Request 3, Granted 3, Landed 3]) \<and>
   (\<exists>sch s. run (cxx_step third_fails ca4_cxx) sch (Alive (boot ca4_program ca4_globals0)) = Some (Terminated s))"
proof -
  obtain sch st where r: "run (cxx_step all_start ca4_cxx) sch (Alive (boot ca4_program ca4_globals0)) = Some st"
      "\<forall>a. cxx_step all_start ca4_cxx a st = None"
    using ca4x.cc.cxx_can_end by blast
  obtain sch' st' where r': "run (cxx_step third_fails ca4_cxx) sch' (Alive (boot ca4_program ca4_globals0)) = Some st'"
      "\<forall>a. cxx_step third_fails ca4_cxx a st' = None"
    using ca4x.cc.cxx_can_end by blast
  have "\<exists>i < 5. throws third_fails i" "\<not> throws third_fails 0" by (auto simp: third_fails_def)
  with cpp_airport_mutex [OF r'] have "\<exists>s. st' = Terminated s" by simp
  moreover have "\<not> throws all_start i" for i by (simp add: all_start_def)
  with cpp_airport_mutex [OF r] have "\<exists>s. st = Alive s \<and> of_plane 3 (ca_traffic (glob s)) = [Request 3, Granted 3, Landed 3]"
    by auto
  ultimately show ?thesis using r(1) r'(1) by blast
qed

section \<open>Lab 6\<close>

interpretation ca6: cxx_airport "\<lambda>i. sema_down" "\<lambda>i s. Some (rk_sema_post s)" "\<lambda>s h. sema_holds s (if h = None then 1 else 0)"
  ca6_program ca6_globals0 runway_lines
proof (unfold_locales, goal_cases)
  case 6
  show ?case by (auto simp: ca6_program_def ca6_construct_def ca6_globals0_def sem_simps sema_holds_def SEM_VALUE_MAX_def)
next
  case (7 g)
  then show ?case by (auto simp: ca6_program_def ca6_destruct_def split: prod.splits)
qed (auto simp: ca6_program_def ca6_airplane_def)

interpretation ca6x: cxx_locked "\<lambda>i. sema_down" "\<lambda>i s. Some (rk_sema_post s)" "\<lambda>s h. sema_holds s (if h = None then 1 else 0)"
  ca6_program ca_runway ca_inside ca_side "ca_used runway_lines" "ca_clear runway_lines" ca6_globals0 ca_work ca6_cxx
  by unfold_locales (simp_all add: ca6_cxx_def)

text \<open>
  In the C++ version of lab 6 the landings never overlap either, for every schedule, and each
  plane is heard to ask before it is granted the runway, although it is \<open>main\<close> that asks; the
  semaphore is destroyed without an error at the end. If a thread cannot be constructed, the
  uncaught exception terminates the process.
\<close>

theorem cpp_airport_semaphore:
  assumes "run (cxx_step e ca6_cxx) sch (Alive (boot ca6_program ca6_globals0)) = Some st"
    and "\<forall>a. cxx_step e ca6_cxx a st = None"
  shows "if \<exists>i < 5. throws e i then \<exists>s. st = Terminated s
    else \<exists>s cs. st = Alive s \<and> main s = Exited EXIT_SUCCESS \<and> runway_lines (ca_traffic (glob s)) = calls cs \<and>
      (\<forall>n \<in> {1..5}. of_plane n (ca_traffic (glob s)) = [Request n, Granted n, Landed n]) \<and> ca_closed (glob s) = [0]"
proof (cases "\<exists>i < 5. throws e i")
  case True
  with ca6x.cxx_ended [OF assms] show ?thesis by (simp add: ca6_cxx_def)
next
  case False
  with ca6x.cxx_ended [OF assms] obtain s h where s: "st = Alive s" "main s = Exited EXIT_SUCCESS" "ca6_destruct h = Inr (glob s)"
      "sema_holds (ca_runway h) 1" "ca_clear runway_lines h" "ca_side (replicate 5 Done) h"
    by (auto simp: ca6_program_def)
  then have g: "ca_traffic (glob s) = ca_traffic h" "ca_closed (glob s) = ca_closed h @ [0]"
    by (auto simp: ca6_destruct_def sema_holds_def sem_simps dest!: sym [of _ "glob s"])
  with False s ca_lands [OF s(6)] show ?thesis by (auto simp: ca_clear_def ca_side_def)
qed

theorem cpp_airport_semaphore_witness:
  "\<exists>sch s. run (cxx_step all_start ca6_cxx) sch (Alive (boot ca6_program ca6_globals0)) = Some (Alive s) \<and>
     ca_closed (glob s) = [0]"
proof -
  obtain sch st where r: "run (cxx_step all_start ca6_cxx) sch (Alive (boot ca6_program ca6_globals0)) = Some st"
      "\<forall>a. cxx_step all_start ca6_cxx a st = None"
    using ca6x.cc.cxx_can_end by blast
  with cpp_airport_semaphore [OF r] show ?thesis by (auto simp: all_start_def)
qed

end
