(* ===== verification/Cpp_Matrix.thy ===== *)
theory Cpp_Matrix
  imports Pthread
begin

text \<open>
  \<^verbatim>\<open>cpp/cc_lab02_b.cc\<close>: the class template \<open>Matrix<N, M>\<close> over a \<open>std::valarray<int>\<close>, with element
  access that throws \<open>std::out_of_range\<close> and rows and columns as slices, and a \<open>main\<close> that adds
  two matrices with one asynchronous task per column. The dimensions are arbitrary.

  Positions in the array are numbers of type \<open>size_t\<close>, so sums and products of them wrap around at
  \<open>2 ^ 64\<close> (\<open>sz\<close>): from that many elements on, the array is shorter than the matrix.

  An exception is a value of a sum type, and so is an access outside of the array (\<open>beyond_array\<close>),
  which is undefined. A slice is the list of the indices it covers.
  A task evaluates its column of \<open>a\<close> (and then of \<open>b\<close>), which copies it, and adds it to the column
  of \<open>res\<close> element by element; load and store of an element of \<open>res\<close> are separate actions, as
  nothing protects them. A task that \<open>std::async\<close> defers until \<open>get\<close> is one that the schedule
  starts late; \<open>get\<close> joins it. An exception in a task would come out of \<open>get\<close>; that tasks throw
  none is part of the theorem.
\<close>

section \<open>The class\<close>

datatype exc = out_of_range string | beyond_array

type_synonym valarray = "i32 list"

definition sz :: "nat \<Rightarrow> nat" where
  "sz n = nat (int n mod 2 ^ 64)"

definition slice :: "nat \<Rightarrow> nat \<Rightarrow> nat \<Rightarrow> nat list" where
  "slice start n stride = map (\<lambda>k. sz (start + k * stride)) [0..<n]"

text \<open>Reading one element and several.\<close>

definition elem :: "valarray \<Rightarrow> nat \<Rightarrow> exc + i32" where
  "elem arr k = (if k < length arr then Inr (arr ! k) else Inl beyond_array)"

definition elems :: "valarray \<Rightarrow> nat list \<Rightarrow> exc + valarray" where
  "elems arr ks = (if list_all (\<lambda>k. k < length arr) ks then Inr (map ((!) arr) ks) else Inl beyond_array)"


definition mat_ref_const :: "nat \<Rightarrow> nat \<Rightarrow> nat \<Rightarrow> nat \<Rightarrow> exc + nat" where
  "mat_ref_const N M x y =
     (if N \<le> x \<or> M \<le> y then Inl (out_of_range ''const () out of range'') else Inr (sz (x * M + y)))"

definition mat_at_const :: "nat \<Rightarrow> nat \<Rightarrow> nat \<Rightarrow> nat \<Rightarrow> valarray \<Rightarrow> exc + i32" where
  "mat_at_const N M x y arr = (case mat_ref_const N M x y of Inl x \<Rightarrow> Inl x | Inr k \<Rightarrow> elem arr k)"

definition mat_row :: "nat \<Rightarrow> nat \<Rightarrow> nat \<Rightarrow> exc + nat list" where
  "mat_row N M n = (if N \<le> n then Inl (out_of_range ''row out of range'') else Inr (slice (sz (n * M)) M 1))"

definition mat_row_const :: "nat \<Rightarrow> nat \<Rightarrow> nat \<Rightarrow> valarray \<Rightarrow> exc + valarray" where
  "mat_row_const N M n arr =
     (if N \<le> n then Inl (out_of_range ''const row out of range'') else elems arr (slice (sz (n * M)) M 1))"

definition mat_col :: "nat \<Rightarrow> nat \<Rightarrow> nat \<Rightarrow> exc + nat list" where
  "mat_col N M n = (if M \<le> n then Inl (out_of_range ''col out of range'') else Inr (slice n N M))"

definition mat_col_const :: "nat \<Rightarrow> nat \<Rightarrow> nat \<Rightarrow> valarray \<Rightarrow> exc + valarray" where
  "mat_col_const N M n arr =
     (if M \<le> n then Inl (out_of_range ''const col out of range'') else elems arr (slice n N M))"

text \<open>\<open>std::iota\<close> increments its value after each element; overflow is undefined.\<close>

fun iota :: "nat \<Rightarrow> i32 \<Rightarrow> valarray option" where
  "iota 0 v = Some []"
| "iota (Suc n) v =
     (case i32_check (v + 1) of None \<Rightarrow> None | Some w \<Rightarrow> (case iota n w of None \<Rightarrow> None | Some vs \<Rightarrow> Some (v # vs)))"

text \<open>Assignment of a \<open>valarray\<close> to a slice.\<close>

fun slice_assign :: "nat list \<Rightarrow> valarray \<Rightarrow> valarray \<Rightarrow> valarray" where
  "slice_assign (i # is) (v # vs) arr = slice_assign is vs (arr[i := v])"
| "slice_assign _ _ arr = arr"

fun fill_rows :: "nat \<Rightarrow> nat \<Rightarrow> valarray \<Rightarrow> nat list \<Rightarrow> valarray \<Rightarrow> exc + valarray" where
  "fill_rows N M v [] arr = Inr arr"
| "fill_rows N M v (i # is) arr =
     (case mat_row N M i of
        Inl x \<Rightarrow> Inl x
      | Inr sl \<Rightarrow>
          if list_all (\<lambda>k. k < length arr) sl then fill_rows N M v is (slice_assign sl v arr) else Inl beyond_array)"

text \<open>
  The default constructor; \<open>None\<close> when an assertion fails or \<open>std::iota\<close> overflows, an inner \<open>Inl\<close>
  when \<open>row\<close> throws. The constructor from a value.
\<close>

definition mat_iota :: "nat \<Rightarrow> nat \<Rightarrow> (exc + valarray) option" where
  "mat_iota N M =
     (if 0 < N \<and> 0 < M then
        (case iota M 1 of None \<Rightarrow> None | Some v \<Rightarrow> Some (fill_rows N M v [0..<N] (replicate (sz (N * M)) 0)))
      else None)"

definition mat_value :: "nat \<Rightarrow> nat \<Rightarrow> i32 \<Rightarrow> valarray option" where
  "mat_value N M v = (if 0 < N \<and> 0 < M then Some (replicate (sz (N * M)) v) else None)"

text \<open>The operator \<open><<\<close>: one line per row, copied from the address of its first element.\<close>

fun mat_print :: "nat \<Rightarrow> nat \<Rightarrow> valarray \<Rightarrow> nat list \<Rightarrow> exc + i32 list list" where
  "mat_print N M arr [] = Inr []"
| "mat_print N M arr (i # is) =
     (case mat_ref_const N M i 0 of
        Inl x \<Rightarrow> Inl x
      | Inr k \<Rightarrow>
          (case elems arr [k..<k + M] of
             Inl x \<Rightarrow> Inl x
           | Inr l \<Rightarrow> (case mat_print N M arr is of Inl x \<Rightarrow> Inl x | Inr ls \<Rightarrow> Inr (l # ls))))"

section \<open>The program\<close>

datatype mx_line = Text string | Row "i32 list"

record mx_globals =
  mx_a :: valarray
  mx_b :: valarray
  mx_res :: valarray
  mx_out :: "mx_line list"

datatype mx_pc =
    X_eval nat bool
  | X_load nat bool "nat list" valarray nat
  | X_store nat bool "nat list" valarray nat i32
  | X_end

text \<open>
  The lambda \<open>fn_task\<close>, with its argument \<open>n\<close>; the flag tells the second \<open>+=\<close> from the first.
\<close>

fun fn_task :: "nat \<Rightarrow> nat \<Rightarrow> mx_pc \<Rightarrow> mx_globals \<Rightarrow> (mx_pc, mx_globals) outcome" where
  "fn_task N M (X_eval n sec) g =
     (case (mat_col N M n, mat_col_const N M n (if sec then mx_b g else mx_a g)) of
        (Inr sl, Inr vs) \<Rightarrow> Goto (X_load n sec sl vs 0) g
      | _ \<Rightarrow> Crash)"
| "fn_task N M (X_load n sec sl vs k) g =
     (if k < length sl then
        (if sl ! k < length (mx_res g) then Goto (X_store n sec sl vs k (mx_res g ! (sl ! k))) g else Crash)
      else Goto (if sec then X_end else X_eval n True) g)"
| "fn_task N M (X_store n sec sl vs k x) g =
     (case i32_check (x + vs ! k) of
        None \<Rightarrow> Crash
      | Some y \<Rightarrow> Goto (X_load n sec sl vs (k + 1)) (g\<lparr>mx_res := (mx_res g)[sl ! k := y]\<rparr>))"
| "fn_task N M X_end g = Return g"

text \<open>
  \<open>main\<close> up to the creation of the tasks, and after the last \<open>get\<close>. The branches that end the
  program early (an assertion, an exception, an access outside of the array) give what is reported;
  they are not taken when \<open>N\<close> and \<open>M\<close> are positive and \<open>N * M\<close> is a \<open>size_t\<close>, so that the exit status
  of the skeleton (the handlers of \<open>main\<close> would go on to return 0) does not matter.
\<close>

fun mx_report :: "exc \<Rightarrow> string" where
  "mx_report (out_of_range m) = ''range: '' @ m"
| "mx_report beyond_array = ''undefined''"

definition mx_init :: "nat \<Rightarrow> nat \<Rightarrow> i32 \<Rightarrow> mx_globals \<Rightarrow> string + mx_globals" where
  "mx_init N M bval g =
     (case (mat_iota N M, mat_value N M bval, mat_value N M 0) of
        (Some (Inr a), Some b, Some res) \<Rightarrow>
          (case (mat_print N M a [0..<N], mat_print N M b [0..<N]) of
             (Inr la, Inr lb) \<Rightarrow>
               Inr (g\<lparr>mx_a := a, mx_b := b, mx_res := res,
                      mx_out := mx_out g @ [Text ''A:''] @ map Row la @ [Text ''B: ''] @ map Row lb\<rparr>)
           | (Inl x, _) \<Rightarrow> Inl (mx_report x)
           | (_, Inl x) \<Rightarrow> Inl (mx_report x))
      | (Some (Inl x), _, _) \<Rightarrow> Inl (mx_report x)
      | _ \<Rightarrow> Inl ''Assertion failed'')"

definition mx_fini :: "nat \<Rightarrow> nat \<Rightarrow> mx_globals \<Rightarrow> string + mx_globals" where
  "mx_fini N M g =
     (case mat_print N M (mx_res g) [0..<N] of
        Inr ls \<Rightarrow> Inr (g\<lparr>mx_out := mx_out g @ [Text ''result: ''] @ map Row ls\<rparr>)
      | Inl x \<Rightarrow> Inl (mx_report x))"

text \<open>One task per column; the message between the creation of the tasks and the first \<open>get\<close> is left out.\<close>

definition mx_program :: "nat \<Rightarrow> nat \<Rightarrow> i32 \<Rightarrow> (mx_pc, mx_globals) program" where
  "mx_program N M bval =
     \<lparr>no_th = M,
      entry = (\<lambda>n. X_eval n False),
      slot = (\<lambda>n. n),
      body = (\<lambda>n a. fn_task N M),
      bad_rc = (\<lambda>r. r \<noteq> 0),
      init = mx_init N M bval,
      fini = mx_fini N M,
      create_msg = (\<lambda>i. []),
      join_msg = [],
      before = (\<lambda>i g. g)\<rparr>"

definition mx_globals0 :: mx_globals where
  "mx_globals0 = \<lparr>mx_a = [], mx_b = [], mx_res = [], mx_out = []\<rparr>"

section \<open>Slices\<close>

lemma length_slice [simp]: "length (slice s n d) = n"
  by (simp add: slice_def)

lemma sz_eq [simp]: "int n < 2 ^ 64 \<Longrightarrow> sz n = n"
  by (simp add: sz_def)


lemma sz_le: "sz n \<le> n"
  by (simp add: sz_def nat_le_iff zmod_le_nonneg_dividend)

lemma sz_add [simp]: "sz (sz a + b) = sz (a + b)" "sz (a + sz b) = sz (a + b)"
  by (simp_all add: sz_def mod_simps)

lemma slice_nth [simp]: "k < n \<Longrightarrow> slice s n d ! k = sz (s + k * d)"
  by (simp add: slice_def)

lemma index_less: "x < N \<Longrightarrow> y < M \<Longrightarrow> x * M + y < N * (M::nat)"
  by (metis add.commute add_less_cancel_left less_le_trans mult_Suc Suc_leI mult_le_mono1)

lemma index_inject: "y < M \<Longrightarrow> y' < M \<Longrightarrow> x * M + y = x' * M + y' \<longleftrightarrow> x = x' \<and> y = (y'::nat)"
  by (metis add.commute div_mult_self1 div_less mod_mult_self1 mod_less not_less_zero add_0 gr_zeroI)

text \<open>The dimensions are such that the number of elements is a \<open>size_t\<close>.\<close>

definition fits :: "nat \<Rightarrow> nat \<Rightarrow> bool" where
  "fits N M \<longleftrightarrow> int (N * M) < 2 ^ 64"

lemma sz_fits [simp]: "fits N M \<Longrightarrow> sz (N * M) = N * M"
  by (simp add: fits_def)

lemma sz_below: "fits N M \<Longrightarrow> k \<le> N * M \<Longrightarrow> sz k = k"
  by (rule sz_eq) (simp add: fits_def del: of_nat_mult)

lemma sz_index:
  assumes "fits N M" and "x < N" and "y < M"
  shows "sz (x * M + y) = x * M + y"
  using sz_below [OF assms(1)] index_less [OF assms(2,3)] by simp

lemma row_below: "x < N \<Longrightarrow> x * M + M \<le> N * (M::nat)"
  by (metis add.commute mult_Suc mult_le_mono1 Suc_leI)

lemma sz_row:
  assumes "fits N M" and "x < N"
  shows "sz (x * M) = x * M"
  using assms(2) by (intro sz_below [OF assms(1)]) simp


lemma elems_eq: "(\<And>k. k \<in> set ks \<Longrightarrow> k < length arr) \<Longrightarrow> elems arr ks = Inr (map ((!) arr) ks)"
  by (simp add: elems_def list_all_iff)



section \<open>The constructors and the printer\<close>

lemma iota_eq: "INT32_MIN \<le> v + 1 \<Longrightarrow> v + int n \<le> INT32_MAX \<Longrightarrow> iota n v = Some (map (\<lambda>k. v + int k) [0..<n])"
proof (induction n arbitrary: v)
  case (Suc n)
  then have "i32_check (v + 1) = Some (v + 1)" by simp
  moreover from Suc have "iota n (v + 1) = Some (map (\<lambda>k. v + 1 + int k) [0..<n])" by simp
  moreover have "map (\<lambda>k. v + int k) [0..<Suc n] = v # map (\<lambda>k. v + 1 + int k) [0..<n]"
    by (rule nth_equalityI) (auto simp: nth_Cons' simp del: upt_Suc)
  ultimately show ?case by simp
qed simp

lemma slice_upt: "int (s + n) < 2 ^ 64 \<Longrightarrow> slice s n 1 = [s..<s + n]"
  by (rule nth_equalityI) auto

lemma slice_row:
  assumes "fits N M" and "x < N"
  shows "slice (sz (x * M)) M (Suc 0) = [x * M..<x * M + M]"
proof -
  have "int (x * M + M) < 2 ^ 64"
    using row_below [OF assms(2), of M] assms(1) unfolding fits_def by linarith
  from slice_upt [OF this] show ?thesis by (simp only: sz_row [OF assms] One_nat_def)
qed

lemma slice_assign_length [simp]: "length (slice_assign is vs arr) = length arr"
  by (induction "is" vs arr rule: slice_assign.induct) auto

lemma slice_assign_nth:
  assumes "s + length vs \<le> length arr" and "j < length arr"
  shows "slice_assign [s..<s + length vs] vs arr ! j = (if s \<le> j \<and> j < s + length vs then vs ! (j - s) else arr ! j)"
  using assms
proof (induction vs arbitrary: s arr)
  case (Cons v vs)
  from Cons.IH [of "Suc s" "arr[s := v]"] Cons.prems show ?case
    by (auto simp: upt_conv_Cons nth_list_update nth_Cons' simp del: upt_Suc)
qed simp

lemma fill_rows_nth:
  assumes "fits N M" and "set is \<subseteq> {..<N}" and "length arr = N * M" and "length v = M"
  shows "\<exists>arr'. fill_rows N M v is arr = Inr arr' \<and> length arr' = N * M \<and>
    (\<forall>x < N. \<forall>y < M. arr' ! (x * M + y) = (if x \<in> set is then v ! y else arr ! (x * M + y)))"
  using assms(2-4)
proof (induction "is" arbitrary: arr)
  case (Cons i "is")
  let ?arr = "slice_assign [i * M..<i * M + M] v arr"
  have bound: "i * M + M \<le> N * M" using Cons.prems(1) by (intro row_below) simp
  have at: "?arr ! (x * M + y) = (if x = i then v ! y else arr ! (x * M + y))" if "x < N" "y < M" for x y
  proof -
    have "i * M \<le> x * M + y \<and> x * M + y < i * M + M \<longleftrightarrow> x = i"
    proof
      assume a: "i * M \<le> x * M + y \<and> x * M + y < i * M + M"
      then have "(x * M + y) div M = i"
        by (metis add.commute div_nat_eqI mult.commute mult_Suc)
      with that show "x = i" by simp
    qed (use that in simp)
    with that index_less [OF that] bound Cons.prems show ?thesis
      by (subst Cons.prems(3) [symmetric], subst slice_assign_nth) auto
  qed
  from Cons.prems assms(1) have row: "mat_row N M i = Inr [i * M..<i * M + M]" by (simp add: mat_row_def slice_row)
  have "list_all (\<lambda>k. k < length arr) [i * M..<i * M + M]" using bound Cons.prems(2) by (auto simp: list_all_iff)
  moreover have "length ?arr = N * M" using Cons.prems(2) by simp
  from Cons.IH [OF _ this Cons.prems(3)] Cons.prems(1) obtain arr' where
    "fill_rows N M v is ?arr = Inr arr'" "length arr' = N * M"
    "\<forall>x < N. \<forall>y < M. arr' ! (x * M + y) = (if x \<in> set is then v ! y else ?arr ! (x * M + y))" by auto
  ultimately show ?case using row at by auto
qed auto

lemma mat_iota_eq:
  assumes "0 < N" "0 < M" "int M + 1 \<le> INT32_MAX" "fits N M"
  shows "\<exists>a. mat_iota N M = Some (Inr a) \<and> length a = N * M \<and> (\<forall>x < N. \<forall>y < M. a ! (x * M + y) = int y + 1)"
proof -
  have "iota M 1 = Some (map (\<lambda>k. 1 + int k) [0..<M])" using assms(3) by (intro iota_eq) auto
  moreover have "set [0..<N] \<subseteq> {..<N}" by auto
  from fill_rows_nth [OF assms(4) this, of "replicate (N * M) 0" "map (\<lambda>k. 1 + int k) [0..<M]"]
  obtain a where "fill_rows N M (map (\<lambda>k. 1 + int k) [0..<M]) [0..<N] (replicate (N * M) 0) = Inr a"
      "length a = N * M" "\<forall>x < N. \<forall>y < M. a ! (x * M + y) = int y + 1"
    by (auto simp: add.commute)
  ultimately show ?thesis using assms(1,2) sz_fits [OF assms(4)] by (simp add: mat_iota_def)
qed

lemma mat_print_eq:
  assumes "set is \<subseteq> {..<N}" and "0 < M" and "fits N M" and "length arr = N * M"
  shows "mat_print N M arr is = Inr (map (\<lambda>i. map ((!) arr) [i * M..<i * M + M]) is)"
  using assms(1)
proof (induction "is")
  case (Cons i "is")
  then have "elems arr [i * M..<i * M + M] = Inr (map ((!) arr) [i * M..<i * M + M])"
    using row_below [of i N M] assms(4) by (intro elems_eq) auto
  with Cons assms(2,3) show ?case by (simp add: mat_ref_const_def sz_row)
qed simp

text \<open>The lines of a matrix whose rows are all equal.\<close>

lemma mat_print_rows:
  assumes "0 < M" and "\<And>x y. x < N \<Longrightarrow> y < M \<Longrightarrow> arr ! (x * M + y) = f y" and "fits N M" and "length arr = N * M"
  shows "mat_print N M arr [0..<N] = Inr (replicate N (map f [0..<M]))"
proof -
  have "map ((!) arr) [i * M..<i * M + M] = map f [0..<M]" if "i < N" for i
    using assms(2) [OF that] by (intro nth_equalityI) auto
  then have "map (\<lambda>i. map ((!) arr) [i * M..<i * M + M]) [0..<N] = replicate N (map f [0..<M])"
    by (intro nth_equalityI) auto
  with assms(1,3,4) show ?thesis by (subst mat_print_eq) auto
qed

section \<open>The tasks\<close>

definition before_add :: "bool \<Rightarrow> nat \<Rightarrow> i32" where
  "before_add sec n = (if sec then int n + 1 else 0)"

definition after_add :: "i32 \<Rightarrow> bool \<Rightarrow> nat \<Rightarrow> i32" where
  "after_add bval sec n = (if sec then int n + 1 + bval else int n + 1)"

text \<open>What element \<open>x\<close> of column \<open>n\<close> of the result holds, by the progress of its task.\<close>

fun mx_pc_value :: "i32 \<Rightarrow> nat \<Rightarrow> nat \<Rightarrow> mx_pc \<Rightarrow> i32" where
  "mx_pc_value bval n x (X_eval m sec) = before_add sec n"
| "mx_pc_value bval n x (X_load m sec sl vs k) = (if x < k then after_add bval sec n else before_add sec n)"
| "mx_pc_value bval n x (X_store m sec sl vs k v) = (if x < k then after_add bval sec n else before_add sec n)"
| "mx_pc_value bval n x X_end = int n + 1 + bval"

fun mx_value :: "i32 \<Rightarrow> nat \<Rightarrow> nat \<Rightarrow> mx_pc thread \<Rightarrow> i32" where
  "mx_value bval n x Unborn = 0"
| "mx_value bval n x (Live pc) = mx_pc_value bval n x pc"
| "mx_value bval n x Done = int n + 1 + bval"

definition addend :: "nat \<Rightarrow> i32 \<Rightarrow> bool \<Rightarrow> nat \<Rightarrow> valarray" where
  "addend N bval sec n = replicate N (if sec then bval else int n + 1)"

fun mx_pc_ok :: "nat \<Rightarrow> nat \<Rightarrow> i32 \<Rightarrow> nat \<Rightarrow> mx_pc \<Rightarrow> bool" where
  "mx_pc_ok N M bval n (X_eval m sec) \<longleftrightarrow> m = n"
| "mx_pc_ok N M bval n (X_load m sec sl vs k) \<longleftrightarrow> m = n \<and> sl = slice n N M \<and> vs = addend N bval sec n \<and> k \<le> N"
| "mx_pc_ok N M bval n (X_store m sec sl vs k v) \<longleftrightarrow>
     m = n \<and> sl = slice n N M \<and> vs = addend N bval sec n \<and> k < N \<and> v = before_add sec n"
| "mx_pc_ok N M bval n X_end \<longleftrightarrow> True"

definition mx_inputs :: "nat \<Rightarrow> nat \<Rightarrow> i32 \<Rightarrow> mx_globals \<Rightarrow> bool" where
  "mx_inputs N M bval g \<longleftrightarrow>
     length (mx_a g) = N * M \<and> length (mx_b g) = N * M \<and>
     (\<forall>x < N. \<forall>y < M. mx_a g ! (x * M + y) = int y + 1 \<and> mx_b g ! (x * M + y) = bval) \<and>
     mx_out g = [Text ''A:''] @ replicate N (Row (map (\<lambda>y. int y + 1) [0..<M])) @
       [Text ''B: ''] @ replicate N (Row (replicate M bval))"

definition mx_inv :: "nat \<Rightarrow> nat \<Rightarrow> i32 \<Rightarrow> mx_pc thread list \<Rightarrow> mx_globals \<Rightarrow> bool" where
  "mx_inv N M bval ts g \<longleftrightarrow>
     fits N M \<and> mx_inputs N M bval g \<and> length (mx_res g) = N * M \<and>
     (\<forall>n < M. (\<forall>pc. ts ! n = Live pc \<longrightarrow> mx_pc_ok N M bval n pc) \<and>
        (\<forall>x < N. mx_res g ! (x * M + n) = mx_value bval n x (ts ! n)))"

fun mx_work :: "nat \<Rightarrow> mx_pc \<Rightarrow> nat" where
  "mx_work N (X_eval n sec) = (if sec then 0 else 2 * N + 2) + 2 * N + 2"
| "mx_work N (X_load n sec sl vs k) = (if sec then 0 else 2 * N + 2) + 2 * (N - k) + 1"
| "mx_work N (X_store n sec sl vs k v) = (if sec then 0 else 2 * N + 2) + 2 * (N - k)"
| "mx_work N X_end = 0"

lemma mx_program_simps [simp]:
  "no_th (mx_program N M bval) = M" "slot (mx_program N M bval) i = i" "bad_rc (mx_program N M bval) r \<longleftrightarrow> r \<noteq> 0"
  "entry (mx_program N M bval) n = X_eval n False" "body (mx_program N M bval) n a = fn_task N M"
  "init (mx_program N M bval) = mx_init N M bval" "fini (mx_program N M bval) = mx_fini N M"
  "before (mx_program N M bval) = (\<lambda>i g. g)"
  by (simp_all add: mx_program_def)

lemma addend_nth [simp]: "k < N \<Longrightarrow> before_add sec n + addend N bval sec n ! k = after_add bval sec n"
  by (simp add: addend_def before_add_def after_add_def)

lemma col_nth: "fits N M \<Longrightarrow> n < M \<Longrightarrow> k < N \<Longrightarrow> slice n N M ! k = k * M + n"
  using sz_index [of N M k n] by (simp add: add.commute)

lemma col_elems:
  assumes "fits N M" and "length arr = N * M" and "n < M"
  shows "elems arr (slice n N M) = Inr (map (\<lambda>k. arr ! (k * M + n)) [0..<N])"
proof -
  have "i < length arr" if "i \<in> set (slice n N M)" for i
    using that col_nth [OF assms(1,3)] index_less [OF _ assms(3)] assms(2) by (auto simp: in_set_conv_nth)
  moreover have "map ((!) arr) (slice n N M) = map (\<lambda>k. arr ! (k * M + n)) [0..<N]"
    using col_nth [OF assms(1,3)] by (intro nth_equalityI) (simp_all del: slice_nth)
  ultimately show ?thesis using elems_eq [of "slice n N M" arr] by simp
qed

lemma mx_columns:
  assumes "mx_inputs N M bval g" and "n < M" and "fits N M"
  shows "mat_col N M n = Inr (slice n N M)"
    and "mat_col_const N M n (if sec then mx_b g else mx_a g) = Inr (addend N bval sec n)"
proof -
  have "map (\<lambda>k. (if sec then mx_b g else mx_a g) ! (k * M + n)) [0..<N] = addend N bval sec n"
    using assms by (intro nth_equalityI) (auto simp: addend_def mx_inputs_def)
  moreover have "length (if sec then mx_b g else mx_a g) = N * M" using assms(1) by (simp add: mx_inputs_def)
  ultimately show "mat_col_const N M n (if sec then mx_b g else mx_a g) = Inr (addend N bval sec n)"
    using assms(2) col_elems [OF assms(3) _ assms(2)] by (simp add: mat_col_const_def)
qed (use assms in \<open>simp add: mat_col_def\<close>)

lemma after_add_checked:
  assumes "0 \<le> bval" "int M + bval \<le> INT32_MAX" "n < M"
  shows "i32_check (after_add bval sec n) = Some (after_add bval sec n)"
  using assms by (simp add: after_add_def)

text \<open>One action of the task of column \<open>n\<close>.\<close>

lemma fn_task_goto:
  assumes inv: "mx_inv N M bval ts g" and n: "n < M" and pc: "ts ! n = Live pc" and b: "0 \<le> bval" "int M + bval \<le> INT32_MAX"
    and st: "fn_task N M pc g = Goto pc' g'"
  shows "mx_pc_ok N M bval n pc' \<and> mx_work N pc' < mx_work N pc \<and> mx_inputs N M bval g' \<and> length (mx_res g') = N * M \<and>
    (\<forall>x < N. mx_res g' ! (x * M + n) = mx_pc_value bval n x pc') \<and>
    (\<forall>x < N. \<forall>m < M. m \<noteq> n \<longrightarrow> mx_res g' ! (x * M + m) = mx_res g ! (x * M + m))"
proof -
  from inv n pc have f: "fits N M" and inp: "mx_inputs N M bval g" and len: "length (mx_res g) = N * M" and ok: "mx_pc_ok N M bval n pc"
    and res: "\<forall>x < N. mx_res g ! (x * M + n) = mx_pc_value bval n x pc"
    by (auto simp: mx_inv_def)
  show ?thesis
  proof (cases pc)
    case (X_eval m sec)
    with st ok mx_columns(1) [OF inp n f] mx_columns(2) [OF inp n f, of sec] have "pc' = X_load n sec (slice n N M) (addend N bval sec n) 0" "g' = g" by auto
    with X_eval inp len res show ?thesis by simp
  next
    case (X_load m sec sl vs k)
    show ?thesis
    proof (cases "k < N")
      case True
      with X_load st ok have "pc' = X_store n sec sl vs k (mx_res g ! (k * M + n))" "g' = g"
        using col_nth [OF f n] by (auto simp del: slice_nth split: if_splits)
      moreover from True X_load res have "mx_res g ! (k * M + n) = before_add sec n" by simp
      ultimately show ?thesis using True X_load ok inp len res by auto
    next
      case False
      with X_load st ok have "pc' = (if sec then X_end else X_eval n True)" "g' = g" "k = N" by auto
      with X_load inp len res show ?thesis by (cases sec) (auto simp: after_add_def before_add_def)
    qed
  next
    case (X_store m sec sl vs k v)
    with ok st after_add_checked [OF b n, of sec]
    have g': "pc' = X_load n sec sl vs (k + 1)" "g' = g\<lparr>mx_res := (mx_res g)[k * M + n := after_add bval sec n]\<rparr>" and k: "k < N"
      using col_nth [OF f n] by (auto simp del: slice_nth)
    have "(mx_res g)[k * M + n := after_add bval sec n] ! (x * M + m') =
        (if x = k \<and> m' = n then after_add bval sec n else mx_res g ! (x * M + m'))" if "x < N" "m' < M" for x m'
      using index_inject [OF n that(2), of k x] index_less [OF that] len by (auto simp: nth_list_update)
    with g' k X_store ok inp len res n show ?thesis by (auto simp: mx_inputs_def less_Suc_eq)
  qed (use st in simp)
qed


lemma fn_task_defined:
  assumes inv: "mx_inv N M bval ts g" and n: "n < M" and pc: "ts ! n = Live pc" and b: "0 \<le> bval" "int M + bval \<le> INT32_MAX"
  shows "fn_task N M pc g \<noteq> Crash"
proof -
  from inv n pc have f: "fits N M" and inp: "mx_inputs N M bval g" and len: "length (mx_res g) = N * M" and ok: "mx_pc_ok N M bval n pc"
    by (auto simp: mx_inv_def)
  show ?thesis
  proof (cases pc)
    case (X_eval m sec)
    with ok mx_columns(1) [OF inp n f] mx_columns(2) [OF inp n f, of sec] show ?thesis by simp
  next
    case (X_load m sec sl vs k)
    with ok len index_less [of k N n M] n col_nth [OF f n] show ?thesis by (auto simp del: slice_nth)
  next
    case (X_store m sec sl vs k v)
    with ok after_add_checked [OF b n, of sec] show ?thesis by simp
  qed simp
qed

lemma mx_inv_goto:
  assumes inv: "mx_inv N M bval ts g" and len: "length ts = M" and n: "n < M" and pc: "ts ! n = Live pc"
    and b: "0 \<le> bval" "int M + bval \<le> INT32_MAX" and st: "fn_task N M pc g = Goto pc' g'"
  shows "mx_inv N M bval (ts[n := Live pc']) g'"
  using fn_task_goto [OF inv n pc b st] inv len n by (auto simp: mx_inv_def nth_list_update)

lemma mx_init_ok:
  assumes "0 < N" "0 < M" "0 \<le> bval" "int M + bval \<le> INT32_MAX" "int M + 1 \<le> INT32_MAX" "fits N M"
  shows "\<exists>g. mx_init N M bval mx_globals0 = Inr g \<and> mx_inv N M bval (replicate M Unborn) g"
proof -
  from mat_iota_eq [OF assms(1,2,5,6)] obtain a where a: "mat_iota N M = Some (Inr a)" "length a = N * M"
      "\<forall>x < N. \<forall>y < M. a ! (x * M + y) = int y + 1" by auto
  have la: "mat_print N M a [0..<N] = Inr (replicate N (map (\<lambda>y. int y + 1) [0..<M]))"
    using a(2,3) assms(2,6) by (intro mat_print_rows) auto
  have "mat_print N M (replicate (N * M) bval) [0..<N] = Inr (replicate N (map (\<lambda>y. bval) [0..<M]))"
    using assms(2,6) by (intro mat_print_rows) (auto simp: index_less)
  then have lb: "mat_print N M (replicate (N * M) bval) [0..<N] = Inr (replicate N (replicate M bval))"
    by (simp add: map_replicate_const)
  show ?thesis
    using a la lb assms(1,2,6) sz_fits [OF assms(6)]
    by (simp add: mx_init_def mat_value_def mx_inv_def mx_inputs_def mx_globals0_def index_less)
qed

lemma mx_fini_ok:
  assumes "0 < M" and "mx_inv N M bval (replicate M Done) g"
  shows "mx_fini N M g =
    Inr (g\<lparr>mx_out := mx_out g @ [Text ''result: ''] @ replicate N (Row (map (\<lambda>y. int y + 1 + bval) [0..<M]))\<rparr>)"
proof -
  have "mat_print N M (mx_res g) [0..<N] = Inr (replicate N (map (\<lambda>y. int y + 1 + bval) [0..<M]))"
    using assms by (intro mat_print_rows) (auto simp: mx_inv_def)
  then show ?thesis by (simp add: mx_fini_def)
qed

lemma mx_counted:
  assumes "0 < N" "0 < M" "0 \<le> bval" "int M + bval \<le> INT32_MAX" "int M + 1 \<le> INT32_MAX" "fits N M"
  shows "counted_program rc (mx_program N M bval) mx_globals0 (mx_inv N M bval) (mx_work N)"
proof (unfold_locales, goal_cases)
  case 4
  then show ?case using mx_init_ok [OF assms] by simp
next
  case (5 ts g i)
  then show ?case by (auto simp: mx_inv_def nth_list_update before_add_def)
next
  case (6 ts g i pc pc' g')
  then show ?case using mx_inv_goto [OF _ _ _ _ assms(3,4), of N ts g i pc pc' g'] by simp
next
  case (7 ts g i pc g')
  then have "pc = X_end" "g' = g" by (cases pc; auto split: option.splits sum.splits if_splits)+
  with 7 show ?case by (auto simp: mx_inv_def nth_list_update)
next
  case (8 ts g i pc)
  then show ?case using fn_task_defined [OF _ _ _ assms(3,4), of N ts g i pc] by simp
next
  case (9 g)
  then show ?case using mx_fini_ok [OF assms(2), of N bval g] by simp
next
  case (10 ts g i pc pc' g')
  then show ?case using fn_task_goto [OF _ _ _ assms(3,4), of N ts g i pc pc' g'] by simp
next
  case (11 ts g k)
  then obtain pc where "ts ! k = Live pc" by (cases "ts ! k") auto
  moreover have "fn_task N M pc g \<noteq> Blocked" by (cases pc) (auto split: option.splits sum.splits)
  ultimately show ?case using 11 by auto
qed auto

text \<open>The program as it is: fifteen rows and columns, 2000 in every element of \<open>b\<close>.\<close>

interpretation lab02b: counted_program rc "mx_program 15 15 2000" mx_globals0 "mx_inv 15 15 2000" "mx_work 15" for rc
  by (rule mx_counted) (auto simp: fits_def)

section \<open>The sum\<close>

text \<open>
  C5. The tasks need no lock: for all positive dimensions whose product is a \<open>size_t\<close>,
  all numbers in \<open>b\<close> from 0 on for which the sums do not exceed an \<open>int\<close> (the second matrix has the
  same number everywhere), and every interleaving of the loads and stores of the tasks, no run is
  longer than \<open>(4 * N + 7) * M + 4\<close> steps, and one that cannot be continued has ended with the sum of
  the two matrices in \<open>res\<close>, printed the three matrices in full and thrown no exception.
\<close>

theorem cpp_matrix_sum:
  assumes "0 < N" "0 < M" "int (N * M) < 2 ^ 64" "0 \<le> bval" "int M + bval \<le> INT32_MAX" "int M + 1 \<le> INT32_MAX"
    and "run (proc_step all_ok (mx_program N M bval)) sch (boot (mx_program N M bval) mx_globals0) = Some s"
  shows "length sch \<le> (4 * N + 7) * M + 4 \<and>
    ((\<forall>a. proc_step all_ok (mx_program N M bval) a s = None) \<longrightarrow>
      main s = Exited EXIT_SUCCESS \<and> err s = [] \<and>
      (\<forall>x < N. \<forall>y < M. mat_at_const N M x y (mx_a (glob s)) = Inr (int y + 1) \<and>
         mat_at_const N M x y (mx_b (glob s)) = Inr bval \<and>
         mat_at_const N M x y (mx_res (glob s)) = Inr (int y + 1 + bval)) \<and>
      mx_out (glob s) =
        [Text ''A:''] @ replicate N (Row (map (\<lambda>y. int y + 1) [0..<M])) @
        [Text ''B: ''] @ replicate N (Row (replicate M bval)) @
        [Text ''result: ''] @ replicate N (Row (map (\<lambda>y. int y + 1 + bval) [0..<M])))"
proof (intro conjI impI)
  from assms(3) have f: "fits N M" by (simp add: fits_def)
  note cp = mx_counted [OF assms(1,2,4-6) f]
  have "length sch \<le> 2 * M + 4 + M * (4 * N + 5)"
    using counted_program.counted_bounded [OF cp assms(7)] by (simp add: algebra_simps)
  then show "length sch \<le> (4 * N + 7) * M + 4" by (simp add: algebra_simps)
  assume "\<forall>a. proc_step all_ok (mx_program N M bval) a s = None"
  from counted_program.counted_maximal [OF cp assms(7) this]
  obtain h where h: "main s = Exited EXIT_SUCCESS" "err s = []" "mx_inv N M bval (replicate M Done) h"
      "mx_fini N M h = Inr (glob s)"
    by (auto simp: all_ok_def)
  note g = h(4) [unfolded mx_fini_ok [OF assms(2) h(3)], THEN Inr_inject, symmetric]
  show "main s = Exited EXIT_SUCCESS" "err s = []" by (fact h)+
  show "\<forall>x < N. \<forall>y < M. mat_at_const N M x y (mx_a (glob s)) = Inr (int y + 1) \<and>
         mat_at_const N M x y (mx_b (glob s)) = Inr bval \<and>
         mat_at_const N M x y (mx_res (glob s)) = Inr (int y + 1 + bval)"
    using h(3) sz_index [OF f] unfolding g by (auto simp: mx_inv_def mx_inputs_def mat_ref_const_def mat_at_const_def elem_def index_less)
  show "mx_out (glob s) =
        [Text ''A:''] @ replicate N (Row (map (\<lambda>y. int y + 1) [0..<M])) @
        [Text ''B: ''] @ replicate N (Row (replicate M bval)) @
        [Text ''result: ''] @ replicate N (Row (map (\<lambda>y. int y + 1 + bval) [0..<M]))"
    using h(3) unfolding g by (simp add: mx_inv_def mx_inputs_def)
qed

theorem cpp_matrix_sum_witness:
  "\<exists>sch s. run (proc_step all_ok (mx_program 15 15 2000)) sch (boot (mx_program 15 15 2000) mx_globals0) = Some s \<and>
     main s = Exited EXIT_SUCCESS \<and> mat_at_const 15 15 3 4 (mx_res (glob s)) = Inr 2005"
proof -
  obtain sch s where r: "run (proc_step all_ok (mx_program 15 15 2000)) sch (boot (mx_program 15 15 2000) mx_globals0) = Some s"
      "\<forall>a. proc_step all_ok (mx_program 15 15 2000) a s = None"
    using lab02b.counted_can_end by blast
  have "(0::nat) < 15" "int (15 * 15) < 2 ^ 64" "(0::int) \<le> 2000" "int 15 + 2000 \<le> INT32_MAX" "int 15 + 1 \<le> INT32_MAX" by simp_all
  from cpp_matrix_sum [OF this(1,1,2,3,4,5) r(1)] r have "main s = Exited EXIT_SUCCESS"
    "\<forall>x < 15. \<forall>y < 15. mat_at_const 15 15 x y (mx_res (glob s)) = Inr (int y + 1 + 2000)" by auto
  with r(1) show ?thesis by (intro exI [of _ sch] exI [of _ s]) auto
qed

end
