(* ===== verification/Calculate.thy ===== *)
theory Calculate
  imports Pthread
begin

text \<open>
  \<^verbatim>\<open>c/c_lab02_a.c\<close>: \<open>main\<close> allocates a \<open>data_s\<close>, starts one thread that sums
  \<open>i * j * k\<close> over three nested loops into it, joins the thread and prints the total.
  The loops are translated with their signed arithmetic checked, and compared with a
  closed form that also says exactly when the sum overflows.
\<close>

section \<open>The calculation\<close>

record data_s =
  da :: i32
  db :: i32
  dc :: i32
  total :: i32

text \<open>The three loops, from the inside; every signed operation is checked.\<close>

function calc_k :: "i32 \<Rightarrow> i32 \<Rightarrow> i32 \<Rightarrow> data_s \<Rightarrow> data_s option" where
  "calc_k i j k d =
     (if k \<le> dc d then
        (case i32_check (i * j) of
           None \<Rightarrow> None
         | Some p \<Rightarrow>
             (case i32_check (p * k) of
                None \<Rightarrow> None
              | Some q \<Rightarrow>
                  (case i32_check (total d + q) of
                     None \<Rightarrow> None
                   | Some t \<Rightarrow>
                       (case i32_check (k + 1) of None \<Rightarrow> None | Some k' \<Rightarrow> calc_k i j k' (d\<lparr>total := t\<rparr>)))))
      else Some d)"
  by pat_completeness auto
termination
  by (relation "measure (\<lambda>(i, j, k, d). nat (dc d + 1 - k))") (auto simp: i32_check_eq_Some)

declare calc_k.simps [simp del]

fun same_bounds :: "data_s \<Rightarrow> data_s \<Rightarrow> bool" where
  "same_bounds d e \<longleftrightarrow> da e = da d \<and> db e = db d \<and> dc e = dc d"

lemma calc_k_bounds: "calc_k i j k d = Some e \<Longrightarrow> same_bounds d e"
proof (induction i j k d rule: calc_k.induct)
  case (1 i j k d)
  from "1.prems" show ?case
    by (subst (asm) calc_k.simps) (auto split: if_splits option.splits dest!: "1.IH")
qed

function calc_j :: "i32 \<Rightarrow> i32 \<Rightarrow> data_s \<Rightarrow> data_s option" where
  "calc_j i j d =
     (if j \<le> db d then
        (case calc_k i j 1 d of
           None \<Rightarrow> None
         | Some e \<Rightarrow> (case i32_check (j + 1) of None \<Rightarrow> None | Some j' \<Rightarrow> calc_j i j' e))
      else Some d)"
  by pat_completeness auto
termination
  by (relation "measure (\<lambda>(i, j, d). nat (db d + 1 - j))") (auto simp: i32_check_eq_Some dest: calc_k_bounds)

declare calc_j.simps [simp del]

lemma calc_j_bounds: "calc_j i j d = Some e \<Longrightarrow> same_bounds d e"
proof (induction i j d rule: calc_j.induct)
  case (1 i j d)
  show ?case
  proof (cases "j \<le> db d")
    case True
    with "1.prems" obtain e' j' where "calc_k i j 1 d = Some e'" "i32_check (j + 1) = Some j'" "calc_j i j' e' = Some e"
      by (subst (asm) calc_j.simps) (auto split: option.splits)
    with "1.IH" [OF True] calc_k_bounds [of i j 1 d e'] show ?thesis by auto
  next
    case False
    with "1.prems" show ?thesis by (subst (asm) calc_j.simps) simp
  qed
qed

function calc_i :: "i32 \<Rightarrow> data_s \<Rightarrow> data_s option" where
  "calc_i i d =
     (if i \<le> da d then
        (case calc_j i 1 d of
           None \<Rightarrow> None
         | Some e \<Rightarrow> (case i32_check (i + 1) of None \<Rightarrow> None | Some i' \<Rightarrow> calc_i i' e))
      else Some d)"
  by pat_completeness auto
termination
  by (relation "measure (\<lambda>(i, d). nat (da d + 1 - i))") (auto simp: i32_check_eq_Some dest: calc_j_bounds)

declare calc_i.simps [simp del]

definition calculate :: "data_s \<Rightarrow> data_s option" where
  "calculate d = calc_i 1 d"

section \<open>The closed form\<close>

text \<open>\<open>tri k n\<close> is the sum of the numbers from \<open>k\<close> to \<open>n\<close>.\<close>

definition tri :: "int \<Rightarrow> int \<Rightarrow> int" where
  "tri k n = (\<Sum>x \<in> {k..n}. x)"

lemma tri_empty [simp]: "n < k \<Longrightarrow> tri k n = 0"
  by (simp add: tri_def)

lemma tri_step: "k \<le> n \<Longrightarrow> tri k n = k + tri (k + 1) n"
proof -
  assume "k \<le> n"
  then have "{k..n} = insert k {k + 1..n}" by auto
  then show ?thesis by (simp add: tri_def)
qed

lemma tri_nonneg: "0 \<le> k \<Longrightarrow> 0 \<le> tri k n"
  by (auto simp: tri_def intro: sum_nonneg)

lemma tri_ge: "0 \<le> k \<Longrightarrow> k \<le> n \<Longrightarrow> k \<le> tri k n"
  using tri_step [of k n] tri_nonneg [of "k + 1" n] by simp

lemma tri_closed: "0 \<le> n \<Longrightarrow> tri 1 n = n * (n + 1) div 2"
proof (induction n rule: int_ge_induct)
  case base
  show ?case by simp
next
  case (step n)
  have "{1..n + 1} = insert (n + 1) {1..n}" using step.hyps by auto
  then have "tri 1 (n + 1) = tri 1 n + (n + 1)" by (simp add: tri_def)
  also have "\<dots> = (n * (n + 1) + (n + 1) * 2) div 2" using step.IH by simp
  also have "n * (n + 1) + (n + 1) * 2 = (n + 1) * (n + 1 + 1)" by (simp add: algebra_simps)
  finally show ?case .
qed

text \<open>
  Each loop adds its closed form, and is undefined exactly if the sum does not fit: the
  terms are positive, so the running total only grows, and the products inside are
  bounded by the terms.
\<close>

definition add_total :: "int \<Rightarrow> data_s \<Rightarrow> data_s option" where
  "add_total x d = (if total d + x \<le> INT32_MAX then Some (d\<lparr>total := total d + x\<rparr>) else None)"

lemma calc_k_sum:
  assumes "1 \<le> i" "1 \<le> j" "1 \<le> k" "dc d < INT32_MAX" "0 \<le> total d" "total d \<le> INT32_MAX"
  shows "calc_k i j k d = add_total (i * j * tri k (dc d)) d"
  using assms
proof (induction i j k d rule: calc_k.induct)
  case (1 i j k d)
  show ?case
  proof (cases "k \<le> dc d")
    case True
    have pos: "1 \<le> i * j" using "1.prems" mult_mono [of 1 i 1 j] by simp
    then have ge: "i * j \<le> i * j * k" "0 < i * j * k" using "1.prems"(3) mult_left_mono [of 1 k "i * j"] by simp_all
    have split: "i * j * tri k (dc d) = i * j * k + i * j * tri (k + 1) (dc d)"
      using tri_step [OF True] by (simp add: distrib_left)
    have rest: "0 \<le> i * j * tri (k + 1) (dc d)" using pos tri_nonneg [of "k + 1" "dc d"] "1.prems"(3) by simp
    show ?thesis
    proof (cases "total d + i * j * k \<le> INT32_MAX")
      case fits: True
      have c: "i32_check (i * j) = Some (i * j)" "i32_check (i * j * k) = Some (i * j * k)"
        "i32_check (total d + i * j * k) = Some (total d + i * j * k)" "i32_check (k + 1) = Some (k + 1)"
        unfolding i32_check_eq_Some using pos ge fits True "1.prems" by linarith+
      have "calc_k i j (k + 1) (d\<lparr>total := total d + i * j * k\<rparr>) =
          add_total (i * j * tri (k + 1) (dc d)) (d\<lparr>total := total d + i * j * k\<rparr>)"
        using "1.IH" [OF True c] "1.prems" fits ge by simp
      with True c show ?thesis
        by (subst calc_k.simps) (simp add: add_total_def split add.assoc)
    next
      case False
      then have "calc_k i j k d = None"
        using pos ge True "1.prems" by (subst calc_k.simps) (auto simp: i32_check_def split: option.splits)
      with False split rest show ?thesis by (simp add: add_total_def)
    qed
  next
    case False
    with "1.prems" show ?thesis by (subst calc_k.simps) (simp add: add_total_def)
  qed
qed

lemma add_total_bounds: "add_total x d = Some e \<Longrightarrow> same_bounds d e \<and> total e = total d + x \<and> total e \<le> INT32_MAX"
  by (auto simp: add_total_def split: if_splits)

lemma add_total_twice: "0 \<le> y \<Longrightarrow> (case add_total x d of None \<Rightarrow> None | Some e \<Rightarrow> add_total y e) = add_total (x + y) d"
  by (auto simp: add_total_def algebra_simps)

lemma calc_j_sum:
  assumes "1 \<le> i" "1 \<le> j" "db d < INT32_MAX" "dc d < INT32_MAX" "0 \<le> total d" "total d \<le> INT32_MAX"
  shows "calc_j i j d = add_total (i * tri j (db d) * tri 1 (dc d)) d"
  using assms
proof (induction i j d rule: calc_j.induct)
  case (1 i j d)
  show ?case
  proof (cases "j \<le> db d")
    case True
    have k: "calc_k i j 1 d = add_total (i * j * tri 1 (dc d)) d" using "1.prems" by (intro calc_k_sum) auto
    have pos: "0 \<le> i * j * tri 1 (dc d)" "0 \<le> i * tri (j + 1) (db d) * tri 1 (dc d)"
      using "1.prems" tri_nonneg [of 1 "dc d"] tri_nonneg [of "j + 1" "db d"] by simp_all
    have j: "i32_check (j + 1) = Some (j + 1)" using True "1.prems" by simp
    have "calc_j i (j + 1) e = add_total (i * tri (j + 1) (db d) * tri 1 (dc d)) e"
      if "add_total (i * j * tri 1 (dc d)) d = Some e" for e
      using "1.IH" [OF True _ j, of e] k that add_total_bounds [OF that] "1.prems" pos by simp
    with True j k have "calc_j i j d = (case add_total (i * j * tri 1 (dc d)) d of None \<Rightarrow> None
        | Some e \<Rightarrow> add_total (i * tri (j + 1) (db d) * tri 1 (dc d)) e)"
      by (subst calc_j.simps) (auto split: option.splits)
    with add_total_twice [OF pos(2)] tri_step [OF True] show ?thesis by (simp add: algebra_simps)
  next
    case False
    with "1.prems" show ?thesis by (subst calc_j.simps) (simp add: add_total_def)
  qed
qed

lemma calc_i_sum:
  assumes "1 \<le> i" "da d < INT32_MAX" "db d < INT32_MAX" "dc d < INT32_MAX" "0 \<le> total d" "total d \<le> INT32_MAX"
  shows "calc_i i d = add_total (tri i (da d) * tri 1 (db d) * tri 1 (dc d)) d"
  using assms
proof (induction i d rule: calc_i.induct)
  case (1 i d)
  show ?case
  proof (cases "i \<le> da d")
    case True
    let ?bc = "tri 1 (db d) * tri 1 (dc d)"
    have k: "calc_j i 1 d = add_total (i * ?bc) d" using calc_j_sum [of i 1 d] "1.prems" by (simp add: mult.assoc)
    have pos: "0 \<le> i * ?bc" "0 \<le> tri (i + 1) (da d) * ?bc"
      using "1.prems" tri_nonneg [of 1 "dc d"] tri_nonneg [of 1 "db d"] tri_nonneg [of "i + 1" "da d"] by simp_all
    have i: "i32_check (i + 1) = Some (i + 1)" using True "1.prems" by simp
    have "calc_i (i + 1) e = add_total (tri (i + 1) (da d) * ?bc) e" if "add_total (i * ?bc) d = Some e" for e
      using "1.IH" [OF True _ i, of e] k that add_total_bounds [OF that] "1.prems" pos by (simp add: mult.assoc)
    with True i k have "calc_i i d = (case add_total (i * ?bc) d of None \<Rightarrow> None
        | Some e \<Rightarrow> add_total (tri (i + 1) (da d) * ?bc) e)"
      by (subst calc_i.simps) (auto split: option.splits)
    with add_total_twice [OF pos(2)] tri_step [OF True] show ?thesis by (simp add: algebra_simps)
  next
    case False
    with "1.prems" show ?thesis by (subst calc_i.simps) (simp add: add_total_def)
  qed
qed

text \<open>
  C28. The triple loop of lab 2a computes the product of three triangular numbers. For
  all loop bounds below the largest integer, the total grows by
  \<open>(a (a + 1) / 2) (b (b + 1) / 2) (c (c + 1) / 2)\<close> if that fits into an \<open>int32_t\<close>, and
  otherwise, and only then, a signed operation overflows.
\<close>

theorem calculate_closed_form:
  assumes "0 \<le> da d" "da d < INT32_MAX" "0 \<le> db d" "db d < INT32_MAX" "0 \<le> dc d" "dc d < INT32_MAX"
    and "0 \<le> total d" "total d \<le> INT32_MAX"
  shows "calculate d =
    (let t = total d + (da d * (da d + 1) div 2) * (db d * (db d + 1) div 2) * (dc d * (dc d + 1) div 2) in
     if t \<le> INT32_MAX then Some (d\<lparr>total := t\<rparr>) else None)"
proof -
  have "calculate d = add_total (tri 1 (da d) * tri 1 (db d) * tri 1 (dc d)) d"
    unfolding calculate_def using assms by (intro calc_i_sum) auto
  with assms show ?thesis by (simp add: tri_closed add_total_def Let_def)
qed

theorem calculate_closed_form_witness:
  "calculate \<lparr>da = 10, db = 10, dc = 10, total = 0\<rparr> = Some \<lparr>da = 10, db = 10, dc = 10, total = 166375\<rparr> \<and>
   calculate \<lparr>da = 100, db = 100, dc = 100, total = 0\<rparr> = None"
  using calculate_closed_form [of "\<lparr>da = 10, db = 10, dc = 10, total = 0\<rparr>"]
    calculate_closed_form [of "\<lparr>da = 100, db = 100, dc = 100, total = 0\<rparr>"]
  by (simp add: Let_def)

section \<open>The process\<close>

text \<open>
  \<open>main\<close> shares \<open>d\<close> with the thread and does not touch it between creating and joining
  it, so the loops are one action of the thread; its message is another. What the
  system decides is in \<open>calc_env\<close>: whether \<open>malloc\<close> finds memory, and what
  \<open>pthread_create\<close> and \<open>pthread_join\<close> return. A \<open>malloc\<close> that fails is not checked: the
  first write to \<open>d\<close> then goes through a null pointer, which is undefined.
\<close>

datatype calc_line = Waiting_thread | Thread_finished | Result i32

datatype calc_main = M_malloc | M_create | M_puts | M_join | M_print | M_free | M_exit int | M_undefined

datatype calc_thread = C_unborn | C_loops | C_puts | C_done

record calc_env =
  malloc_ok :: bool
  create_ret :: int
  join_ret :: int

record calc_state =
  cmain :: calc_main
  cthread :: calc_thread
  d_ptr :: "data_s option"
  cout :: "calc_line list"
  cerr :: "string list"

definition calc_error_msg :: "string \<Rightarrow> calc_state \<Rightarrow> calc_state" where
  "calc_error_msg m s = s\<lparr>cerr := cerr s @ [m], cmain := M_exit EXIT_FAILURE\<rparr>"

definition calc_create_thread :: "calc_env \<Rightarrow> calc_state \<Rightarrow> calc_state" where
  "calc_create_thread e s =
     (if create_ret e \<noteq> 0 then calc_error_msg ''Can't create thread t'' s
      else s\<lparr>cthread := C_loops, cmain := M_puts\<rparr>)"

definition calc_wait_thread :: "calc_env \<Rightarrow> calc_state \<Rightarrow> calc_state option" where
  "calc_wait_thread e s =
     (if cthread s \<noteq> C_done then None
      else if join_ret e \<noteq> 0 then Some (calc_error_msg ''Can't join thread t'' s)
      else Some (s\<lparr>cmain := M_print\<rparr>))"

definition calc_main_step :: "calc_env \<Rightarrow> calc_state \<Rightarrow> calc_state option" where
  "calc_main_step e s =
     (case cmain s of
        M_malloc \<Rightarrow>
          if malloc_ok e then Some (s\<lparr>d_ptr := Some \<lparr>da = 10, db = 10, dc = 10, total = 0\<rparr>, cmain := M_create\<rparr>)
          else Some (s\<lparr>cmain := M_undefined\<rparr>)
      | M_create \<Rightarrow> Some (calc_create_thread e s)
      | M_puts \<Rightarrow> Some (s\<lparr>cout := cout s @ [Waiting_thread], cmain := M_join\<rparr>)
      | M_join \<Rightarrow> calc_wait_thread e s
      | M_print \<Rightarrow>
          (case d_ptr s of
             None \<Rightarrow> Some (s\<lparr>cmain := M_undefined\<rparr>)
           | Some d \<Rightarrow> Some (s\<lparr>cout := cout s @ [Result (total d)], cmain := M_free\<rparr>))
      | M_free \<Rightarrow> Some (s\<lparr>d_ptr := None, cmain := M_exit EXIT_SUCCESS\<rparr>)
      | M_exit _ \<Rightarrow> None
      | M_undefined \<Rightarrow> None)"

definition calc_thread_step :: "calc_state \<Rightarrow> calc_state option" where
  "calc_thread_step s =
     (case cmain s of
        M_exit _ \<Rightarrow> None
      | M_undefined \<Rightarrow> None
      | _ \<Rightarrow>
         (case cthread s of
            C_loops \<Rightarrow>
              (case d_ptr s of
                 None \<Rightarrow> Some (s\<lparr>cmain := M_undefined\<rparr>)
               | Some d \<Rightarrow>
                   (case calculate d of
                      None \<Rightarrow> Some (s\<lparr>cmain := M_undefined\<rparr>)
                    | Some d' \<Rightarrow> Some (s\<lparr>d_ptr := Some d', cthread := C_puts\<rparr>)))
          | C_puts \<Rightarrow> Some (s\<lparr>cout := cout s @ [Thread_finished], cthread := C_done\<rparr>)
          | _ \<Rightarrow> None))"

text \<open>The two actors: \<open>True\<close> is \<open>main\<close>, \<open>False\<close> the thread.\<close>

definition calc_step :: "calc_env \<Rightarrow> bool \<Rightarrow> calc_state \<Rightarrow> calc_state option" where
  "calc_step e who s = (if who then calc_main_step e s else calc_thread_step s)"

definition calc_boot :: calc_state where
  "calc_boot = \<lparr>cmain = M_malloc, cthread = C_unborn, d_ptr = None, cout = [], cerr = []\<rparr>"

section \<open>Every run prints the result\<close>

definition calc_data :: "i32 \<Rightarrow> data_s" where
  "calc_data t = \<lparr>da = 10, db = 10, dc = 10, total = t\<rparr>"

lemma calculate_data: "calculate (calc_data 0) = Some (calc_data 166375)"
proof -
  have "calculate (calc_data 0) = add_total (tri 1 10 * tri 1 10 * tri 1 10) (calc_data 0)"
    unfolding calculate_def by (subst calc_i_sum) (simp_all add: calc_data_def)
  then show ?thesis by (simp add: tri_closed add_total_def calc_data_def)
qed

fun thread_data :: "calc_thread \<Rightarrow> i32" where
  "thread_data C_unborn = 0" | "thread_data C_loops = 0" | "thread_data C_puts = 166375" | "thread_data C_done = 166375"

text \<open>\<open>main\<close> and the thread say one line each, in either order.\<close>

definition said :: "bool \<Rightarrow> calc_thread \<Rightarrow> calc_line list set" where
  "said w t =
     {xs. distinct xs \<and> set xs = (if w then {Waiting_thread} else {}) \<union> (if t = C_done then {Thread_finished} else {})}"

fun calc_inv :: "calc_main \<Rightarrow> calc_thread \<Rightarrow> data_s option \<Rightarrow> calc_line list \<Rightarrow> bool" where
  "calc_inv M_malloc t d xs \<longleftrightarrow> t = C_unborn \<and> xs = []"
| "calc_inv M_create t d xs \<longleftrightarrow> t = C_unborn \<and> xs = [] \<and> d = Some (calc_data 0)"
| "calc_inv M_puts t d xs \<longleftrightarrow> t \<noteq> C_unborn \<and> d = Some (calc_data (thread_data t)) \<and> xs \<in> said False t"
| "calc_inv M_join t d xs \<longleftrightarrow> t \<noteq> C_unborn \<and> d = Some (calc_data (thread_data t)) \<and> xs \<in> said True t"
| "calc_inv M_print t d xs \<longleftrightarrow> t = C_done \<and> d = Some (calc_data 166375) \<and> xs \<in> said True t"
| "calc_inv M_free t d xs \<longleftrightarrow> t = C_done \<and> (\<exists>ys \<in> said True C_done. xs = ys @ [Result 166375])"
| "calc_inv (M_exit c) t d xs \<longleftrightarrow> c = EXIT_SUCCESS \<and> (\<exists>ys \<in> said True C_done. xs = ys @ [Result 166375])"
| "calc_inv M_undefined t d xs \<longleftrightarrow> False"

definition calc_good :: calc_env where
  "calc_good = \<lparr>malloc_ok = True, create_ret = 0, join_ret = 0\<rparr>"

definition calc_ok :: "calc_state \<Rightarrow> bool" where
  "calc_ok s \<longleftrightarrow> calc_inv (cmain s) (cthread s) (d_ptr s) (cout s) \<and> cerr s = []"

fun calc_main_work :: "calc_main \<Rightarrow> nat" where
  "calc_main_work M_malloc = 6" | "calc_main_work M_create = 5" | "calc_main_work M_puts = 4"
| "calc_main_work M_join = 3" | "calc_main_work M_print = 2" | "calc_main_work M_free = 1" | "calc_main_work _ = 0"

fun calc_thread_work :: "calc_thread \<Rightarrow> nat" where
  "calc_thread_work C_unborn = 2" | "calc_thread_work C_loops = 2" | "calc_thread_work C_puts = 1" | "calc_thread_work C_done = 0"

lemma said_simps [simp]:
  "[] \<in> said False C_loops"
  "xs \<in> said False t \<Longrightarrow> xs @ [Waiting_thread] \<in> said True t"
  "xs \<in> said w C_loops \<Longrightarrow> xs \<in> said w C_puts"
  "xs \<in> said w C_puts \<Longrightarrow> xs @ [Thread_finished] \<in> said w C_done"
  by (auto simp: said_def split: if_splits)

lemma calc_main_ok:
  assumes "calc_ok s" "calc_main_step calc_good s = Some t"
  shows "calc_ok t \<and> calc_main_work (cmain t) < calc_main_work (cmain s) \<and>
    calc_thread_work (cthread t) = calc_thread_work (cthread s)"
  using assms
  by (cases "cmain s")
    (auto simp: calc_main_step_def calc_good_def calc_ok_def calc_create_thread_def calc_wait_thread_def
      calc_data_def split: if_splits)

lemma calc_thread_ok:
  assumes "calc_ok s" "calc_thread_step s = Some t"
  shows "calc_ok t \<and> cmain t = cmain s \<and> calc_thread_work (cthread t) < calc_thread_work (cthread s)"
  using assms
  by (cases "cmain s"; cases "cthread s")
    (auto simp: calc_thread_step_def calc_ok_def calculate_data)

lemma calc_stuck:
  assumes "calc_ok s" "\<And>who. calc_step e who s = None"
  shows "cmain s = M_exit EXIT_SUCCESS"
proof -
  from assms(2) [of True] assms(2) [of False] have st: "calc_main_step e s = None" "calc_thread_step s = None"
    by (simp_all add: calc_step_def)
  with assms(1) show ?thesis
    by (cases "cmain s"; cases "cthread s")
      (auto simp: calc_main_step_def calc_thread_step_def calc_ok_def calc_wait_thread_def calculate_data
        split: if_splits option.splits)
qed

interpretation calc: terminating_system "calc_step calc_good" calc_boot calc_ok
  "\<lambda>s. calc_main_work (cmain s) + calc_thread_work (cthread s)" "\<lambda>s. cmain s = M_exit EXIT_SUCCESS"
proof unfold_locales
  show "calc_ok calc_boot" by (simp add: calc_ok_def calc_boot_def)
next
  fix s who t
  assume "calc_ok s" "calc_step calc_good who s = Some t"
  then show "calc_ok t"
    and "calc_main_work (cmain t) + calc_thread_work (cthread t) < calc_main_work (cmain s) + calc_thread_work (cthread s)"
    using calc_main_ok [of s t] calc_thread_ok [of s t] by (auto simp: calc_step_def split: if_splits)
qed (rule calc_stuck)

text \<open>
  Lab 2a prints the right result whatever the scheduler does: a run that cannot be
  extended has at most eight steps, ends with status zero, and its output is the two
  messages of \<open>main\<close> and of the thread in some order, followed by \<open>Result = 166375\<close>,
  the sum of all products up to ten.
\<close>

theorem lab02a_prints_result:
  assumes "run (calc_step calc_good) sch calc_boot = Some s" and "\<forall>who. calc_step calc_good who s = None"
  shows "cmain s = M_exit EXIT_SUCCESS \<and> cerr s = [] \<and> length sch \<le> 8 \<and>
    cout s \<in> {[Waiting_thread, Thread_finished, Result 166375], [Thread_finished, Waiting_thread, Result 166375]}"
proof -
  from calc.run_inv [OF assms(1)] calc.maximal_final [OF assms(1)] assms(2)
  have ok: "calc_ok s" and ex: "cmain s = M_exit 0" by auto
  then obtain ys where ys: "distinct ys" "set ys = {Waiting_thread, Thread_finished}" "cout s = ys @ [Result 166375]"
    by (auto simp: calc_ok_def said_def)
  from ys(1,2) distinct_card [of ys] have "length ys = 2" by simp
  then obtain x y where "ys = [x, y]" by (auto simp: length_Suc_conv numeral_2_eq_2)
  with ys(1,2) have "ys \<in> {[Waiting_thread, Thread_finished], [Thread_finished, Waiting_thread]}"
    by (auto simp: doubleton_eq_iff)
  with ys(3) ok ex calc.run_bounded [OF assms(1)] show ?thesis
    by (auto simp: calc_ok_def calc_boot_def)
qed

definition calc_end :: calc_state where
  "calc_end =
     \<lparr>cmain = M_exit 0, cthread = C_done, d_ptr = None,
      cout = [Thread_finished, Waiting_thread, Result 166375], cerr = []\<rparr>"

theorem lab02a_prints_result_witness:
  "run (calc_step calc_good) [True, True, False, False, True, True, True, True] calc_boot = Some calc_end \<and>
   cout calc_end \<in> {[Waiting_thread, Thread_finished, Result 166375], [Thread_finished, Waiting_thread, Result 166375]}"
proof -
  have r: "run (calc_step calc_good) [True, True, False, False, True, True, True, True] calc_boot = Some calc_end"
    using calculate_data
    by (simp add: calc_step_def calc_main_step_def calc_thread_step_def calc_good_def calc_boot_def
        calc_create_thread_def calc_wait_thread_def calc_end_def calc_data_def)
  have "\<forall>who. calc_step calc_good who calc_end = None"
    by (simp add: calc_step_def calc_main_step_def calc_thread_step_def calc_end_def)
  from lab02a_prints_result [OF r this] r show ?thesis by blast
qed

end
