(* ===== verification/Cpp_Calculate.thy ===== *)
theory Cpp_Calculate
  imports Calculate Cpp_Thread
begin

text \<open>
  \<^verbatim>\<open>cpp/cc_lab02_a.cc\<close>: the calculation of lab 2a in a class that caches its result. The variables
  are unsigned 64-bit numbers, so sums and products wrap around, and a loop whose bound is the
  largest number never ends: the loops are partial functions, \<open>None\<close> meaning that they do not
  return. \<open>main\<close> and the thread use the object one after the other, so \<open>get_total\<close> is one action.
\<close>

section \<open>The class\<close>

record Data =
  d_a :: u64
  d_b :: u64
  d_c :: u64
  d_total :: u64
  is_cached :: bool

definition Data_init :: Data where
  "Data_init = \<lparr>d_a = 10, d_b = 10, d_c = 10, d_total = 0, is_cached = False\<rparr>"

partial_function (option) loop_k :: "u64 \<Rightarrow> u64 \<Rightarrow> u64 \<Rightarrow> u64 \<Rightarrow> u64 \<Rightarrow> u64 option" where
  "loop_k c i j k t = (if k \<le> c then loop_k c i j (k + 1) (t + i * j * k) else Some t)"

partial_function (option) loop_j :: "u64 \<Rightarrow> u64 \<Rightarrow> u64 \<Rightarrow> u64 \<Rightarrow> u64 \<Rightarrow> u64 option" where
  "loop_j b c i j t =
     (if j \<le> b then Option.bind (loop_k c i j 1 t) (\<lambda>t'. loop_j b c i (j + 1) t') else Some t)"

partial_function (option) loop_i :: "u64 \<Rightarrow> u64 \<Rightarrow> u64 \<Rightarrow> u64 \<Rightarrow> u64 \<Rightarrow> u64 option" where
  "loop_i a b c i t =
     (if i \<le> a then Option.bind (loop_j b c i 1 t) (\<lambda>t'. loop_i a b c (i + 1) t') else Some t)"

definition cxx_calculate :: "Data \<Rightarrow> Data option" where
  "cxx_calculate d =
     (case loop_i (d_a d) (d_b d) (d_c d) 1 (d_total d) of None \<Rightarrow> None | Some t \<Rightarrow> Some (d\<lparr>d_total := t\<rparr>))"

definition get_total :: "Data \<Rightarrow> (u64 \<times> Data) option" where
  "get_total d =
     (if is_cached d then Some (d_total d, d)
      else (case cxx_calculate d of None \<Rightarrow> None | Some e \<Rightarrow> Some (d_total e, e\<lparr>is_cached := True\<rparr>)))"

section \<open>The closed form\<close>

definition wsum :: "nat \<Rightarrow> nat \<Rightarrow> u64" where
  "wsum k n = (\<Sum>m = k..n. word_of_nat m)"

lemma unat_inc: "k \<le> c \<Longrightarrow> unat c < 2 ^ 64 - 1 \<Longrightarrow> unat (k + 1) = Suc (unat k)" for k c :: u64
  by (simp add: word_le_nat_alt unat_word_ariths(1))

lemma wsum_step: "k \<le> n \<Longrightarrow> wsum k n = word_of_nat k + wsum (Suc k) n"
  by (simp add: wsum_def sum.atLeast_Suc_atMost)

lemma wsum_empty: "n < k \<Longrightarrow> wsum k n = 0"
  by (simp add: wsum_def)

lemma loop_k_sum: "unat c < 2 ^ 64 - 1 \<Longrightarrow> loop_k c i j k t = Some (t + i * j * wsum (unat k) (unat c))"
proof (induction "unat c + 1 - unat k" arbitrary: k t rule: less_induct)
  case less
  show ?case
  proof (cases "k \<le> c")
    case True
    note k = unat_inc [OF True less.prems] True [unfolded word_le_nat_alt]
    have "loop_k c i j (k + 1) (t + i * j * k) = Some (t + i * j * k + i * j * wsum (Suc (unat k)) (unat c))"
      using less.hyps [of "k + 1"] less.prems k by simp
    with True k(2) show ?thesis by (subst loop_k.simps) (simp add: wsum_step algebra_simps)
  next
    case False
    then show ?thesis by (subst loop_k.simps) (simp add: wsum_empty word_le_nat_alt not_le)
  qed
qed

lemma loop_j_sum:
  assumes "unat b < 2 ^ 64 - 1" "unat c < 2 ^ 64 - 1"
  shows "loop_j b c i j t = Some (t + i * wsum (unat j) (unat b) * wsum 1 (unat c))"
proof (induction "unat b + 1 - unat j" arbitrary: j t rule: less_induct)
  case less
  show ?case
  proof (cases "j \<le> b")
    case True
    note j = unat_inc [OF True assms(1)] True [unfolded word_le_nat_alt]
    have "loop_j b c i (j + 1) (t + i * j * wsum 1 (unat c)) =
        Some (t + i * j * wsum 1 (unat c) + i * wsum (Suc (unat j)) (unat b) * wsum 1 (unat c))"
      using less.hyps [of "j + 1"] j by simp
    with True j(2) loop_k_sum [OF assms(2), of i j 1 t] show ?thesis
      by (subst loop_j.simps) (simp add: wsum_step algebra_simps)
  next
    case False
    then show ?thesis by (subst loop_j.simps) (simp add: wsum_empty word_le_nat_alt not_le)
  qed
qed

lemma loop_i_sum:
  assumes "unat a < 2 ^ 64 - 1" "unat b < 2 ^ 64 - 1" "unat c < 2 ^ 64 - 1"
  shows "loop_i a b c i t = Some (t + wsum (unat i) (unat a) * wsum 1 (unat b) * wsum 1 (unat c))"
proof (induction "unat a + 1 - unat i" arbitrary: i t rule: less_induct)
  case less
  show ?case
  proof (cases "i \<le> a")
    case True
    note i = unat_inc [OF True assms(1)] True [unfolded word_le_nat_alt]
    have "loop_i a b c (i + 1) (t + i * wsum 1 (unat b) * wsum 1 (unat c)) =
        Some (t + i * wsum 1 (unat b) * wsum 1 (unat c) + wsum (Suc (unat i)) (unat a) * wsum 1 (unat b) * wsum 1 (unat c))"
      using less.hyps [of "i + 1"] i by simp
    with True i(2) loop_j_sum [OF assms(2,3), of i 1 t] show ?thesis
      by (subst loop_i.simps) (simp add: wsum_step algebra_simps)
  next
    case False
    then show ?thesis by (subst loop_i.simps) (simp add: wsum_empty word_le_nat_alt not_le)
  qed
qed

lemma wsum_tri: "wsum 1 n = word_of_int (tri 1 (int n))"
proof (induction n)
  case (Suc n)
  have "{1..int (Suc n)} = insert (int (Suc n)) {1..int n}" by auto
  then have "tri 1 (int (Suc n)) = tri 1 (int n) + int (Suc n)" by (simp add: tri_def)
  with Suc show ?case by (simp add: wsum_def)
qed (simp add: wsum_def)

lemma cxx_calculate_eq:
  assumes "unat (d_a d) < 2 ^ 64 - 1" "unat (d_b d) < 2 ^ 64 - 1" "unat (d_c d) < 2 ^ 64 - 1"
  shows "cxx_calculate d =
    Some (d\<lparr>d_total := d_total d + word_of_int (tri 1 (uint (d_a d)) * tri 1 (uint (d_b d)) * tri 1 (uint (d_c d)))\<rparr>)"
proof -
  have "wsum 1 (unat x) = word_of_int (tri 1 (uint x))" for x :: u64
    by (simp only: wsum_tri uint_nat)
  with loop_i_sum [OF assms, of 1 "d_total d"] show ?thesis by (simp add: cxx_calculate_def)
qed

text \<open>
  C7. The cached calculation of the C++ version of lab 2a: for all bounds below the largest
  64-bit number, the first \<open>get_total\<close> returns the product of the three triangular numbers added to the
  initial total, modulo \<open>2 ^ 64\<close>; whatever calls follow return the same number and change nothing.
\<close>

theorem cpp_get_total:
  assumes "unat (d_a d) < 2 ^ 64 - 1" "unat (d_b d) < 2 ^ 64 - 1" "unat (d_c d) < 2 ^ 64 - 1" and "\<not> is_cached d"
  shows "\<exists>v e. get_total d = Some (v, e) \<and> get_total e = Some (v, e) \<and>
    v = d_total d + word_of_int (tri 1 (uint (d_a d)) * tri 1 (uint (d_b d)) * tri 1 (uint (d_c d)))"
  using cxx_calculate_eq [OF assms(1-3)] assms(4) by (simp add: get_total_def)

text \<open>
  Where the C version of lab 2a computes a total at all, the C++ version computes the same one.
\<close>

theorem cpp_agrees_with_c:
  assumes "calculate d = Some e" and "0 \<le> da d" "da d < INT32_MAX" "0 \<le> db d" "db d < INT32_MAX"
    and "0 \<le> dc d" "dc d < INT32_MAX" "0 \<le> total d" "total d \<le> INT32_MAX"
  shows "map_option d_total
      (cxx_calculate \<lparr>d_a = word_of_int (da d), d_b = word_of_int (db d), d_c = word_of_int (dc d),
         d_total = word_of_int (total d), is_cached = False\<rparr>) = Some (word_of_int (total e))"
proof -
  let ?d = "\<lparr>d_a = word_of_int (da d), d_b = word_of_int (db d), d_c = word_of_int (dc d),
    d_total = word_of_int (total d), is_cached = False\<rparr>"
  have u: "uint (word_of_int x :: u64) = x" "unat (word_of_int x :: u64) < 2 ^ 64 - 1" if "0 \<le> x" "x < INT32_MAX" for x
  proof -
    from that show "uint (word_of_int x :: u64) = x" by (simp add: uint_word_of_int)
    then have "int (unat (word_of_int x :: u64)) = x" by (metis uint_nat)
    with that show "unat (word_of_int x :: u64) < 2 ^ 64 - 1" by (simp flip: of_nat_less_iff [where ?'a = int])
  qed
  have "e = d\<lparr>total := total d + tri 1 (da d) * tri 1 (db d) * tri 1 (dc d)\<rparr>"
    using calc_i_sum [of 1 d] assms by (simp add: calculate_def add_total_def split: if_splits)
  moreover have "d_total (the (cxx_calculate ?d)) = word_of_int (total d) + word_of_int (tri 1 (da d) * tri 1 (db d) * tri 1 (dc d)) \<and>
      cxx_calculate ?d \<noteq> None"
    using cxx_calculate_eq [of ?d] u assms by simp
  ultimately show ?thesis by (cases "cxx_calculate ?d") simp_all
qed


theorem cpp_get_total_witness: "\<exists>e. get_total Data_init = Some (166375, e) \<and> get_total e = Some (166375, e)"
  using cpp_get_total [of Data_init] by (auto simp: Data_init_def tri_closed)

theorem cpp_agrees_with_c_witness:
  "map_option d_total (cxx_calculate \<lparr>d_a = 10, d_b = 10, d_c = 10, d_total = 0, is_cached = False\<rparr>) = Some 166375"
proof -
  let ?d = "\<lparr>da = 10, db = 10, dc = 10, total = 0\<rparr>"
  have "calculate ?d = Some (?d\<lparr>total := 166375\<rparr>)"
    using calc_i_sum [of 1 ?d] by (simp add: calculate_def add_total_def tri_closed)
  from cpp_agrees_with_c [OF this] show ?thesis by simp
qed

section \<open>The program\<close>

record cd_globals =
  cd_data :: Data
  cd_out :: "(string \<times> u64) list"

datatype cd_pc = D_get | D_print u64 | D_end

text \<open>The lambda that the thread runs.\<close>

fun cd_thread :: "nat \<Rightarrow> i32 option \<Rightarrow> cd_pc \<Rightarrow> cd_globals \<Rightarrow> (cd_pc, cd_globals) outcome" where
  "cd_thread me a D_get g =
     (case get_total (cd_data g) of None \<Rightarrow> Blocked | Some (v, d) \<Rightarrow> Goto (D_print v) (g\<lparr>cd_data := d\<rparr>))"
| "cd_thread me a (D_print v) g = Goto D_end (g\<lparr>cd_out := cd_out g @ [(''[thread] result is: '', v)]\<rparr>)"
| "cd_thread me a D_end g = Return g"

text \<open>\<open>main\<close> after it has joined the thread: it asks twice, the second time in an assertion.\<close>

definition cd_fini :: "cd_globals \<Rightarrow> string + cd_globals" where
  "cd_fini g =
     (case get_total (cd_data g) of
        None \<Rightarrow> Inl []
      | Some (v, d) \<Rightarrow>
          (case get_total d of
             None \<Rightarrow> Inl []
           | Some (w, d') \<Rightarrow>
               if w = 166375 then Inr (g\<lparr>cd_data := d', cd_out := cd_out g @ [(''[separate] Result = '', v)]\<rparr>)
               else Inl ''Assertion `d.get_total() == 166375' failed.''))"

definition cd_program :: "(cd_pc, cd_globals) program" where
  "cd_program =
     \<lparr>no_th = 1,
      entry = (\<lambda>i. D_get),
      slot = (\<lambda>i. i),
      body = cd_thread,
      bad_rc = (\<lambda>r. r \<noteq> 0),
      init = Inr,
      fini = cd_fini,
      create_msg = (\<lambda>i. []),
      join_msg = [],
      before = (\<lambda>i g. g)\<rparr>"

definition cd_cxx :: "(cd_pc, cd_globals) cxx_program" where
  "cd_cxx = \<lparr>prog = cd_program, catches = False, on_signal = (\<lambda>_. None)\<rparr>"

definition cd_globals0 :: cd_globals where
  "cd_globals0 = \<lparr>cd_data = Data_init, cd_out = []\<rparr>"

definition cd_cached :: Data where
  "cd_cached = Data_init\<lparr>d_total := 166375, is_cached := True\<rparr>"

fun cd_inv :: "cd_pc thread list \<Rightarrow> cd_globals \<Rightarrow> bool" where
  "cd_inv [Unborn] g \<longleftrightarrow> g = cd_globals0"
| "cd_inv [Live D_get] g \<longleftrightarrow> g = cd_globals0"
| "cd_inv [Live (D_print v)] g \<longleftrightarrow> v = 166375 \<and> g = cd_globals0\<lparr>cd_data := cd_cached\<rparr>"
| "cd_inv [_] g \<longleftrightarrow> g = \<lparr>cd_data = cd_cached, cd_out = [(''[thread] result is: '', 166375)]\<rparr>"
| "cd_inv _ g \<longleftrightarrow> False"

fun cd_work :: "cd_pc \<Rightarrow> nat" where
  "cd_work D_get = 2" | "cd_work (D_print v) = 1" | "cd_work D_end = 0"

lemma get_total_once: "get_total Data_init = Some (166375, cd_cached)" "get_total cd_cached = Some (166375, cd_cached)"
  using cxx_calculate_eq [of Data_init]
  by (simp_all add: get_total_def cd_cached_def) (simp_all add: Data_init_def tri_closed)

lemma cd_program_simps [simp]:
  "no_th cd_program = Suc 0" "slot cd_program i = i" "bad_rc cd_program r \<longleftrightarrow> r \<noteq> 0" "init cd_program = Inr"
  "fini cd_program = cd_fini" "entry cd_program i = D_get" "body cd_program = cd_thread" "before cd_program = (\<lambda>i g. g)"
  "prog cd_cxx = cd_program" "on_signal cd_cxx = (\<lambda>_. None)" "\<not> catches cd_cxx"
  by (simp_all add: cd_program_def cd_cxx_def)

lemma cd_invD: "cd_inv ts g \<Longrightarrow> ts ! 0 = Live pc \<Longrightarrow> ts = [Live pc]"
  by (cases "(ts, g)" rule: cd_inv.cases) auto

lemma cd_fini_ok: "cd_fini \<lparr>cd_data = cd_cached, cd_out = os\<rparr> = Inr \<lparr>cd_data = cd_cached, cd_out = os @ [(''[separate] Result = '', 166375)]\<rparr>"
  by (simp add: cd_fini_def get_total_once)

interpretation cdx: cxx_counted cd_program cd_globals0 cd_inv cd_work cd_cxx
proof (unfold_locales, goal_cases)
  case (5 ts g i)
  then show ?case by (cases "(ts, g)" rule: cd_inv.cases) auto
next
  case (6 ts g i pc pc' g')
  then show ?case using cd_invD [of ts g pc]
    by (cases pc) (auto simp: get_total_once cd_globals0_def split: option.splits)
next
  case (7 ts g i pc g')
  then show ?case using cd_invD [of ts g pc] by (cases pc) (auto split: option.splits)
next
  case (8 ts g i pc)
  then show ?case by (cases pc) (auto split: option.splits)
next
  case (9 g)
  then show ?case by (simp add: cd_fini_ok)
next
  case (10 ts g i pc pc' g')
  then show ?case by (cases pc) (auto split: option.splits)
next
  case (11 ts g k)
  then obtain pc where pc: "ts ! 0 = Live pc" by (cases "ts ! 0") auto
  with 11 cd_invD [of ts g pc] have "cd_thread 0 (Some 0) pc g \<noteq> Blocked"
    by (cases pc) (auto simp: get_total_once cd_globals0_def)
  with pc show ?case by auto
qed auto

text \<open>
  The C++ version of lab 2a calculates once: under every schedule thread and \<open>main\<close> print 166375,
  the assertion of \<open>main\<close> holds, and the total has not been added to a second time.
\<close>

theorem cpp_calculate_program:
  assumes "run (cxx_step e cd_cxx) sch (Alive (boot cd_program cd_globals0)) = Some st"
    and "\<forall>a. cxx_step e cd_cxx a st = None"
  shows "if throws e 0 then \<exists>s. st = Terminated s
    else \<exists>s. st = Alive s \<and> main s = Exited EXIT_SUCCESS \<and> d_total (cd_data (glob s)) = 166375 \<and>
      cd_out (glob s) = [(''[thread] result is: '', 166375), (''[separate] Result = '', 166375)]"
proof (cases "throws e 0")
  case True
  with cdx.cxx_maximal [OF assms] show ?thesis by auto
next
  case False
  with cdx.cxx_maximal [OF assms] obtain s h where "st = Alive s" "main s = Exited EXIT_SUCCESS" "cd_inv [Done] h"
      "cd_fini h = Inr (glob s)"
    by auto
  moreover from this have "Inr (glob s) = cd_fini \<lparr>cd_data = cd_cached, cd_out = [(''[thread] result is: '', 166375)]\<rparr>"
    by simp
  then have "glob s = \<lparr>cd_data = cd_cached, cd_out = [(''[thread] result is: '', 166375), (''[separate] Result = '', 166375)]\<rparr>"
    by (simp add: cd_fini_ok)
  ultimately show ?thesis using False by (simp add: cd_cached_def)
qed

theorem cpp_calculate_program_witness:
  "\<exists>sch s. run (cxx_step all_start cd_cxx) sch (Alive (boot cd_program cd_globals0)) = Some (Alive s) \<and>
     d_total (cd_data (glob s)) = 166375"
proof -
  obtain sch st where r: "run (cxx_step all_start cd_cxx) sch (Alive (boot cd_program cd_globals0)) = Some st"
      "\<forall>a. cxx_step all_start cd_cxx a st = None"
    using cdx.cxx_can_end by blast
  with cpp_calculate_program [OF r] show ?thesis by (auto simp: all_start_def)
qed

end
