(* ===== verification/Fork_Exec.thy ===== *)
theory Fork_Exec
  imports Pthread
begin

text \<open>
  \<^verbatim>\<open>c/c_lab01.c\<close>: fork a child that executes gedit, wait for it and print its status.
  Parent and child are two actors of one step function. What the system decides is in
  \<open>fork_env\<close>: whether \<open>fork\<close>, \<open>execl\<close> and \<open>waitpid\<close> succeed, the process numbers, and how
  gedit ends.
\<close>

section \<open>The program\<close>

datatype ending = Exit_code int | Killed nat

text \<open>The status word that \<open>waitpid\<close> stores: the exit code in the second byte, or the signal in the first.\<close>

fun wait_status :: "ending \<Rightarrow> int" where
  "wait_status (Exit_code c) = 256 * (c mod 256)"
| "wait_status (Killed n) = int n mod 128"

record fork_env =
  fork_ok :: bool
  exec_ok :: bool
  wait_ok :: bool
  parent_pid :: int
  child_pid :: int
  gedit_ends :: ending

datatype fork_line = Im_parent int | Waiting_to_close int | Child_exited int

datatype parent_pc = P_fork | P_print | P_wait | P_exit int
datatype child_pc = No_child | C_print | C_exec | C_gedit | C_return | C_exit ending

record fork_state =
  parent :: parent_pc
  child :: child_pc
  fout :: "fork_line list"
  ferr :: "string list"

text \<open>
  \<open>execute_child\<close> and \<open>wait_child\<close> first check the process number they are given; the
  numbers are those \<open>fork\<close> returned. \<open>execl\<close> does not return when it succeeds: the child
  then is gedit. When it fails it returns -1, and only a different value is an error here.
\<close>

definition execl_result :: int where
  "execl_result = -1"

definition execute_child :: "fork_env \<Rightarrow> int \<Rightarrow> fork_state \<Rightarrow> fork_state option" where
  "execute_child e ppid s =
     (case child s of
        C_print \<Rightarrow>
          if ppid \<noteq> 0 then Some (s\<lparr>ferr := ferr s @ [''Not a child process!''], child := C_exit (Exit_code EXIT_FAILURE)\<rparr>)
          else Some (s\<lparr>fout := fout s @ [Waiting_to_close (child_pid e)], child := C_exec\<rparr>)
      | C_exec \<Rightarrow>
          if exec_ok e then Some (s\<lparr>child := C_gedit\<rparr>)
          else if execl_result \<noteq> -1 then
            Some (s\<lparr>ferr := ferr s @ [''Can't open gedit''], child := C_exit (Exit_code EXIT_FAILURE)\<rparr>)
          else Some (s\<lparr>child := C_return\<rparr>)
      | C_gedit \<Rightarrow> Some (s\<lparr>child := C_exit (gedit_ends e)\<rparr>)
      | C_return \<Rightarrow> Some (s\<lparr>child := C_exit (Exit_code EXIT_SUCCESS)\<rparr>)
      | _ \<Rightarrow> None)"

definition wait_child :: "fork_env \<Rightarrow> int \<Rightarrow> fork_state \<Rightarrow> fork_state option" where
  "wait_child e pid s =
     (if pid = 0 then Some (s\<lparr>ferr := ferr s @ [''Not a parent process!''], parent := P_exit EXIT_FAILURE\<rparr>)
      else if \<not> wait_ok e then
        Some (s\<lparr>ferr := ferr s @ [''Error waiting child process''], parent := P_exit EXIT_FAILURE\<rparr>)
      else
        (case child s of
           C_exit how \<Rightarrow> Some (s\<lparr>fout := fout s @ [Child_exited (wait_status how)], parent := P_exit EXIT_SUCCESS\<rparr>)
         | _ \<Rightarrow> None))"

definition fork_main :: "fork_env \<Rightarrow> fork_state \<Rightarrow> fork_state option" where
  "fork_main e s =
     (case parent s of
        P_fork \<Rightarrow>
          if fork_ok e then Some (s\<lparr>parent := P_print, child := C_print\<rparr>)
          else Some (s\<lparr>ferr := ferr s @ [''Can't fork process''], parent := P_exit EXIT_FAILURE\<rparr>)
      | P_print \<Rightarrow> Some (s\<lparr>fout := fout s @ [Im_parent (parent_pid e)], parent := P_wait\<rparr>)
      | P_wait \<Rightarrow> wait_child e (child_pid e) s
      | P_exit _ \<Rightarrow> None)"

text \<open>\<open>True\<close> is the parent, \<open>False\<close> the child, in which \<open>fork\<close> returned zero.\<close>

definition fork_step :: "fork_env \<Rightarrow> bool \<Rightarrow> fork_state \<Rightarrow> fork_state option" where
  "fork_step e who s = (if who then fork_main e s else execute_child e 0 s)"

definition fork_boot :: fork_state where
  "fork_boot = \<lparr>parent = P_fork, child = No_child, fout = [], ferr = []\<rparr>"

section \<open>The invariant\<close>

definition child_ending :: "fork_env \<Rightarrow> ending" where
  "child_ending e = (if exec_ok e then gedit_ends e else Exit_code EXIT_SUCCESS)"

fun child_ok :: "fork_env \<Rightarrow> child_pc \<Rightarrow> bool" where
  "child_ok e (C_exit how) \<longleftrightarrow> how = child_ending e"
| "child_ok e C_gedit \<longleftrightarrow> exec_ok e"
| "child_ok e C_return \<longleftrightarrow> \<not> exec_ok e"
| "child_ok e _ \<longleftrightarrow> True"

text \<open>Parent and child say one line each before the parent reports, in either order.\<close>

fun fork_said :: "fork_env \<Rightarrow> bool \<Rightarrow> bool \<Rightarrow> fork_line list set" where
  "fork_said e False False = {[]}"
| "fork_said e True False = {[Im_parent (parent_pid e)]}"
| "fork_said e False True = {[Waiting_to_close (child_pid e)]}"
| "fork_said e True True =
     {[Im_parent (parent_pid e), Waiting_to_close (child_pid e)],
      [Waiting_to_close (child_pid e), Im_parent (parent_pid e)]}"

definition child_said :: "child_pc \<Rightarrow> bool" where
  "child_said c \<longleftrightarrow> c \<noteq> No_child \<and> c \<noteq> C_print"

definition fork_reported :: "fork_env \<Rightarrow> fork_line list set" where
  "fork_reported e = (\<lambda>xs. xs @ [Child_exited (wait_status (child_ending e))]) ` fork_said e True True"

fun fork_inv :: "fork_env \<Rightarrow> parent_pc \<Rightarrow> child_pc \<Rightarrow> fork_line list \<Rightarrow> string list \<Rightarrow> bool" where
  "fork_inv e P_fork c out er \<longleftrightarrow> c = No_child \<and> out = [] \<and> er = []"
| "fork_inv e P_print c out er \<longleftrightarrow>
     fork_ok e \<and> c \<noteq> No_child \<and> child_ok e c \<and> out \<in> fork_said e False (child_said c) \<and> er = []"
| "fork_inv e P_wait c out er \<longleftrightarrow>
     fork_ok e \<and> c \<noteq> No_child \<and> child_ok e c \<and> out \<in> fork_said e True (child_said c) \<and> er = []"
| "fork_inv e (P_exit n) c out er \<longleftrightarrow>
     (if \<not> fork_ok e then n = EXIT_FAILURE \<and> c = No_child \<and> out = [] \<and> er = [''Can't fork process'']
      else if \<not> wait_ok e then n = EXIT_FAILURE \<and> er = [''Error waiting child process'']
      else n = EXIT_SUCCESS \<and> c = C_exit (child_ending e) \<and> er = [] \<and> out \<in> fork_reported e)"

lemma fork_said_parent: "xs \<in> fork_said e False c \<Longrightarrow> xs @ [Im_parent (parent_pid e)] \<in> fork_said e True c"
  by (cases c) auto

lemma fork_said_child: "xs \<in> fork_said e p False \<Longrightarrow> xs @ [Waiting_to_close (child_pid e)] \<in> fork_said e p True"
  by (cases p) auto

fun parent_work :: "parent_pc \<Rightarrow> nat" where
  "parent_work P_fork = 7" | "parent_work P_print = 2" | "parent_work P_wait = 1" | "parent_work (P_exit n) = 0"

fun child_work :: "child_pc \<Rightarrow> nat" where
  "child_work No_child = 0" | "child_work C_print = 4" | "child_work C_exec = 3" | "child_work C_gedit = 1"
| "child_work C_return = 1" | "child_work (C_exit h) = 0"

lemma fork_main_ok:
  assumes "0 < child_pid e" "fork_inv e (parent s) (child s) (fout s) (ferr s)" "fork_main e s = Some t"
  shows "fork_inv e (parent t) (child t) (fout t) (ferr t) \<and>
    parent_work (parent t) + child_work (child t) < parent_work (parent s) + child_work (child s)"
proof (cases "parent s")
  case P_fork
  with assms show ?thesis by (auto simp: fork_main_def child_said_def split: if_splits)
next
  case P_print
  with assms show ?thesis by (auto simp: fork_main_def fork_said_parent)
next
  case P_wait
  show ?thesis
  proof (cases "wait_ok e")
    case True
    with assms P_wait obtain how where "child s = C_exit how"
        "t = s\<lparr>fout := fout s @ [Child_exited (wait_status how)], parent := P_exit EXIT_SUCCESS\<rparr>"
      by (auto simp: fork_main_def wait_child_def split: child_pc.splits)
    with P_wait True assms(2) show ?thesis by (simp add: fork_reported_def child_said_def)
  next
    case False
    with assms P_wait show ?thesis by (auto simp: fork_main_def wait_child_def)
  qed
qed (use assms in \<open>simp add: fork_main_def\<close>)

lemma fork_child_ok:
  assumes "fork_inv e (parent s) (child s) (fout s) (ferr s)" "execute_child e 0 s = Some t"
  shows "fork_inv e (parent t) (child t) (fout t) (ferr t) \<and>
    parent_work (parent t) + child_work (child t) < parent_work (parent s) + child_work (child s)"
proof -
  have t: "parent t = parent s \<and> ferr t = ferr s \<and> child_work (child t) < child_work (child s) \<and>
      child s \<noteq> No_child \<and> (\<forall>h. child s \<noteq> C_exit h) \<and> child t \<noteq> No_child \<and>
      (child_ok e (child s) \<longrightarrow> child_ok e (child t)) \<and>
      (if child s = C_print then \<not> child_said (child s) \<and> child_said (child t) \<and> fout t = fout s @ [Waiting_to_close (child_pid e)]
       else child_said (child t) = child_said (child s) \<and> fout t = fout s)"
    using assms(2)
    by (cases "child s") (auto simp: execute_child_def child_said_def child_ending_def execl_result_def split: if_splits)
  with assms(1) show ?thesis
    by (cases "parent s") (auto split: if_splits intro: fork_said_child)
qed

text \<open>The process number of a child is positive; the theorems assume it.\<close>

lemma fork_stuck:
  assumes "0 < child_pid e" "fork_inv e (parent s) (child s) (fout s) (ferr s)" "\<And>who. fork_step e who s = None"
  shows "\<exists>n. parent s = P_exit n"
proof -
  from assms(3) [of True] assms(3) [of False] have "fork_main e s = None" "execute_child e 0 s = None"
    by (simp_all add: fork_step_def)
  with assms(1,2) show ?thesis
    by (cases "parent s"; cases "child s")
      (auto simp: fork_main_def wait_child_def execute_child_def split: if_splits)
qed

definition fork_state_ok :: "fork_env \<Rightarrow> fork_state \<Rightarrow> bool" where
  "fork_state_ok e s \<longleftrightarrow> fork_inv e (parent s) (child s) (fout s) (ferr s)"

definition valid_env :: "fork_env \<Rightarrow> fork_env" where
  "valid_env e = (if 0 < child_pid e then e else e\<lparr>child_pid := 1\<rparr>)"

lemma valid_env_pos: "0 < child_pid (valid_env e)"
  by (simp add: valid_env_def)

interpretation fk: terminating_system "fork_step (valid_env e)" fork_boot "fork_state_ok (valid_env e)"
  "\<lambda>s. parent_work (parent s) + child_work (child s)" "\<lambda>s. \<exists>n. parent s = P_exit n" for e
proof unfold_locales
  show "fork_state_ok (valid_env e) fork_boot" by (simp add: fork_state_ok_def fork_boot_def)
next
  fix s who t
  assume "fork_state_ok (valid_env e) s" "fork_step (valid_env e) who s = Some t"
  then show "fork_state_ok (valid_env e) t"
    and "parent_work (parent t) + child_work (child t) < parent_work (parent s) + child_work (child s)"
    using fork_main_ok [OF valid_env_pos, of e s t] fork_child_ok [of "valid_env e" s t]
    by (auto simp: fork_step_def fork_state_ok_def split: if_splits)
qed (auto simp: fork_state_ok_def intro: fork_stuck [OF valid_env_pos])

section \<open>Properties\<close>

text \<open>
  C33. Lab 1 waits for its child: when \<open>fork\<close> and \<open>waitpid\<close> succeed, a run that cannot be
  extended has at most seven steps and ends with the parent's exit status zero. Parent
  and child have each said their line, in either order, and the last line of the output
  is the status of the child. That status is gedit's if gedit could be executed. If it
  could not, the child reports nothing on stderr and exits with status zero, as if all
  were well: \<open>execl\<close> returns -1 exactly when it fails, and the code takes -1 for success.
\<close>

theorem fork_waits_for_child:
  assumes "0 < child_pid e" and "fork_ok e" and "wait_ok e"
    and "run (fork_step e) sch fork_boot = Some s" and "\<forall>who. fork_step e who s = None"
  shows "parent s = P_exit EXIT_SUCCESS \<and> ferr s = [] \<and> length sch \<le> 7 \<and>
    (\<exists>how. child s = C_exit how \<and> (if exec_ok e then how = gedit_ends e else how = Exit_code EXIT_SUCCESS) \<and>
      (\<exists>xs \<in> {[Im_parent (parent_pid e), Waiting_to_close (child_pid e)],
              [Waiting_to_close (child_pid e), Im_parent (parent_pid e)]}.
        fout s = xs @ [Child_exited (wait_status how)]))"
proof -
  from assms(1) have e: "valid_env e = e" by (simp add: valid_env_def)
  from fk.run_inv [of e, unfolded e, OF assms(4)] have inv: "fork_state_ok e s" .
  from fk.maximal_final [of e, unfolded e, OF assms(4)] assms(5) obtain n where "parent s = P_exit n" by blast
  with inv assms(2,3) have "parent s = P_exit EXIT_SUCCESS" "child s = C_exit (child_ending e)" "ferr s = []"
    "fout s \<in> fork_reported e" by (auto simp: fork_state_ok_def)
  moreover have "length sch \<le> 7"
    using fk.run_bounded [of e, unfolded e, OF assms(4)] by (simp add: fork_boot_def)
  ultimately show ?thesis by (auto simp: fork_reported_def child_ending_def)
qed

definition no_gedit :: fork_env where
  "no_gedit = \<lparr>fork_ok = True, exec_ok = False, wait_ok = True, parent_pid = 100, child_pid = 101, gedit_ends = Exit_code 0\<rparr>"

definition no_gedit_end :: fork_state where
  "no_gedit_end = the (run (fork_step no_gedit) [True, False, True, False, False, True] fork_boot)"

theorem fork_waits_for_child_witness:
  "run (fork_step no_gedit) [True, False, True, False, False, True] fork_boot = Some no_gedit_end \<and>
   ferr no_gedit_end = [] \<and> child no_gedit_end = C_exit (Exit_code 0) \<and>
   fout no_gedit_end = [Waiting_to_close 101, Im_parent 100, Child_exited 0]"
proof -
  have r: "run (fork_step no_gedit) [True, False, True, False, False, True] fork_boot = Some no_gedit_end"
    by code_simp
  have out: "fout no_gedit_end = [Waiting_to_close 101, Im_parent 100, Child_exited 0]" by code_simp
  have "fork_step no_gedit True no_gedit_end = None" "fork_step no_gedit False no_gedit_end = None" by code_simp+
  then have "\<forall>who. fork_step no_gedit who no_gedit_end = None" by (metis (full_types))
  from fork_waits_for_child [OF _ _ _ r this] r out show ?thesis by (auto simp: no_gedit_def)
qed

text \<open>
  What lab 1 prints as the exit code is the raw status word: for a child that exits
  with a code between 1 and 255, the number printed is 256 times that code.
\<close>

theorem fork_prints_raw_status:
  assumes "0 < child_pid e" and "fork_ok e" and "exec_ok e" and "wait_ok e"
    and "gedit_ends e = Exit_code c" and "0 < c" and "c < 256"
    and "run (fork_step e) sch fork_boot = Some s" and "\<forall>who. fork_step e who s = None"
  shows "last (fout s) = Child_exited (256 * c) \<and> last (fout s) \<noteq> Child_exited c"
proof -
  from assms(1) have e: "valid_env e = e" by (simp add: valid_env_def)
  from fk.run_inv [of e, unfolded e, OF assms(8)] have inv: "fork_state_ok e s" .
  from fk.maximal_final [of e, unfolded e, OF assms(8)] assms(9) obtain n where "parent s = P_exit n" by blast
  with inv assms have "fout s \<in> fork_reported e" by (auto simp: fork_state_ok_def)
  with assms show ?thesis by (auto simp: fork_reported_def child_ending_def)
qed

definition gedit_fails :: fork_env where
  "gedit_fails = \<lparr>fork_ok = True, exec_ok = True, wait_ok = True, parent_pid = 100, child_pid = 101, gedit_ends = Exit_code 1\<rparr>"

definition gedit_fails_end :: fork_state where
  "gedit_fails_end = the (run (fork_step gedit_fails) [True, True, False, False, False, True] fork_boot)"

theorem fork_prints_raw_status_witness:
  "last (fout gedit_fails_end) = Child_exited 256 \<and> last (fout gedit_fails_end) \<noteq> Child_exited 1"
proof -
  have r: "run (fork_step gedit_fails) [True, True, False, False, False, True] fork_boot = Some gedit_fails_end"
    by code_simp
  have "fork_step gedit_fails True gedit_fails_end = None" "fork_step gedit_fails False gedit_fails_end = None"
    by code_simp+
  then have "\<forall>who. fork_step gedit_fails who gedit_fails_end = None" by (metis (full_types))
  from fork_prints_raw_status [OF _ _ _ _ _ _ _ r this, of 1] show ?thesis by (simp add: gedit_fails_def)
qed

end
