(* ===== verification/Cpp_Fork.thy ===== *)
theory Cpp_Fork
  imports Fork_Exec
begin

text \<open>
  \<^verbatim>\<open>cpp/cc_lab01.cc\<close> with \<^verbatim>\<open>cpp/include/custom_exception.hh\<close>: lab 1 in C++, where errors are
  exceptions. An object is thrown by value (\<open>throw X\<close>) or as a pointer to a new object
  (\<open>throw new X\<close>); a handler for a reference to the base class receives the former only, the
  latter ends in \<open>catch (...)\<close>. Program points and output are those of theory \<open>Fork_Exec\<close>; the
  child runs gedit with \<open>system\<close>, whose result is a parameter, and both processes return from
  \<open>main\<close> after a handler.
\<close>

section \<open>The exceptions\<close>

datatype exception = PIDException string | OpenException string

datatype thrown = By_value exception | By_pointer exception

definition exc_what :: "string \<Rightarrow> string \<Rightarrow> string" where
  "exc_what strerror msg = msg @ '':'' @ strerror"

fun what :: "string \<Rightarrow> exception \<Rightarrow> string" where
  "what strerror (PIDException msg) = ''PID: '' @ exc_what strerror msg"
| "what strerror (OpenException msg) = ''Open: '' @ exc_what strerror msg"

text \<open>The two handlers of \<open>main\<close>: what is printed to stderr.\<close>

fun catch_clauses :: "string \<Rightarrow> thrown \<Rightarrow> string" where
  "catch_clauses strerror (By_value x) = what strerror x"
| "catch_clauses strerror (By_pointer x) = ''other error''"

section \<open>The program\<close>

record cf_env =
  cf_fork_ok :: bool
  cf_wait_ok :: bool
  system_result :: int
  cf_parent_pid :: int
  cf_child_pid :: int
  strerror :: string

definition child_throws :: "cf_env \<Rightarrow> thrown \<Rightarrow> fork_state \<Rightarrow> fork_state" where
  "child_throws e x s =
     s\<lparr>ferr := ferr s @ [catch_clauses (strerror e) x], child := C_exit (Exit_code EXIT_SUCCESS)\<rparr>"

definition parent_throws :: "cf_env \<Rightarrow> thrown \<Rightarrow> fork_state \<Rightarrow> fork_state" where
  "parent_throws e x s = s\<lparr>ferr := ferr s @ [catch_clauses (strerror e) x], parent := P_exit EXIT_SUCCESS\<rparr>"

text \<open>The lambdas \<open>execute_child\<close>, \<open>wait_child\<close> and \<open>create_fork\<close>, with the rest of \<open>main\<close>.\<close>

definition cxx_execute_child :: "cf_env \<Rightarrow> int \<Rightarrow> fork_state \<Rightarrow> fork_state option" where
  "cxx_execute_child e ppid s =
     (case child s of
        C_print \<Rightarrow>
          if ppid \<noteq> 0 then Some (child_throws e (By_value (PIDException ''Not a child process!'')) s)
          else Some (s\<lparr>fout := fout s @ [Waiting_to_close (cf_child_pid e)], child := C_exec\<rparr>)
      | C_exec \<Rightarrow>
          if system_result e \<noteq> 0 then Some (child_throws e (By_pointer (OpenException ''Can't open gedit'')) s)
          else Some (s\<lparr>child := C_exit (Exit_code EXIT_SUCCESS)\<rparr>)
      | _ \<Rightarrow> None)"

definition cxx_wait_child :: "cf_env \<Rightarrow> int \<Rightarrow> fork_state \<Rightarrow> fork_state option" where
  "cxx_wait_child e pid s =
     (if pid = 0 then Some (parent_throws e (By_pointer (PIDException ''Not a parent process!'')) s)
      else if \<not> cf_wait_ok e then Some (parent_throws e (By_pointer (PIDException ''Error waiting child process'')) s)
      else
        (case child s of
           C_exit how \<Rightarrow> Some (s\<lparr>fout := fout s @ [Child_exited (wait_status how)], parent := P_exit EXIT_SUCCESS\<rparr>)
         | _ \<Rightarrow> None))"

definition cxx_fork_main :: "cf_env \<Rightarrow> fork_state \<Rightarrow> fork_state option" where
  "cxx_fork_main e s =
     (case parent s of
        P_fork \<Rightarrow>
          if cf_fork_ok e then Some (s\<lparr>parent := P_print, child := C_print\<rparr>)
          else Some (parent_throws e (By_pointer (PIDException ''Can't fork process'')) s)
      | P_print \<Rightarrow> Some (s\<lparr>fout := fout s @ [Im_parent (cf_parent_pid e)], parent := P_wait\<rparr>)
      | P_wait \<Rightarrow> cxx_wait_child e (cf_child_pid e) s
      | P_exit _ \<Rightarrow> None)"

definition cf_step :: "cf_env \<Rightarrow> bool \<Rightarrow> fork_state \<Rightarrow> fork_state option" where
  "cf_step e who s = (if who then cxx_fork_main e s else cxx_execute_child e 0 s)"

section \<open>The invariant\<close>

definition cf_child_err :: "cf_env \<Rightarrow> child_pc \<Rightarrow> string list" where
  "cf_child_err e c = (if system_result e \<noteq> 0 \<and> c = C_exit (Exit_code EXIT_SUCCESS) then [''other error''] else [])"

definition cf_child_ok :: "child_pc \<Rightarrow> bool" where
  "cf_child_ok c \<longleftrightarrow> c \<in> {C_print, C_exec, C_exit (Exit_code EXIT_SUCCESS)}"

fun cf_inv :: "cf_env \<Rightarrow> parent_pc \<Rightarrow> child_pc \<Rightarrow> fork_line list \<Rightarrow> string list \<Rightarrow> bool" where
  "cf_inv e P_fork c out er \<longleftrightarrow> c = No_child \<and> out = [] \<and> er = []"
| "cf_inv e (P_exit n) c out er \<longleftrightarrow>
     n = EXIT_SUCCESS \<and>
     (if \<not> cf_fork_ok e then c = No_child \<and> out = [] \<and> er = [''other error'']
      else if \<not> cf_wait_ok e then cf_child_ok c \<and> er = ''other error'' # cf_child_err e c
      else c = C_exit (Exit_code EXIT_SUCCESS) \<and> er = cf_child_err e c \<and> out \<noteq> [] \<and> last out = Child_exited 0)"
| "cf_inv e p c out er \<longleftrightarrow> cf_fork_ok e \<and> cf_child_ok c \<and> er = cf_child_err e c"

definition cf_state_ok :: "cf_env \<Rightarrow> fork_state \<Rightarrow> bool" where
  "cf_state_ok e s \<longleftrightarrow> cf_inv e (parent s) (child s) (fout s) (ferr s)"

fun cf_child_work :: "child_pc \<Rightarrow> nat" where
  "cf_child_work C_print = 2" | "cf_child_work C_exec = 1" | "cf_child_work _ = 0"

definition cf_work :: "fork_state \<Rightarrow> nat" where
  "cf_work s = parent_work (parent s) + cf_child_work (child s)"

lemmas cf_defs = cf_step_def cxx_fork_main_def cxx_execute_child_def cxx_wait_child_def child_throws_def
  parent_throws_def cf_state_ok_def cf_work_def

lemma cf_parent_step:
  assumes "cf_state_ok e s" and "cxx_fork_main e s = Some t" and "0 < cf_child_pid e"
  shows "cf_state_ok e t \<and> cf_work t < cf_work s"
proof (cases "parent s")
  case P_wait
  with assms show ?thesis
    by (cases "child s") (auto simp: cf_defs cf_child_ok_def cf_child_err_def split: if_splits)
qed (use assms in \<open>auto simp: cf_defs cf_child_ok_def cf_child_err_def split: if_splits\<close>)

lemma cf_child_step:
  assumes "cf_state_ok e s" and "cxx_execute_child e 0 s = Some t"
  shows "cf_state_ok e t \<and> cf_work t < cf_work s"
proof -
  have t: "parent t = parent s \<and> ferr t = ferr s @ cf_child_err e (child t) \<and> cf_child_ok (child t) \<and>
      (child s = C_print \<or> child s = C_exec) \<and> cf_child_work (child t) < cf_child_work (child s)"
    using assms(2)
    by (cases "child s") (auto simp: cxx_execute_child_def child_throws_def cf_child_err_def cf_child_ok_def split: if_splits)
  then have none: "cf_child_err e (child s) = []" and not_done: "child s \<noteq> C_exit how" "child s \<noteq> No_child" for how
    by (auto simp: cf_child_err_def)
  from assms(1) have "cf_inv e (parent s) (child s) (fout s) (ferr s)" by (simp only: cf_state_ok_def)
  then have "cf_inv e (parent s) (child t) (fout t) (ferr s @ cf_child_err e (child t))"
    using t none not_done by (cases "parent s") (simp_all split: if_splits)
  moreover from t have "parent t = parent s" "ferr t = ferr s @ cf_child_err e (child t)"
    "cf_child_work (child t) < cf_child_work (child s)" by blast+
  ultimately show ?thesis unfolding cf_state_ok_def cf_work_def by simp
qed

lemma cf_any_step:
  assumes "cf_state_ok e s" and "cf_step e who s = Some t" and "0 < cf_child_pid e"
  shows "cf_state_ok e t \<and> cf_work t < cf_work s"
proof (cases who)
  case True
  with assms show ?thesis by (intro cf_parent_step) (simp_all add: cf_step_def)
next
  case False
  with assms show ?thesis by (intro cf_child_step) (simp_all add: cf_step_def)
qed

lemma cf_terminating:
  assumes "0 < cf_child_pid e"
  shows "terminating_system (cf_step e) fork_boot (cf_state_ok e) cf_work (\<lambda>s. \<exists>n. parent s = P_exit n)"
proof (unfold_locales, goal_cases)
  case 1
  show ?case by (simp add: cf_state_ok_def fork_boot_def)
next
  case (2 s who t)
  then show ?case by (rule conjunct1 [OF cf_any_step [OF _ _ assms]])
next
  case (3 s who t)
  then show ?case by (rule conjunct2 [OF cf_any_step [OF _ _ assms]])
next
  case (4 s)
  from 4(2) [of True] 4(2) [of False] have "cxx_fork_main e s = None" "cxx_execute_child e 0 s = None"
    by (simp_all add: cf_step_def)
  with 4(1) assms show ?case
    by (cases "parent s"; cases "child s") (auto simp: cf_defs cf_child_ok_def split: if_splits)
qed

text \<open>
  C10. The C++ version of lab 1 tells nobody what went wrong. Its errors are thrown as pointers,
  which the handler for the exception classes does not receive: whichever call fails, all that is
  printed is \<open>other error\<close>, never the text of the exception. Parent and child exit with status zero
  in every case, and the status that the parent reports is zero even if gedit could not be started.
\<close>

theorem cpp_fork_hides_errors:
  assumes "0 < cf_child_pid e" and "run (cf_step e) sch fork_boot = Some s" and "\<forall>who. cf_step e who s = None"
  shows "length sch \<le> 7 \<and> parent s = P_exit EXIT_SUCCESS \<and> set (ferr s) \<subseteq> {''other error''} \<and>
    (ferr s = [] \<longleftrightarrow> cf_fork_ok e \<and> cf_wait_ok e \<and> system_result e = 0) \<and>
    (cf_fork_ok e \<longrightarrow> child s = C_exit (Exit_code EXIT_SUCCESS)) \<and>
    (cf_fork_ok e \<and> cf_wait_ok e \<longrightarrow> last (fout s) = Child_exited 0)"
proof -
  note sys = cf_terminating [OF assms(1)]
  have inv: "cf_state_ok e s"
    by (rule invariant_system.run_inv [OF terminating_system.axioms(1) [OF sys] assms(2)])
  obtain n where n: "parent s = P_exit n"
    using terminating_system.maximal_final [OF sys assms(2)] assms(3) by blast
  have "cxx_execute_child e 0 s = None" using spec [OF assms(3), of False] by (simp add: cf_step_def)
  then have "child s \<noteq> C_print" "child s \<noteq> C_exec" by (auto simp: cxx_execute_child_def split: if_splits)
  moreover have "length sch \<le> 7"
    using terminating_system.run_bounded [OF sys assms(2)] by (simp add: cf_work_def fork_boot_def)
  ultimately show ?thesis using inv n
    by (auto simp: cf_state_ok_def cf_child_ok_def cf_child_err_def split: if_splits)
qed

text \<open>gedit cannot be started: \<open>system\<close> returns the status of a shell that exited with 127.\<close>

definition cf_no_gedit :: cf_env where
  "cf_no_gedit =
     \<lparr>cf_fork_ok = True, cf_wait_ok = True, system_result = 32512, cf_parent_pid = 100, cf_child_pid = 101,
      strerror = ''No such file or directory''\<rparr>"

definition cf_no_gedit_end :: fork_state where
  "cf_no_gedit_end = the (run (cf_step cf_no_gedit) [True, True, False, False, True] fork_boot)"

theorem cpp_fork_hides_errors_witness:
  "ferr cf_no_gedit_end = [''other error''] \<and> last (fout cf_no_gedit_end) = Child_exited 0"
proof -
  have r: "run (cf_step cf_no_gedit) [True, True, False, False, True] fork_boot = Some cf_no_gedit_end" by code_simp
  have "cf_step cf_no_gedit True cf_no_gedit_end = None" "cf_step cf_no_gedit False cf_no_gedit_end = None" by code_simp+
  then have "\<forall>who. cf_step cf_no_gedit who cf_no_gedit_end = None" by (metis (full_types))
  moreover have "ferr cf_no_gedit_end = [''other error'']" by code_simp
  ultimately show ?thesis using cpp_fork_hides_errors [OF _ r] by (simp add: cf_no_gedit_def)
qed

interpretation cfk: terminating_system "cf_step cf_no_gedit" fork_boot "cf_state_ok cf_no_gedit" cf_work
  "\<lambda>s. \<exists>n. parent s = P_exit n"
  by (rule cf_terminating) (simp add: cf_no_gedit_def)

end
