(* ===== verification/Cstring.thy ===== *)
theory Cstring
  imports Prelude "HOL-Library.Sublist"
begin

text \<open>
  C strings in character arrays, as far as the message-passing programs use them:
  \<open>fgets\<close>, \<open>strtok\<close> with the delimiter newline, \<open>strncmp\<close>, \<open>strncasecmp\<close>, \<open>strncpy\<close>,
  \<open>strncat\<close> and \<open>memset\<close>.

  An array is a list of characters of fixed length; \<open>c_str\<close> is the string in it, and
  \<open>None\<close> where a library function would run over the end of the array because there is
  no terminating null character. What an array holds before the first write is
  arbitrary, so it is a parameter wherever it matters. Standard input is the list of
  characters still to come.
\<close>

section \<open>Strings in arrays\<close>

abbreviation (input) NUL :: char where "NUL \<equiv> CHR 0x00"
abbreviation (input) NEWLINE :: char where "NEWLINE \<equiv> CHR 0x0A"

type_synonym cbuf = "char list"

definition c_str :: "cbuf \<Rightarrow> string option" where
  "c_str buf = (if NUL \<in> set buf then Some (takeWhile (\<lambda>c. c \<noteq> NUL) buf) else None)"

text \<open>Writing a block of bytes at the beginning of an array.\<close>

definition overwrite :: "char list \<Rightarrow> cbuf \<Rightarrow> cbuf" where
  "overwrite xs buf = xs @ drop (length xs) buf"

section \<open>Library functions\<close>

text \<open>
  \<open>fgets(buf, n, stdin)\<close> takes the characters up to and including the next newline, but at
  most \<open>n - 1\<close>, and terminates them. At the end of the input it returns null and leaves
  the array alone.
\<close>

fun get_line :: "nat \<Rightarrow> char list \<Rightarrow> char list \<times> char list" where
  "get_line 0 inp = ([], inp)"
| "get_line (Suc n) [] = ([], [])"
| "get_line (Suc n) (c # cs) =
     (if c = NEWLINE then ([c], cs) else (case get_line n cs of (l, rest) \<Rightarrow> (c # l, rest)))"

definition fgets :: "nat \<Rightarrow> cbuf \<Rightarrow> char list \<Rightarrow> cbuf \<times> char list" where
  "fgets n buf inp =
     (if inp = [] then (buf, [])
      else (case get_line (n - 1) inp of (l, rest) \<Rightarrow> (overwrite (l @ [NUL]) buf, rest)))"

text \<open>
  The first call \<open>strtok(buf, "\n")\<close> skips leading newlines and replaces the first newline
  after the token, if there is one, by a null character. A string of newlines only is
  left as it is. \<open>None\<close>: no string in the array.
\<close>

definition strtok_newline :: "cbuf \<Rightarrow> cbuf option" where
  "strtok_newline buf =
     (case c_str buf of
        None \<Rightarrow> None
      | Some s \<Rightarrow>
          (let start = length (takeWhile (\<lambda>c. c = NEWLINE) s);
               stop = start + length (takeWhile (\<lambda>c. c \<noteq> NEWLINE) (drop start s))
           in Some (if stop < length s then buf[stop := NUL] else buf)))"

text \<open>\<open>strncmp(a, b, n) == 0\<close> and \<open>strncasecmp(a, b, n) == 0\<close>: null characters end both strings.\<close>

fun str_eq_n :: "(char \<Rightarrow> char) \<Rightarrow> nat \<Rightarrow> char list \<Rightarrow> char list \<Rightarrow> bool" where
  "str_eq_n f 0 xs ys \<longleftrightarrow> True"
| "str_eq_n f (Suc n) (x # xs) (y # ys) \<longleftrightarrow> f x = f y \<and> (x = NUL \<or> str_eq_n f n xs ys)"
| "str_eq_n f (Suc n) _ _ \<longleftrightarrow> False"

definition lower :: "char \<Rightarrow> char" where
  "lower c =
     (let n = of_char c :: nat in if 65 \<le> n \<and> n \<le> 90 then char_of (n + 32) else c)"

definition strncmp_eq :: "cbuf \<Rightarrow> string \<Rightarrow> nat \<Rightarrow> bool" where
  "strncmp_eq a b n = str_eq_n id n a (b @ [NUL])"

definition strncasecmp_eq :: "cbuf \<Rightarrow> string \<Rightarrow> nat \<Rightarrow> bool" where
  "strncasecmp_eq a b n = str_eq_n lower n a (b @ [NUL])"

text \<open>\<open>strncpy(buf, src, n)\<close> writes exactly \<open>n\<close> characters, padding with null characters.\<close>

definition strncpy :: "cbuf \<Rightarrow> string \<Rightarrow> nat \<Rightarrow> cbuf" where
  "strncpy buf src n = overwrite (take n (src @ replicate n NUL)) buf"

text \<open>
  \<open>strncat(buf, src, n)\<close> appends at most \<open>n\<close> characters of \<open>src\<close> and a null character to
  the string in \<open>buf\<close>; \<open>None\<close> if that does not fit into the array.
\<close>

definition strncat :: "cbuf \<Rightarrow> string \<Rightarrow> nat \<Rightarrow> cbuf option" where
  "strncat buf src n =
     (case c_str buf of
        None \<Rightarrow> None
      | Some s \<Rightarrow>
          (let t = s @ take n src @ [NUL] in if length t \<le> length buf then Some (overwrite t buf) else None))"

definition memset_zero :: "cbuf \<Rightarrow> nat \<Rightarrow> cbuf" where
  "memset_zero buf n = overwrite (replicate n NUL) buf"

section \<open>Facts about arrays\<close>

lemma length_overwrite [simp, cstr_simps]: "length xs \<le> length buf \<Longrightarrow> length (overwrite xs buf) = length buf"
  by (simp add: overwrite_def)

lemma c_str_overwrite [cstr_simps]:
  "NUL \<notin> set s \<Longrightarrow> c_str (overwrite (s @ [NUL]) buf) = Some s"
  by (simp add: c_str_def overwrite_def takeWhile_append)

lemma takeWhile_shorter: "x \<in> set xs \<Longrightarrow> \<not> P x \<Longrightarrow> length (takeWhile P xs) < length xs"
  by (induction xs) auto

lemma c_str_SomeD: "c_str buf = Some s \<Longrightarrow> NUL \<notin> set s \<and> length s < length buf \<and> take (length s) buf = s \<and> buf ! length s = NUL"
proof -
  assume "c_str buf = Some s"
  then have s: "s = takeWhile (\<lambda>c. c \<noteq> NUL) buf" and nul: "NUL \<in> set buf" by (auto simp: c_str_def split: if_splits)
  from nul have len: "length s < length buf"
    unfolding s by (rule takeWhile_shorter) simp
  moreover have "buf ! length s = NUL" using nth_length_takeWhile [of "\<lambda>c. c \<noteq> NUL" buf] len s by simp
  moreover have "take (length s) buf = s" using s takeWhile_eq_take [of "\<lambda>c. c \<noteq> NUL" buf] by simp
  ultimately show ?thesis using s by (auto dest: set_takeWhileD)
qed

lemma get_line_split: "get_line n inp = (l, rest) \<Longrightarrow> inp = l @ rest \<and> length l \<le> n"
  by (induction n inp arbitrary: l rest rule: get_line.induct) (auto split: if_splits prod.splits)

lemma get_line_progress: "get_line (Suc n) (c # cs) = (l, rest) \<Longrightarrow> length rest < length (c # cs)"
  using get_line_split [of n cs] by (auto split: if_splits prod.splits)

text \<open>A line that fits is read whole; of a longer one the first \<open>n\<close> characters.\<close>

lemma get_line_short:
  "NEWLINE \<notin> set w \<Longrightarrow> length w < n \<Longrightarrow> get_line n (w @ NEWLINE # rest) = (w @ [NEWLINE], rest)"
proof (induction w arbitrary: n)
  case Nil
  then show ?case by (cases n) auto
next
  case (Cons c w)
  then show ?case by (cases n) auto
qed

lemma get_line_long:
  "NEWLINE \<notin> set w \<Longrightarrow> length w = n \<Longrightarrow> get_line n (w @ rest) = (w, rest)"
  by (induction w arbitrary: n) auto

lemma fgets_length: "length buf = m \<Longrightarrow> 0 < n \<Longrightarrow> n \<le> m \<Longrightarrow> fgets n buf inp = (buf', rest) \<Longrightarrow> length buf' = m"
  by (auto simp: fgets_def overwrite_def split: if_splits prod.splits dest!: get_line_split)

lemma fgets_rest: "1 < n \<Longrightarrow> fgets n buf inp = (buf', rest) \<Longrightarrow> inp \<noteq> [] \<Longrightarrow> length rest < length inp"
  by (cases inp; cases "n - 1") (auto simp: fgets_def split: if_splits prod.splits dest: get_line_split)

lemma strtok_length: "strtok_newline buf = Some buf' \<Longrightarrow> length buf' = length buf"
  by (auto simp: strtok_newline_def Let_def split: option.splits if_splits)

section \<open>Reading a line\<close>

text \<open>The programs always read a line and then cut off its newline.\<close>

definition read_message :: "nat \<Rightarrow> cbuf \<Rightarrow> char list \<Rightarrow> (cbuf \<times> char list) option" where
  "read_message n buf inp =
     (case fgets n buf inp of (buf', rest) \<Rightarrow>
        (case strtok_newline buf' of None \<Rightarrow> None | Some buf'' \<Rightarrow> Some (buf'', rest)))"

lemma strtok_line:
  assumes "w \<noteq> []" and "NEWLINE \<notin> set w" and "NUL \<notin> set w" and "length w + 1 < length buf"
  shows "\<exists>b. strtok_newline (overwrite (w @ [NEWLINE, NUL]) buf) = Some b \<and> c_str b = Some w"
proof -
  let ?b = "overwrite ((w @ [NEWLINE]) @ [NUL]) buf"
  have s: "c_str ?b = Some (w @ [NEWLINE])" using assms(3) by (intro c_str_overwrite) simp
  have st: "takeWhile (\<lambda>c. c = NEWLINE) (w @ [NEWLINE]) = []" using assms(1,2) by (cases w) auto
  have stop: "takeWhile (\<lambda>c. c \<noteq> NEWLINE) (w @ [NEWLINE]) = w" using assms(2) by (simp add: takeWhile_append)
  have "strtok_newline ?b = Some (?b[length w := NUL])"
    unfolding strtok_newline_def s option.case Let_def st list.size add_0 drop_0 stop by simp
  moreover have "?b[length w := NUL] = w @ NUL # NUL # drop (length w + 2) buf"
    by (simp add: overwrite_def list_update_append)
  moreover have "c_str (w @ NUL # NUL # drop (length w + 2) buf) = Some w"
    using assms(3) by (simp add: c_str_def takeWhile_append)
  ultimately show ?thesis by simp
qed

text \<open>A line that leaves room for newline and null character arrives as typed.\<close>

lemma read_message_line:
  assumes "w \<noteq> []" and "NEWLINE \<notin> set w" and "NUL \<notin> set w" and "length w + 2 \<le> n" and "n \<le> length buf"
  shows "\<exists>b. read_message n buf (w @ NEWLINE # rest) = Some (b, rest) \<and> c_str b = Some w"
proof -
  have "get_line (n - 1) (w @ NEWLINE # rest) = (w @ [NEWLINE], rest)"
    using assms by (intro get_line_short) auto
  then have "fgets n buf (w @ NEWLINE # rest) = (overwrite (w @ [NEWLINE, NUL]) buf, rest)"
    by (simp add: fgets_def)
  moreover obtain b where "strtok_newline (overwrite (w @ [NEWLINE, NUL]) buf) = Some b" "c_str b = Some w"
    using strtok_line [of w buf] assms by auto
  ultimately show ?thesis by (simp add: read_message_def)
qed

text \<open>Of a longer line the first \<open>n - 1\<close> characters arrive, the rest stays in the input.\<close>

lemma read_message_long:
  assumes "NEWLINE \<notin> set w" and "NUL \<notin> set w" and "length w + 1 = n" and "w \<noteq> []" and "n \<le> length buf"
  shows "\<exists>b. read_message n buf (w @ rest) = Some (b, rest) \<and> c_str b = Some w"
proof -
  have "get_line (n - 1) (w @ rest) = (w, rest)" using assms by (intro get_line_long) auto
  then have f: "fgets n buf (w @ rest) = (overwrite (w @ [NUL]) buf, rest)"
    using assms by (simp add: fgets_def)
  have s: "c_str (overwrite (w @ [NUL]) buf) = Some w" by (rule c_str_overwrite [OF assms(2)])
  have st: "takeWhile (\<lambda>c. c = NEWLINE) w = []" using assms(1,4) by (cases w) auto
  have stop: "takeWhile (\<lambda>c. c \<noteq> NEWLINE) w = w" using assms(1) by (auto simp: takeWhile_eq_all_conv)
  have "strtok_newline (overwrite (w @ [NUL]) buf) = Some (overwrite (w @ [NUL]) buf)"
    unfolding strtok_newline_def s option.case Let_def st list.size add_0 drop_0 stop by simp
  with f s show ?thesis by (simp add: read_message_def)
qed

text \<open>An empty line is not empty: \<open>strtok\<close> finds no token and leaves the newline in place.\<close>

lemma read_message_empty_line:
  assumes "3 \<le> n" and "n \<le> length buf"
  shows "\<exists>b. read_message n buf (NEWLINE # rest) = Some (b, rest) \<and> c_str b = Some [NEWLINE]"
proof -
  have g: "get_line (n - 1) (NEWLINE # rest) = ([NEWLINE], rest)"
    using get_line_short [of "[]" "n - 1" rest] assms by simp
  then have f: "fgets n buf (NEWLINE # rest) = (overwrite ([NEWLINE] @ [NUL]) buf, rest)" by (simp add: fgets_def)
  have s: "c_str (overwrite ([NEWLINE] @ [NUL]) buf) = Some [NEWLINE]" by (rule c_str_overwrite) simp
  then have "strtok_newline (overwrite ([NEWLINE] @ [NUL]) buf) = Some (overwrite ([NEWLINE] @ [NUL]) buf)"
    by (simp add: strtok_newline_def Let_def)
  with f s show ?thesis by (simp add: read_message_def)
qed

lemma read_message_length:
  "0 < n \<Longrightarrow> n \<le> length buf \<Longrightarrow> read_message n buf inp = Some (b, rest) \<Longrightarrow> length b = length buf"
  by (auto simp: read_message_def split: prod.splits option.splits dest!: strtok_length fgets_length [OF refl])

lemma read_message_rest:
  "1 < n \<Longrightarrow> read_message n buf inp = Some (b, rest) \<Longrightarrow> inp \<noteq> [] \<Longrightarrow> length rest < length inp"
  using fgets_rest [of n buf inp] by (auto simp: read_message_def split: prod.splits option.splits)

text \<open>After a successful \<open>fgets\<close> there is a string in the array, so reading never fails.\<close>

lemma fgets_c_str: "inp \<noteq> [] \<Longrightarrow> fgets n buf inp = (b, rest) \<Longrightarrow> NUL \<in> set b"
  by (auto simp: fgets_def overwrite_def split: prod.splits)

lemma read_message_defined:
  assumes "inp \<noteq> [] \<or> NUL \<in> set buf"
  shows "\<exists>b rest. read_message n buf inp = Some (b, rest)"
proof -
  obtain b rest where f: "fgets n buf inp = (b, rest)" by fastforce
  have "NUL \<in> set b"
  proof (cases "inp = []")
    case True
    with f assms show ?thesis by (simp add: fgets_def)
  next
    case False
    with fgets_c_str f show ?thesis by blast
  qed
  then show ?thesis using f by (simp add: read_message_def strtok_newline_def c_str_def Let_def)
qed

lemma strtok_nul: "strtok_newline buf = Some b \<Longrightarrow> NUL \<in> set b"
proof -
  assume a: "strtok_newline buf = Some b"
  then obtain s where s: "c_str buf = Some s" by (auto simp: strtok_newline_def split: option.splits)
  note sd = c_str_SomeD [OF s]
  from a s obtain k where "b = buf \<or> b = buf[k := NUL] \<and> k < length s"
    by (auto simp: strtok_newline_def Let_def split: if_splits)
  then show ?thesis
  proof
    assume "b = buf"
    with s show ?thesis by (auto simp: c_str_def split: if_splits)
  next
    assume "b = buf[k := NUL] \<and> k < length s"
    with sd show ?thesis by (simp add: set_update_memI)
  qed
qed

lemma read_message_nul: "read_message n buf inp = Some (b, rest) \<Longrightarrow> NUL \<in> set b"
  by (auto simp: read_message_def split: prod.splits option.splits dest: strtok_nul)

text \<open>\<open>strncmp(buf, "0", 1) == 0\<close> looks at the first character only.\<close>

definition is_end :: "cbuf \<Rightarrow> bool" where
  "is_end buf = strncmp_eq buf ''0'' 1"

lemma is_end_Cons [simp]: "is_end (c # cs) \<longleftrightarrow> c = CHR ''0''"
  by (simp add: is_end_def strncmp_eq_def)

lemma is_end_Nil [simp]: "\<not> is_end []"
  by (simp add: is_end_def strncmp_eq_def)

lemma is_end_c_str: "c_str buf = Some s \<Longrightarrow> is_end buf \<longleftrightarrow> (\<exists>t. s = CHR ''0'' # t)"
  by (cases buf) (auto simp: c_str_def split: if_splits)

text \<open>
  An array that holds a string of at least one character keeps one when its first
  character is overwritten: there is a null character further on.
\<close>

definition terminated :: "cbuf \<Rightarrow> bool" where
  "terminated buf \<longleftrightarrow> NUL \<in> set (tl buf)"

lemma terminated_nul: "terminated buf \<Longrightarrow> NUL \<in> set buf"
  by (cases buf) (auto simp: terminated_def)

lemma set_update_same: "x \<in> set xs \<Longrightarrow> x \<in> set (xs[k := x])"
  by (cases "k < length xs") (simp_all add: set_update_memI list_update_beyond)

lemma terminated_update: "terminated buf \<Longrightarrow> terminated (buf[k := NUL])"
  by (cases buf; cases k) (auto simp: terminated_def set_update_same)

lemma terminated_c_str: "terminated buf \<Longrightarrow> \<exists>s. c_str buf = Some s"
  using terminated_nul by (auto simp: c_str_def)

lemma strtok_cases: "strtok_newline buf = Some b \<Longrightarrow> b = buf \<or> (\<exists>k. b = buf[k := NUL] \<and> (is_end buf \<longrightarrow> 0 < k))"
proof -
  assume a: "strtok_newline buf = Some b"
  then obtain s where s: "c_str buf = Some s" by (auto simp: strtok_newline_def split: option.splits)
  let ?start = "length (takeWhile (\<lambda>c. c = NEWLINE) s)"
  let ?stop = "?start + length (takeWhile (\<lambda>c. c \<noteq> NEWLINE) (drop ?start s))"
  from a s have "b = (if ?stop < length s then buf[?stop := NUL] else buf)"
    by (simp add: strtok_newline_def Let_def)
  moreover have "is_end buf \<Longrightarrow> 0 < ?stop" using is_end_c_str [OF s] by auto
  ultimately show ?thesis by (auto split: if_splits)
qed

lemma strtok_terminated: "terminated buf \<Longrightarrow> strtok_newline buf = Some b \<Longrightarrow> terminated b"
  by (auto dest!: strtok_cases intro: terminated_update)

lemma strtok_is_end: "is_end buf \<Longrightarrow> strtok_newline buf = Some b \<Longrightarrow> is_end b"
  by (cases buf) (auto dest!: strtok_cases simp: list_update.simps split: nat.splits)

lemma strtok_defined: "terminated buf \<Longrightarrow> \<exists>b. strtok_newline buf = Some b"
  using terminated_c_str by (fastforce simp: strtok_newline_def Let_def)

lemma fgets_terminated:
  assumes "1 < n" and "inp \<noteq> [] \<or> terminated buf" and "fgets n buf inp = (b, rest)"
  shows "terminated b"
proof (cases "inp = []")
  case True
  with assms show ?thesis by (simp add: fgets_def)
next
  case False
  then obtain c cs where inp: "inp = c # cs" by (cases inp) auto
  obtain k where n: "n - 1 = Suc k" using assms(1) by (cases n; cases "n - 1") auto
  obtain l r where g: "get_line (Suc k) (c # cs) = (l, r)" by fastforce
  then have "l \<noteq> []" by (auto split: if_splits prod.splits)
  with assms(3) inp n g show ?thesis by (cases l) (auto simp: fgets_def terminated_def overwrite_def)
qed

lemma read_message_terminated:
  assumes "1 < n" and "inp \<noteq> [] \<or> terminated buf" and "read_message n buf inp = Some (b, rest)"
  shows "terminated b"
  using assms fgets_terminated [OF assms(1,2)]
  by (auto simp: read_message_def split: prod.splits option.splits intro: strtok_terminated)

lemma strncpy_zero: "buf \<noteq> [] \<Longrightarrow> strncpy buf ''0'' 1 = CHR ''0'' # tl buf"
  by (cases buf) (simp_all add: strncpy_def overwrite_def)

section \<open>What a user types\<close>

text \<open>
  The arrays a writer produces from its input, up to the first that starts with 0. At the
  end of the input no further array is listed: there \<open>fgets\<close> fails, and since the programs
  do not notice, they use the last line again and again.
\<close>

function typed :: "nat \<Rightarrow> cbuf \<Rightarrow> char list \<Rightarrow> cbuf list" where
  "typed n buf inp =
     (if inp = [] \<or> n < 2 then []
      else (case read_message n buf inp of
              None \<Rightarrow> []
            | Some (b, rest) \<Rightarrow> if is_end b then [b] else b # typed n b rest))"
  by pat_completeness auto
termination
  by (relation "measure (\<lambda>(n, buf, inp). length inp)") (auto dest: read_message_rest [rotated])

declare typed.simps [simp del]

definition finished :: "cbuf list \<Rightarrow> bool" where
  "finished bs \<longleftrightarrow> bs \<noteq> [] \<and> is_end (List.last bs)"

lemma typed_step:
  assumes "2 \<le> n" and "finished (typed n buf inp)"
  shows "\<exists>b rest. read_message n buf inp = Some (b, rest) \<and> inp \<noteq> [] \<and>
    (if is_end b then typed n buf inp = [b] else typed n buf inp = b # typed n b rest \<and> finished (typed n b rest))"
proof -
  from assms(2) have "inp \<noteq> []" by (auto simp: finished_def typed.simps [of n buf inp])
  moreover from read_message_defined [of inp buf n] this obtain b rest where r: "read_message n buf inp = Some (b, rest)"
    by blast
  moreover have t: "typed n buf inp = (if is_end b then [b] else b # typed n b rest)"
    using assms(1) \<open>inp \<noteq> []\<close> r by (subst typed.simps) simp
  moreover have "finished (typed n b rest)" if "\<not> is_end b"
    using assms(2) t that by (auto simp: finished_def split: if_splits)
  ultimately show ?thesis by auto
qed

lemma typed_only_last: "finished (typed n buf inp) \<Longrightarrow> \<forall>b \<in> set (butlast (typed n buf inp)). \<not> is_end b"
proof (induction "length inp" arbitrary: buf inp rule: less_induct)
  case less
  then have n: "2 \<le> n" by (auto simp: finished_def typed.simps [of n buf inp] split: if_splits)
  from typed_step [OF n less.prems] obtain b rest where r: "read_message n buf inp = Some (b, rest)" "inp \<noteq> []"
    and t: "if is_end b then typed n buf inp = [b] else typed n buf inp = b # typed n b rest \<and> finished (typed n b rest)"
    by blast
  have "length rest < length inp" using read_message_rest [OF _ r] n by simp
  with less.hyps [of rest b] t show ?case by (auto split: if_splits simp: finished_def)
qed

end
