(* ===== verification/Channel.thy ===== *)
theory Channel
  imports Prelude "HOL-Library.Sublist"
begin

text \<open>
  What the message-passing programs rely on: a channel that hands over messages whole and
  in the order in which they were sent. \<open>holds c ms\<close> says that \<open>ms\<close> are the messages under
  way in \<open>c\<close>; \<open>good\<close> are the messages the channel is used for. The locale follows the
  messages that went in and came out, once for all kinds of channels; the theories of the
  pipes and of the sockets interpret it on their operations.
\<close>

locale fifo_channel =
  fixes send :: "'m \<Rightarrow> 'c \<Rightarrow> 'c option"
    and recv :: "'c \<Rightarrow> ('m \<times> 'c) option"
    and holds :: "'c \<Rightarrow> 'm list \<Rightarrow> bool"
    and good :: "'m \<Rightarrow> bool"
    and empty :: "'c \<Rightarrow> bool"
  assumes send_holds: "holds c ms \<Longrightarrow> good m \<Longrightarrow> send m c = Some d \<Longrightarrow> holds d (ms @ [m])"
    and recv_holds: "holds c ms \<Longrightarrow> recv c = Some (m, d) \<Longrightarrow> \<exists>r. ms = m # r \<and> holds d r"
    and holds_good: "holds c ms \<Longrightarrow> m \<in> set ms \<Longrightarrow> good m"
    and holds_empty: "holds c ms \<Longrightarrow> empty c \<longleftrightarrow> ms = []"
begin

text \<open>\<open>track c ss gs\<close>: the messages \<open>ss\<close> were sent and the messages \<open>gs\<close> received.\<close>

definition track :: "'c \<Rightarrow> 'm list \<Rightarrow> 'm list \<Rightarrow> bool" where
  "track c ss gs \<longleftrightarrow> (\<exists>ms. ss = gs @ ms \<and> holds c ms) \<and> (\<forall>m \<in> set ss. good m)"

lemma track_start: "holds c [] \<Longrightarrow> track c [] []"
  by (simp add: track_def)

lemma track_send: "track c ss gs \<Longrightarrow> good m \<Longrightarrow> send m c = Some d \<Longrightarrow> track d (ss @ [m]) gs"
  using send_holds by (fastforce simp: track_def)

lemma track_recv: "track c ss gs \<Longrightarrow> recv c = Some (m, d) \<Longrightarrow> track d ss (gs @ [m]) \<and> good m \<and> length gs < length ss"
  using recv_holds by (fastforce simp: track_def)

lemma track_prefix: "track c ss gs \<Longrightarrow> prefix gs ss"
  by (auto simp: track_def)

lemma track_good: "track c ss gs \<Longrightarrow> m \<in> set gs \<Longrightarrow> good m"
  by (auto simp: track_def)

lemma track_le: "track c ss gs \<Longrightarrow> length gs \<le> length ss"
  by (auto simp: track_def)

lemma track_all: "track c ss gs \<Longrightarrow> length ss \<le> length gs \<Longrightarrow> ss = gs"
  by (auto simp: track_def)

lemma track_empty: "track c ss gs \<Longrightarrow> empty c \<Longrightarrow> ss = gs"
  using holds_empty by (auto simp: track_def)

end

end
