(* ===== verification/Pipe_Pair.thy ===== *)
theory Pipe_Pair
  imports Cstring Channel
begin

text \<open>
  Two processes that take turns in sending each other messages over two pipes: what the C and
  the C++ version of the two-way pipe have in common (theories \<open>Two_Way_Pipe\<close> and \<open>Cpp_Pipe\<close>).
  The length of the messages and the way in which a process asks its user for the next one are
  parameters. The process that \<open>fork\<close> creates runs the function that the code names after the
  parent, the original one that of the child; the model calls them by these functions.

  A pipe holds bytes and has a reading and a writing end in each process. A read sleeps
  while the pipe is empty and some process has the writing end open, and finds the end of
  the stream if none has. A write kills the process (SIGPIPE) if no process has the
  reading end open, and sleeps if there is no room for its bytes, which arrive as a
  whole because they are fewer than \<open>PIPE_BUF\<close>. Of the output, the messages received are recorded.
\<close>

section \<open>Pipes\<close>

datatype proc = Parent | Child

record pipe =
  bytes :: "char list"
  rd :: "proc \<Rightarrow> bool"
  wr :: "proc \<Rightarrow> bool"

datatype 'a io = Sleeps | Broken | Eof | Ok 'a

definition PIPE_SIZE :: int where
  "PIPE_SIZE = 65536"

definition pipe_write :: "char list \<Rightarrow> pipe \<Rightarrow> pipe io" where
  "pipe_write m p =
     (if \<not> rd p Parent \<and> \<not> rd p Child then Broken
      else if PIPE_SIZE < int (length (bytes p)) + int (length m) then Sleeps
      else Ok (p\<lparr>bytes := bytes p @ m\<rparr>))"

definition pipe_read :: "nat \<Rightarrow> pipe \<Rightarrow> (char list \<times> pipe) io" where
  "pipe_read n p =
     (if bytes p = [] then (if wr p Parent \<or> wr p Child then Sleeps else Eof)
      else Ok (take n (bytes p), p\<lparr>bytes := drop n (bytes p)\<rparr>))"

definition close_rd :: "proc \<Rightarrow> pipe \<Rightarrow> pipe" where
  "close_rd x p = p\<lparr>rd := (rd p)(x := False)\<rparr>"

definition close_wr :: "proc \<Rightarrow> pipe \<Rightarrow> pipe" where
  "close_wr x p = p\<lparr>wr := (wr p)(x := False)\<rparr>"

section \<open>The processes\<close>

datatype tw_ppc = P_close_read | P_close_write | P_get | P_write | P_read | P_show | P_final | P_end_write | P_end_read
  | P_done | P_killed | P_undefined

datatype tw_cpc = C_close_write | C_close_read | C_read | C_test | C_get | C_write | C_final | C_end_read | C_end_write
  | C_done | C_killed | C_undefined

text \<open>
  The state of both processes; \<open>sent1\<close>, \<open>got1\<close>, \<open>sent2\<close> and \<open>got2\<close> record the messages that went
  into and came out of the two pipes.
\<close>

record 'i tw_state =
  pipe1 :: pipe
  pipe2 :: pipe
  ppc :: tw_ppc
  pmsg :: cbuf
  pinp :: 'i
  pout :: "string list"
  cpc :: tw_cpc
  cmsg :: cbuf
  cinp :: 'i
  cout :: "string list"
  sent1 :: "cbuf list"
  got1 :: "cbuf list"
  sent2 :: "cbuf list"
  got2 :: "cbuf list"

text \<open>A killed process leaves none of its ends open.\<close>

definition kill_parent :: "'i tw_state \<Rightarrow> 'i tw_state" where
  "kill_parent s =
     s\<lparr>pipe1 := close_rd Parent (close_wr Parent (pipe1 s)), pipe2 := close_rd Parent (close_wr Parent (pipe2 s)), ppc := P_killed\<rparr>"

definition kill_child :: "'i tw_state \<Rightarrow> 'i tw_state" where
  "kill_child s =
     s\<lparr>pipe1 := close_rd Child (close_wr Child (pipe1 s)), pipe2 := close_rd Child (close_wr Child (pipe2 s)), cpc := C_killed\<rparr>"

definition parent_write :: "tw_ppc \<Rightarrow> 'i tw_state \<Rightarrow> 'i tw_state option" where
  "parent_write next s =
     (case pipe_write (pmsg s) (pipe1 s) of
        Sleeps \<Rightarrow> None
      | Broken \<Rightarrow> Some (kill_parent s)
      | Eof \<Rightarrow> None
      | Ok p \<Rightarrow> Some (s\<lparr>pipe1 := p, sent1 := sent1 s @ [pmsg s], ppc := next\<rparr>))"

definition child_write :: "tw_cpc \<Rightarrow> 'i tw_state \<Rightarrow> 'i tw_state option" where
  "child_write next s =
     (case pipe_write (cmsg s) (pipe2 s) of
        Sleeps \<Rightarrow> None
      | Broken \<Rightarrow> Some (kill_child s)
      | Eof \<Rightarrow> None
      | Ok p \<Rightarrow> Some (s\<lparr>pipe2 := p, sent2 := sent2 s @ [cmsg s], cpc := next\<rparr>))"

definition pp_parent :: "nat \<Rightarrow> (cbuf \<Rightarrow> 'i \<Rightarrow> (cbuf \<times> 'i) option) \<Rightarrow> 'i tw_state \<Rightarrow> 'i tw_state option" where
  "pp_parent len ask s =
     (case ppc s of
        P_close_read \<Rightarrow> Some (s\<lparr>pipe1 := close_rd Parent (pipe1 s), ppc := P_close_write\<rparr>)
      | P_close_write \<Rightarrow> Some (s\<lparr>pipe2 := close_wr Parent (pipe2 s), ppc := P_get\<rparr>)
      | P_get \<Rightarrow>
          (case ask (pmsg s) (pinp s) of
             None \<Rightarrow> Some (s\<lparr>ppc := P_undefined\<rparr>)
           | Some (b, rest) \<Rightarrow> Some (s\<lparr>pmsg := b, pinp := rest, ppc := P_write\<rparr>))
      | P_write \<Rightarrow> parent_write P_read s
      | P_read \<Rightarrow>
          (case pipe_read len (pipe2 s) of
             Sleeps \<Rightarrow> None
           | Ok (m, p) \<Rightarrow> Some (s\<lparr>pipe2 := p, pmsg := overwrite m (pmsg s), got2 := got2 s @ [m], ppc := P_show\<rparr>)
           | _ \<Rightarrow> Some (s\<lparr>ppc := P_show\<rparr>))
      | P_show \<Rightarrow>
          (case c_str (pmsg s) of
             None \<Rightarrow> Some (s\<lparr>ppc := P_undefined\<rparr>)
           | Some t \<Rightarrow> Some (s\<lparr>pout := pout s @ [t], ppc := (if is_end (pmsg s) then P_final else P_get)\<rparr>))
      | P_final \<Rightarrow> parent_write P_end_write s
      | P_end_write \<Rightarrow> Some (s\<lparr>pipe1 := close_wr Parent (pipe1 s), ppc := P_end_read\<rparr>)
      | P_end_read \<Rightarrow> Some (s\<lparr>pipe2 := close_rd Parent (pipe2 s), ppc := P_done\<rparr>)
      | _ \<Rightarrow> None)"

definition pp_child :: "nat \<Rightarrow> (cbuf \<Rightarrow> 'i \<Rightarrow> (cbuf \<times> 'i) option) \<Rightarrow> 'i tw_state \<Rightarrow> 'i tw_state option" where
  "pp_child len ask s =
     (case cpc s of
        C_close_write \<Rightarrow> Some (s\<lparr>pipe1 := close_wr Child (pipe1 s), cpc := C_close_read\<rparr>)
      | C_close_read \<Rightarrow> Some (s\<lparr>pipe2 := close_rd Child (pipe2 s), cpc := C_read\<rparr>)
      | C_read \<Rightarrow>
          (case pipe_read len (pipe1 s) of
             Sleeps \<Rightarrow> None
           | Ok (m, p) \<Rightarrow> Some (s\<lparr>pipe1 := p, cmsg := overwrite m (cmsg s), got1 := got1 s @ [m], cpc := C_test\<rparr>)
           | _ \<Rightarrow> Some (s\<lparr>cpc := C_test\<rparr>))
      | C_test \<Rightarrow>
          (if is_end (cmsg s) then Some (s\<lparr>cpc := C_final\<rparr>)
           else
             (case c_str (cmsg s) of
                None \<Rightarrow> Some (s\<lparr>cpc := C_undefined\<rparr>)
              | Some t \<Rightarrow> Some (s\<lparr>cout := cout s @ [t], cpc := C_get\<rparr>)))
      | C_get \<Rightarrow>
          (case ask (cmsg s) (cinp s) of
             None \<Rightarrow> Some (s\<lparr>cpc := C_undefined\<rparr>)
           | Some (b, rest) \<Rightarrow> Some (s\<lparr>cmsg := b, cinp := rest, cpc := C_write\<rparr>))
      | C_write \<Rightarrow> child_write C_read s
      | C_final \<Rightarrow> child_write C_end_read s
      | C_end_read \<Rightarrow> Some (s\<lparr>pipe1 := close_rd Child (pipe1 s), cpc := C_end_write\<rparr>)
      | C_end_write \<Rightarrow> Some (s\<lparr>pipe2 := close_wr Child (pipe2 s), cpc := C_done\<rparr>)
      | _ \<Rightarrow> None)"

fun pair_step :: "nat \<Rightarrow> (cbuf \<Rightarrow> 'i \<Rightarrow> (cbuf \<times> 'i) option) \<Rightarrow> proc \<Rightarrow> 'i tw_state \<Rightarrow> 'i tw_state option" where
  "pair_step len ask Parent s = pp_parent len ask s"
| "pair_step len ask Child s = pp_child len ask s"

definition new_pipe :: pipe where
  "new_pipe = \<lparr>bytes = [], rd = (\<lambda>_. True), wr = (\<lambda>_. True)\<rparr>"

definition tw_start :: "pipe \<Rightarrow> pipe \<Rightarrow> cbuf \<Rightarrow> cbuf \<Rightarrow> 'i \<Rightarrow> 'i \<Rightarrow> 'i tw_state" where
  "tw_start p1 p2 jp jc inp_p inp_c =
     \<lparr>pipe1 = p1, pipe2 = p2, ppc = P_close_read, pmsg = jp, pinp = inp_p, pout = [],
      cpc = C_close_write, cmsg = jc, cinp = inp_c, cout = [], sent1 = [], got1 = [], sent2 = [], got2 = []\<rparr>"

section \<open>The invariant\<close>

definition msg_ok :: "nat \<Rightarrow> cbuf \<Rightarrow> bool" where
  "msg_ok len b \<longleftrightarrow> length b = len \<and> terminated b"

text \<open>Which ends are open.\<close>

fun p_rd1 :: "tw_ppc \<Rightarrow> bool" where "p_rd1 P_close_read = True" | "p_rd1 _ = False"
fun p_wr2 :: "tw_ppc \<Rightarrow> bool" where "p_wr2 P_close_read = True" | "p_wr2 P_close_write = True" | "p_wr2 _ = False"
fun p_wr1 :: "tw_ppc \<Rightarrow> bool" where "p_wr1 P_end_read = False" | "p_wr1 P_done = False" | "p_wr1 P_killed = False" | "p_wr1 _ = True"
fun p_rd2 :: "tw_ppc \<Rightarrow> bool" where "p_rd2 P_done = False" | "p_rd2 P_killed = False" | "p_rd2 _ = True"
fun c_wr1 :: "tw_cpc \<Rightarrow> bool" where "c_wr1 C_close_write = True" | "c_wr1 _ = False"
fun c_rd2 :: "tw_cpc \<Rightarrow> bool" where "c_rd2 C_close_write = True" | "c_rd2 C_close_read = True" | "c_rd2 _ = False"
fun c_rd1 :: "tw_cpc \<Rightarrow> bool" where "c_rd1 C_end_write = False" | "c_rd1 C_done = False" | "c_rd1 C_killed = False" | "c_rd1 _ = True"
fun c_wr2 :: "tw_cpc \<Rightarrow> bool" where "c_wr2 C_done = False" | "c_wr2 C_killed = False" | "c_wr2 _ = True"

definition ends_ok :: "tw_ppc \<Rightarrow> tw_cpc \<Rightarrow> pipe \<Rightarrow> pipe \<Rightarrow> bool" where
  "ends_ok pp cp p1 p2 \<longleftrightarrow>
     rd p1 Parent = p_rd1 pp \<and> wr p1 Parent = p_wr1 pp \<and> rd p2 Parent = p_rd2 pp \<and> wr p2 Parent = p_wr2 pp \<and>
     rd p1 Child = c_rd1 cp \<and> wr p1 Child = c_wr1 cp \<and> rd p2 Child = c_rd2 cp \<and> wr p2 Child = c_wr2 cp"

text \<open>A pipe holds the messages that were sent and not yet received: it is a channel.\<close>

definition pipe_send :: "cbuf \<Rightarrow> pipe \<Rightarrow> pipe option" where
  "pipe_send m p = (case pipe_write m p of Ok q \<Rightarrow> Some q | _ \<Rightarrow> None)"

definition pipe_recv :: "nat \<Rightarrow> pipe \<Rightarrow> (cbuf \<times> pipe) option" where
  "pipe_recv len p = (case pipe_read len p of Ok r \<Rightarrow> Some r | _ \<Rightarrow> None)"

definition pipe_holds :: "nat \<Rightarrow> pipe \<Rightarrow> cbuf list \<Rightarrow> bool" where
  "pipe_holds len p ms \<longleftrightarrow> bytes p = concat ms \<and> (\<forall>m \<in> set ms. msg_ok len m)"

text \<open>
  Whose turn it is. \<open>p_due\<close> is the number of messages the parent has sent beyond those it
  has received, \<open>c_due\<close> the number the child has received beyond those it has sent.
\<close>

fun p_due :: "tw_ppc \<Rightarrow> nat" where
  "p_due P_read = 1" | "p_due P_end_write = 1" | "p_due P_end_read = 1" | "p_due P_done = 1" | "p_due _ = 0"

fun c_due :: "tw_cpc \<Rightarrow> nat" where
  "c_due C_test = 1" | "c_due C_get = 1" | "c_due C_write = 1" | "c_due C_final = 1" | "c_due C_killed = 1" | "c_due _ = 0"

definition ended :: "cbuf list \<Rightarrow> bool" where
  "ended bs \<longleftrightarrow> (\<exists>b \<in> set bs. is_end b)"

text \<open>What each process knows of the end of the conversation, from what it has received and sent.\<close>

fun p_end :: "tw_ppc \<Rightarrow> cbuf list \<Rightarrow> cbuf list \<Rightarrow> bool" where
  "p_end P_show gs ss \<longleftrightarrow> \<not> ended (butlast gs)"
| "p_end P_final gs ss \<longleftrightarrow> ended gs"
| "p_end P_killed gs ss \<longleftrightarrow> ended gs"
| "p_end P_end_write gs ss \<longleftrightarrow> ended gs \<and> ended ss"
| "p_end P_end_read gs ss \<longleftrightarrow> ended gs \<and> ended ss"
| "p_end P_done gs ss \<longleftrightarrow> ended gs \<and> ended ss"
| "p_end P_undefined gs ss \<longleftrightarrow> False"
| "p_end _ gs ss \<longleftrightarrow> \<not> ended gs"

fun c_end :: "tw_cpc \<Rightarrow> cbuf list \<Rightarrow> cbuf list \<Rightarrow> bool" where
  "c_end C_test gs ss \<longleftrightarrow> \<not> ended (butlast gs)"
| "c_end C_final gs ss \<longleftrightarrow> ended gs"
| "c_end C_killed gs ss \<longleftrightarrow> ended gs"
| "c_end C_end_read gs ss \<longleftrightarrow> ended gs \<and> ended ss"
| "c_end C_end_write gs ss \<longleftrightarrow> ended gs \<and> ended ss"
| "c_end C_done gs ss \<longleftrightarrow> ended gs \<and> ended ss"
| "c_end C_undefined gs ss \<longleftrightarrow> False"
| "c_end _ gs ss \<longleftrightarrow> \<not> ended gs"

fun p_msg :: "tw_ppc \<Rightarrow> cbuf \<Rightarrow> cbuf list \<Rightarrow> bool" where
  "p_msg P_show m gs \<longleftrightarrow> gs \<noteq> [] \<and> m = last gs"
| "p_msg P_final m gs \<longleftrightarrow> is_end m"
| "p_msg _ m gs \<longleftrightarrow> True"

fun c_msg :: "tw_cpc \<Rightarrow> cbuf \<Rightarrow> cbuf list \<Rightarrow> bool" where
  "c_msg C_test m gs \<longleftrightarrow> gs \<noteq> [] \<and> m = last gs"
| "c_msg C_final m gs \<longleftrightarrow> is_end m"
| "c_msg _ m gs \<longleftrightarrow> True"

fun c_started :: "tw_cpc \<Rightarrow> bool" where
  "c_started C_close_write = False" | "c_started C_close_read = False" | "c_started C_read = False" | "c_started _ = True"

definition strings :: "cbuf list \<Rightarrow> string list" where
  "strings bs = map (\<lambda>b. the (c_str b)) bs"

definition p_shown :: "tw_ppc \<Rightarrow> cbuf list \<Rightarrow> string list" where
  "p_shown pc gs = strings (if pc = P_show then butlast gs else gs)"

definition c_shown :: "tw_cpc \<Rightarrow> cbuf list \<Rightarrow> string list" where
  "c_shown pc gs = strings (filter (\<lambda>b. \<not> is_end b) (if pc = C_test then butlast gs else gs))"

text \<open>When neither process can move, both have ended.\<close>

definition tw_over :: "'i tw_state \<Rightarrow> bool" where
  "tw_over s \<longleftrightarrow> (ppc s = P_done \<or> ppc s = P_killed) \<and> (cpc s = C_done \<or> cpc s = C_killed)"

text \<open>What a turn does to the inputs.\<close>

lemma pp_parent_input:
  "pp_parent len ask s = Some t \<Longrightarrow> cinp t = cinp s \<and> (pinp t = pinp s \<or> (\<exists>m. ask (pmsg s) (pinp s) = Some (m, pinp t)))"
  by (cases "ppc s")
    (auto simp: pp_parent_def parent_write_def kill_parent_def split: option.splits io.splits prod.splits)

lemma pp_child_input:
  "pp_child len ask s = Some t \<Longrightarrow> pinp t = pinp s \<and> (cinp t = cinp s \<or> (\<exists>m. ask (cmsg s) (cinp s) = Some (m, cinp t)))"
  by (cases "cpc s")
    (auto simp: pp_child_def child_write_def kill_child_def split: option.splits io.splits prod.splits if_splits)

section \<open>The contract of the input\<close>

text \<open>
  All that the conversation needs of the way in which a process gets its next message: asking
  never fails as long as there is a string in the array, and leaves one there.
\<close>

locale pipe_pair =
  fixes len :: nat
    and ask :: "cbuf \<Rightarrow> 'i \<Rightarrow> (cbuf \<times> 'i) option"
  assumes len_pos: "0 < len"
    and len_small: "2 * int len \<le> PIPE_SIZE"
    and ask_ok: "msg_ok len b \<Longrightarrow> \<exists>m i'. ask b i = Some (m, i') \<and> msg_ok len m"

sublocale pipe_pair \<subseteq> pc: fifo_channel pipe_send "pipe_recv len" "pipe_holds len" "msg_ok len" "\<lambda>p. bytes p = []"
proof unfold_locales
  fix c ms m d
  assume "pipe_holds len c ms" "pipe_recv len c = Some (m, d)"
  then show "\<exists>r. ms = m # r \<and> pipe_holds len d r"
    by (cases ms) (auto simp: pipe_holds_def pipe_recv_def pipe_read_def msg_ok_def split: if_splits)
next
  fix c ms
  assume "pipe_holds len c ms"
  then show "(bytes c = []) = (ms = [])" by (cases ms) (use len_pos in \<open>auto simp: pipe_holds_def msg_ok_def\<close>)
qed (auto simp: pipe_holds_def pipe_send_def pipe_write_def split: if_splits)

context pipe_pair
begin

abbreviation pipe_ok :: "pipe \<Rightarrow> cbuf list \<Rightarrow> cbuf list \<Rightarrow> bool" where
  "pipe_ok \<equiv> pc.track"

definition fits :: "cbuf \<Rightarrow> bool" where
  "fits b \<longleftrightarrow> length b = len"

lemma msg_ok_fits: "msg_ok len b \<Longrightarrow> fits b"
  by (simp add: msg_ok_def fits_def)

definition tw_inv :: "'i tw_state \<Rightarrow> bool" where
  "tw_inv s \<longleftrightarrow>
     ends_ok (ppc s) (cpc s) (pipe1 s) (pipe2 s) \<and>
     pipe_ok (pipe1 s) (sent1 s) (got1 s) \<and> pipe_ok (pipe2 s) (sent2 s) (got2 s) \<and>
     msg_ok len (pmsg s) \<and> fits (cmsg s) \<and> (c_started (cpc s) \<longrightarrow> msg_ok len (cmsg s)) \<and>
     length (sent1 s) = length (got2 s) + p_due (ppc s) \<and> length (got1 s) = length (sent2 s) + c_due (cpc s) \<and>
     p_end (ppc s) (got2 s) (sent1 s) \<and> c_end (cpc s) (got1 s) (sent2 s) \<and>
     p_msg (ppc s) (pmsg s) (got2 s) \<and> c_msg (cpc s) (cmsg s) (got1 s) \<and>
     pout s = p_shown (ppc s) (got2 s) \<and> cout s = c_shown (cpc s) (got1 s) \<and>
     (ppc s = P_killed \<longrightarrow> cpc s = C_end_write \<or> cpc s = C_done) \<and>
     (cpc s = C_killed \<longrightarrow> ppc s = P_done)"

text \<open>Pipes.\<close>

lemma pipe_ok_bytes: "pipe_ok p ss gs \<Longrightarrow> length (bytes p) = len * (length ss - length gs)"
proof -
  have "(\<forall>b \<in> set fs. length b = len) \<Longrightarrow> length (concat fs) = len * length fs" for fs :: "cbuf list"
    by (induction fs) auto
  then show "pipe_ok p ss gs \<Longrightarrow> ?thesis" by (auto simp: pc.track_def pipe_holds_def msg_ok_def)
qed

lemma pipe_ok_read:
  assumes "pipe_ok p ss gs" and "pipe_read len p = Ok (m, q)"
  shows "msg_ok len m \<and> pipe_ok q ss (gs @ [m]) \<and> q = p\<lparr>bytes := bytes q\<rparr> \<and> length gs < length ss"
  using assms pc.track_recv [of p ss gs m q] by (auto simp: pipe_recv_def pipe_read_def split: if_splits)

lemma pipe_ok_write:
  assumes "pipe_ok p ss gs" and "msg_ok len m" and "pipe_write m p = Ok q"
  shows "pipe_ok q (ss @ [m]) gs \<and> q = p\<lparr>bytes := bytes q\<rparr>"
  using assms pc.track_send [of p ss gs m q] by (auto simp: pipe_send_def pipe_write_def split: if_splits)

lemma pipe_ok_ends [simp]:
  "pipe_ok (close_rd x p) ss gs = pipe_ok p ss gs" "pipe_ok (close_wr x p) ss gs = pipe_ok p ss gs"
  by (simp_all add: pc.track_def pipe_holds_def close_rd_def close_wr_def)

lemma close_ends [simp]:
  "rd (close_rd x p) = (rd p)(x := False)" "wr (close_rd x p) = wr p" "bytes (close_rd x p) = bytes p"
  "wr (close_wr x p) = (wr p)(x := False)" "rd (close_wr x p) = rd p" "bytes (close_wr x p) = bytes p"
  by (simp_all add: close_rd_def close_wr_def)

lemma ends_bytes:
  "q = p\<lparr>bytes := bytes q\<rparr> \<Longrightarrow> rd q = rd p \<and> wr q = wr p"
  by (metis pipe.select_convs(2,3) pipe.update_convs(1) pipe.surjective)

lemma ended_snoc [simp]: "ended (bs @ [b]) \<longleftrightarrow> is_end b \<or> ended bs"
  by (auto simp: ended_def)

lemma ended_last: "bs \<noteq> [] \<Longrightarrow> ended bs \<longleftrightarrow> is_end (last bs) \<or> ended (butlast bs)"
  using ended_snoc [of "butlast bs" "last bs"] by simp

lemma ended_Nil [simp]: "\<not> ended []"
  by (simp add: ended_def)

lemma overwrite_all [simp]: "length m = length b \<Longrightarrow> overwrite m b = m"
  by (simp add: overwrite_def)

lemma msg_ok_c_str: "msg_ok len b \<Longrightarrow> \<exists>t. c_str b = Some t"
  by (auto simp: msg_ok_def dest: terminated_c_str)

lemma strings_last: "gs \<noteq> [] \<Longrightarrow> c_str (last gs) = Some u \<Longrightarrow> strings gs = strings (butlast gs) @ [u]"
  by (cases gs rule: rev_cases) (auto simp: strings_def)

text \<open>The counts: at most one message is under way.\<close>

lemma tw_counts:
  assumes "tw_inv s"
  shows "length (got1 s) \<le> length (sent1 s)" "length (got2 s) \<le> length (sent2 s)"
    "length (sent1 s) = length (got2 s) + p_due (ppc s)" "length (got1 s) = length (sent2 s) + c_due (cpc s)"
  using assms by (auto simp: tw_inv_def dest: pc.track_le)

lemma p_due_le: "p_due pc \<le> 1" "c_due cp \<le> 1"
  by (cases pc; simp) (cases cp; simp)

lemma tw_room:
  assumes "tw_inv s"
  shows "msg_ok len m \<Longrightarrow> pipe_write m (pipe1 s) \<noteq> Sleeps" "msg_ok len m \<Longrightarrow> pipe_write m (pipe2 s) \<noteq> Sleeps"
proof -
  from assms have "pipe_ok (pipe1 s) (sent1 s) (got1 s)" "pipe_ok (pipe2 s) (sent2 s) (got2 s)" by (simp_all add: tw_inv_def)
  note b = this [THEN pipe_ok_bytes]
  from tw_counts [OF assms] p_due_le(1) [of "ppc s"] p_due_le(2) [of "cpc s"] have
    "length (sent1 s) - length (got1 s) \<le> 1" "length (sent2 s) - length (got2 s) \<le> 1" by linarith+
  then have "len * (length (sent1 s) - length (got1 s)) \<le> len * 1" "len * (length (sent2 s) - length (got2 s)) \<le> len * 1"
    by (blast intro: mult_le_mono2)+
  with b have "length (bytes (pipe1 s)) \<le> len" "length (bytes (pipe2 s)) \<le> len" by linarith+
  then show "msg_ok len m \<Longrightarrow> pipe_write m (pipe1 s) \<noteq> Sleeps" "msg_ok len m \<Longrightarrow> pipe_write m (pipe2 s) \<noteq> Sleeps"
    using len_small by (auto simp: pipe_write_def msg_ok_def split: if_splits)
qed

text \<open>A normal write finds a reader, and a normal read never finds the end of the stream.\<close>

lemma tw_parent_write_ok:
  assumes inv: "tw_inv s" and pc: "ppc s = P_write"
  shows "\<exists>q. pipe_write (pmsg s) (pipe1 s) = Ok q"
proof -
  from tw_counts [OF inv] pc have "length (sent2 s) \<le> length (got2 s)" by auto
  with inv have eq: "sent2 s = got2 s" by (auto simp: tw_inv_def intro: pc.track_all)
  have "c_rd1 (cpc s)" using inv pc eq by (cases "cpc s") (auto simp: tw_inv_def)
  moreover have "msg_ok len (pmsg s)" "rd (pipe1 s) Child = c_rd1 (cpc s)" using inv by (auto simp: tw_inv_def ends_ok_def)
  ultimately show ?thesis using tw_room(1) [OF inv, of "pmsg s"] by (auto simp: pipe_write_def split: if_splits)
qed

lemma tw_child_write_ok:
  assumes inv: "tw_inv s" and pc: "cpc s = C_write"
  shows "\<exists>q. pipe_write (cmsg s) (pipe2 s) = Ok q"
proof -
  have "p_rd2 (ppc s)"
  proof (cases "ppc s")
    case P_done
    with tw_counts [OF inv] pc have "length (sent1 s) \<le> length (got1 s)" by auto
    with inv have "sent1 s = got1 s" by (auto simp: tw_inv_def intro: pc.track_all)
    with inv P_done pc show ?thesis by (auto simp: tw_inv_def)
  qed (use inv pc in \<open>auto simp: tw_inv_def\<close>)
  moreover have "msg_ok len (cmsg s)" "rd (pipe2 s) Parent = p_rd2 (ppc s)" using inv pc by (auto simp: tw_inv_def ends_ok_def)
  ultimately show ?thesis using tw_room(2) [OF inv, of "cmsg s"] by (auto simp: pipe_write_def split: if_splits)
qed

lemma tw_parent_read_ok:
  assumes inv: "tw_inv s" and pc: "ppc s = P_read"
  shows "pipe_read n (pipe2 s) \<noteq> Eof \<and> pipe_read n (pipe2 s) \<noteq> Broken"
proof -
  have "c_wr2 (cpc s)" if "bytes (pipe2 s) = []"
  proof -
    from that inv have "sent2 s = got2 s" by (auto simp: tw_inv_def intro: pc.track_empty)
    with inv pc show ?thesis by (cases "cpc s") (auto simp: tw_inv_def)
  qed
  with inv show ?thesis by (auto simp: pipe_read_def tw_inv_def ends_ok_def)
qed

lemma tw_child_read_ok:
  assumes inv: "tw_inv s" and pc: "cpc s = C_read"
  shows "pipe_read n (pipe1 s) \<noteq> Eof \<and> pipe_read n (pipe1 s) \<noteq> Broken"
proof -
  have "p_wr1 (ppc s)" if "bytes (pipe1 s) = []"
  proof -
    from that inv have "sent1 s = got1 s" by (auto simp: tw_inv_def intro: pc.track_empty)
    with inv pc show ?thesis by (cases "ppc s") (auto simp: tw_inv_def)
  qed
  with inv show ?thesis by (auto simp: pipe_read_def tw_inv_def ends_ok_def)
qed

lemma tw_parent_inv:
  assumes inv: "tw_inv s" and st: "pp_parent len ask s = Some t"
  shows "tw_inv t"
proof (cases "ppc s")
  case P_close_read
  with inv st show ?thesis by (clarsimp simp: pp_parent_def tw_inv_def ends_ok_def p_shown_def)
next
  case P_close_write
  with inv st show ?thesis by (clarsimp simp: pp_parent_def tw_inv_def ends_ok_def p_shown_def)
next
  case P_get
  from inv have "msg_ok len (pmsg s)" by (simp add: tw_inv_def)
  from ask_ok [OF this, of "pinp s"] obtain m rest where
    "ask (pmsg s) (pinp s) = Some (m, rest)" "msg_ok len m" by blast
  with P_get st have "t = s\<lparr>pmsg := m, pinp := rest, ppc := P_write\<rparr>" "msg_ok len m" by (simp_all add: pp_parent_def)
  with P_get inv show ?thesis by (simp add: tw_inv_def ends_ok_def p_shown_def)
next
  case P_write
  from tw_parent_write_ok [OF inv P_write] obtain q where q: "pipe_write (pmsg s) (pipe1 s) = Ok q" by blast
  with P_write st have t: "t = s\<lparr>pipe1 := q, sent1 := sent1 s @ [pmsg s], ppc := P_read\<rparr>"
    by (simp add: pp_parent_def parent_write_def)
  from inv pipe_ok_write [OF _ _ q] have "pipe_ok q (sent1 s @ [pmsg s]) (got1 s)" "q = (pipe1 s)\<lparr>bytes := bytes q\<rparr>"
    by (auto simp: tw_inv_def)
  with P_write inv t ends_bytes [of q "pipe1 s"] show ?thesis by (simp add: tw_inv_def ends_ok_def p_shown_def)
next
  case P_read
  with tw_parent_read_ok [OF inv P_read, of len] st obtain m q where
    q: "pipe_read len (pipe2 s) = Ok (m, q)" by (cases "pipe_read len (pipe2 s)") (auto simp: pp_parent_def)
  from inv pipe_ok_read [OF _ q] have m: "msg_ok len m" "pipe_ok q (sent2 s) (got2 s @ [m])" "q = (pipe2 s)\<lparr>bytes := bytes q\<rparr>"
    by (auto simp: tw_inv_def)
  moreover from inv m(1) have "overwrite m (pmsg s) = m" by (simp add: tw_inv_def msg_ok_def)
  ultimately have "t = s\<lparr>pipe2 := q, pmsg := m, got2 := got2 s @ [m], ppc := P_show\<rparr>"
    using P_read st q by (simp add: pp_parent_def)
  with P_read inv m ends_bytes [of q "pipe2 s"] show ?thesis by (simp add: tw_inv_def ends_ok_def p_shown_def)
next
  case P_show
  from inv obtain u where u: "c_str (pmsg s) = Some u" using msg_ok_c_str by (auto simp: tw_inv_def)
  from inv P_show have g: "got2 s \<noteq> []" "pmsg s = last (got2 s)" "\<not> ended (butlast (got2 s))" by (auto simp: tw_inv_def)
  then have sh: "strings (got2 s) = strings (butlast (got2 s)) @ [u]"
    using u strings_last by simp
  have e: "ended (got2 s) = is_end (pmsg s)" using g ended_last [of "got2 s"] by simp
  from P_show st u have t: "t = s\<lparr>pout := pout s @ [u], ppc := (if is_end (pmsg s) then P_final else P_get)\<rparr>"
    by (simp add: pp_parent_def)
  have "msg_ok len (last (got2 s))" using inv g by (simp add: tw_inv_def)
  with t P_show inv sh e show ?thesis
    by (cases "is_end (pmsg s)") (simp_all add: tw_inv_def ends_ok_def p_shown_def)
next
  case P_final
  from inv have m: "msg_ok len (pmsg s)" by (simp add: tw_inv_def)
  show ?thesis
  proof (cases "pipe_write (pmsg s) (pipe1 s)")
    case Broken
    with P_final inv have "\<not> c_rd1 (cpc s)" by (auto simp: pipe_write_def tw_inv_def ends_ok_def split: if_splits)
    with P_final inv have "cpc s = C_end_write \<or> cpc s = C_done" by (cases "cpc s") (auto simp: tw_inv_def)
    moreover have "t = kill_parent s" using P_final st Broken by (simp add: pp_parent_def parent_write_def)
    ultimately show ?thesis using P_final inv
      by (auto simp: kill_parent_def tw_inv_def ends_ok_def p_shown_def)
  next
    case (Ok q)
    with P_final st have t: "t = s\<lparr>pipe1 := q, sent1 := sent1 s @ [pmsg s], ppc := P_end_write\<rparr>"
      by (simp add: pp_parent_def parent_write_def)
    from inv pipe_ok_write [OF _ m Ok] have "pipe_ok q (sent1 s @ [pmsg s]) (got1 s)" "q = (pipe1 s)\<lparr>bytes := bytes q\<rparr>"
      by (auto simp: tw_inv_def)
    with P_final inv t ends_bytes [of q "pipe1 s"] show ?thesis by (simp add: tw_inv_def ends_ok_def p_shown_def)
  qed (use P_final st in \<open>simp_all add: pp_parent_def parent_write_def\<close>)
next
  case P_end_write
  with inv st show ?thesis by (clarsimp simp: pp_parent_def tw_inv_def ends_ok_def p_shown_def)
next
  case P_end_read
  with inv st show ?thesis by (clarsimp simp: pp_parent_def tw_inv_def ends_ok_def p_shown_def)
qed (use st in \<open>simp_all add: pp_parent_def\<close>)

lemma c_shown_last:
  assumes "gs \<noteq> []" and "c_str (last gs) = Some u"
  shows "c_shown C_get gs = c_shown C_test gs @ (if is_end (last gs) then [] else [u])"
  using assms by (cases gs rule: rev_cases) (auto simp: c_shown_def strings_def)

lemma c_shown_same: "pc \<noteq> C_test \<Longrightarrow> c_shown pc gs = c_shown C_get gs"
  by (simp add: c_shown_def)

lemma tw_child_inv:
  assumes inv: "tw_inv s" and st: "pp_child len ask s = Some t"
  shows "tw_inv t"
proof (cases "cpc s")
  case C_close_write
  with inv st show ?thesis by (clarsimp simp: pp_child_def tw_inv_def ends_ok_def c_shown_def)
next
  case C_close_read
  with inv st show ?thesis by (clarsimp simp: pp_child_def tw_inv_def ends_ok_def c_shown_def)
next
  case C_read
  with tw_child_read_ok [OF inv C_read, of len] st obtain m q where
    q: "pipe_read len (pipe1 s) = Ok (m, q)" by (cases "pipe_read len (pipe1 s)") (auto simp: pp_child_def)
  from inv pipe_ok_read [OF _ q] have m: "msg_ok len m" "pipe_ok q (sent1 s) (got1 s @ [m])" "q = (pipe1 s)\<lparr>bytes := bytes q\<rparr>"
    by (auto simp: tw_inv_def)
  moreover from inv m(1) have "overwrite m (cmsg s) = m" by (simp add: tw_inv_def msg_ok_def fits_def)
  ultimately have "t = s\<lparr>pipe1 := q, cmsg := m, got1 := got1 s @ [m], cpc := C_test\<rparr>"
    using C_read st q by (simp add: pp_child_def)
  moreover note msg_ok_fits [OF m(1)]
  ultimately show ?thesis using C_read inv m ends_bytes [of q "pipe1 s"] by (simp add: tw_inv_def ends_ok_def c_shown_def)
next
  case C_test
  from inv C_test have g: "got1 s \<noteq> []" "cmsg s = last (got1 s)" "\<not> ended (butlast (got1 s))" "msg_ok len (cmsg s)"
    by (auto simp: tw_inv_def)
  from msg_ok_c_str [OF g(4)] obtain u where u: "c_str (cmsg s) = Some u" by blast
  have e: "ended (got1 s) = is_end (cmsg s)" using g ended_last [of "got1 s"] by simp
  note sh = c_shown_last [OF g(1), of u] c_shown_same [of C_final "got1 s"]
  show ?thesis
  proof (cases "is_end (cmsg s)")
    case True
    with C_test st have "t = s\<lparr>cpc := C_final\<rparr>" by (simp add: pp_child_def)
    with C_test inv e True sh u g show ?thesis by (simp add: tw_inv_def ends_ok_def)
  next
    case False
    with C_test st u have "t = s\<lparr>cout := cout s @ [u], cpc := C_get\<rparr>" by (simp add: pp_child_def)
    with C_test inv e False sh u g show ?thesis by (simp add: tw_inv_def ends_ok_def)
  qed
next
  case C_get
  from inv C_get have "msg_ok len (cmsg s)" by (simp add: tw_inv_def)
  from ask_ok [OF this, of "cinp s"] obtain m rest where
    "ask (cmsg s) (cinp s) = Some (m, rest)" "msg_ok len m" by blast
  with C_get st have "t = s\<lparr>cmsg := m, cinp := rest, cpc := C_write\<rparr>" "msg_ok len m" by (simp_all add: pp_child_def)
  moreover note msg_ok_fits [OF this(2)]
  ultimately show ?thesis using C_get inv by (simp add: tw_inv_def ends_ok_def c_shown_def)
next
  case C_write
  from tw_child_write_ok [OF inv C_write] obtain q where q: "pipe_write (cmsg s) (pipe2 s) = Ok q" by blast
  with C_write st have t: "t = s\<lparr>pipe2 := q, sent2 := sent2 s @ [cmsg s], cpc := C_read\<rparr>"
    by (simp add: pp_child_def child_write_def)
  from inv C_write pipe_ok_write [OF _ _ q] have "pipe_ok q (sent2 s @ [cmsg s]) (got2 s)" "q = (pipe2 s)\<lparr>bytes := bytes q\<rparr>"
    by (auto simp: tw_inv_def)
  with C_write inv t ends_bytes [of q "pipe2 s"] show ?thesis by (simp add: tw_inv_def ends_ok_def c_shown_def)
next
  case C_final
  from inv C_final have m: "msg_ok len (cmsg s)" by (simp add: tw_inv_def)
  show ?thesis
  proof (cases "pipe_write (cmsg s) (pipe2 s)")
    case Broken
    with C_final inv have "\<not> p_rd2 (ppc s)" by (auto simp: pipe_write_def tw_inv_def ends_ok_def split: if_splits)
    with C_final inv have "ppc s = P_done" by (cases "ppc s") (auto simp: tw_inv_def)
    moreover have "t = kill_child s" using C_final st Broken by (simp add: pp_child_def child_write_def)
    ultimately show ?thesis using C_final inv by (simp add: kill_child_def tw_inv_def ends_ok_def c_shown_def)
  next
    case (Ok q)
    with C_final st have t: "t = s\<lparr>pipe2 := q, sent2 := sent2 s @ [cmsg s], cpc := C_end_read\<rparr>"
      by (simp add: pp_child_def child_write_def)
    from inv pipe_ok_write [OF _ m Ok] have "pipe_ok q (sent2 s @ [cmsg s]) (got2 s)" "q = (pipe2 s)\<lparr>bytes := bytes q\<rparr>"
      by (auto simp: tw_inv_def)
    moreover have "ppc s \<noteq> P_killed" using inv C_final by (auto simp: tw_inv_def)
    ultimately show ?thesis using C_final inv t ends_bytes [of q "pipe2 s"] by (simp add: tw_inv_def ends_ok_def c_shown_def)
  qed (use C_final st in \<open>simp_all add: pp_child_def child_write_def\<close>)
next
  case C_end_read
  with inv st show ?thesis by (clarsimp simp: pp_child_def tw_inv_def ends_ok_def c_shown_def)
next
  case C_end_write
  with inv st show ?thesis by (clarsimp simp: pp_child_def tw_inv_def ends_ok_def c_shown_def)
qed (use st in \<open>simp_all add: pp_child_def\<close>)


text \<open>Turns, and what a process still has to read.\<close>

lemma tw_turn_inv: "tw_inv s \<Longrightarrow> pair_step len ask x s = Some t \<Longrightarrow> tw_inv t"
  by (cases x) (auto intro: tw_parent_inv tw_child_inv)

lemma tw_inputs: "tw_inv (s\<lparr>pinp := i\<rparr>) = tw_inv s" "tw_inv (s\<lparr>cinp := i\<rparr>) = tw_inv s"
  by (simp_all add: tw_inv_def)

lemma tw_start_inv: "msg_ok len jp \<Longrightarrow> length jc = len \<Longrightarrow> tw_inv (tw_start new_pipe new_pipe jp jc ip ic)"
  by (simp add: tw_start_def new_pipe_def tw_inv_def ends_ok_def pc.track_start pipe_holds_def p_shown_def c_shown_def strings_def fits_def)

lemma tw_pair_system:
  "msg_ok len jp \<Longrightarrow> length jc = len \<Longrightarrow> invariant_system (pair_step len ask) (tw_start new_pipe new_pipe jp jc ip ic) tw_inv"
  by (unfold_locales, erule (1) tw_start_inv, erule (1) tw_turn_inv)

text \<open>What the invariant says of the conversation.\<close>

lemma conversation:
  assumes inv: "tw_inv s"
  shows "ppc s \<noteq> P_undefined \<and> cpc s \<noteq> C_undefined \<and> prefix (got1 s) (sent1 s) \<and> prefix (got2 s) (sent2 s) \<and>
    length (sent2 s) \<le> length (got1 s) \<and> length (got1 s) \<le> length (sent1 s) \<and> length (sent1 s) \<le> length (got2 s) + 1 \<and>
    pout s = map (\<lambda>b. the (c_str b)) (if ppc s = P_show then butlast (got2 s) else got2 s) \<and>
    cout s = map (\<lambda>b. the (c_str b)) (filter (\<lambda>b. \<not> is_end b) (if cpc s = C_test then butlast (got1 s) else got1 s)) \<and>
    (ppc s = P_killed \<longrightarrow> (cpc s = C_end_write \<or> cpc s = C_done) \<and> ended (got2 s)) \<and>
    (cpc s = C_killed \<longrightarrow> ppc s = P_done \<and> ended (got1 s))"
proof -
  from inv have und: "ppc s \<noteq> P_undefined" "cpc s \<noteq> C_undefined" by (auto simp: tw_inv_def)
  from inv have pre: "prefix (got1 s) (sent1 s)" "prefix (got2 s) (sent2 s)" by (auto simp: tw_inv_def dest: pc.track_prefix)
  from inv have out: "pout s = p_shown (ppc s) (got2 s)" "cout s = c_shown (cpc s) (got1 s)" by (simp_all add: tw_inv_def)
  from inv have kill: "ppc s = P_killed \<longrightarrow> (cpc s = C_end_write \<or> cpc s = C_done) \<and> ended (got2 s)"
    "cpc s = C_killed \<longrightarrow> ppc s = P_done \<and> ended (got1 s)" by (auto simp: tw_inv_def)
  from tw_counts [OF inv] p_due_le(1) [of "ppc s"] have
    len: "length (sent2 s) \<le> length (got1 s)" "length (got1 s) \<le> length (sent1 s)" "length (sent1 s) \<le> length (got2 s) + 1" by simp_all
  show ?thesis using und pre len kill out [unfolded p_shown_def c_shown_def strings_def] by blast
qed

lemma tw_parent_stuck:
  assumes inv: "tw_inv s" and st: "pp_parent len ask s = None"
  shows "ppc s = P_done \<or> ppc s = P_killed \<or> ppc s = P_read \<and> bytes (pipe2 s) = []"
proof -
  from inv have "msg_ok len (pmsg s)" by (simp add: tw_inv_def)
  then have w: "parent_write n s \<noteq> None" for n
    using tw_room(1) [OF inv, of "pmsg s"] by (auto simp: parent_write_def pipe_write_def split: io.splits if_splits)
  show ?thesis
  proof (cases "ppc s")
    case P_read
    with st show ?thesis by (auto simp: pp_parent_def pipe_read_def split: io.splits if_splits)
  qed (use st inv w in \<open>auto simp: pp_parent_def tw_inv_def split: option.splits\<close>)
qed

lemma tw_child_stuck:
  assumes inv: "tw_inv s" and st: "pp_child len ask s = None"
  shows "cpc s = C_done \<or> cpc s = C_killed \<or> cpc s = C_read \<and> bytes (pipe1 s) = []"
proof -
  have w: "child_write n s \<noteq> None" if "c_started (cpc s)" for n
  proof -
    from that inv have "msg_ok len (cmsg s)" by (simp add: tw_inv_def)
    then show ?thesis using tw_room(2) [OF inv, of "cmsg s"] by (auto simp: child_write_def pipe_write_def split: io.splits if_splits)
  qed
  show ?thesis
  proof (cases "cpc s")
    case C_read
    with st show ?thesis by (auto simp: pp_child_def pipe_read_def split: io.splits if_splits)
  next
    case C_undefined
    with inv show ?thesis by (simp add: tw_inv_def)
  qed (use st w in \<open>auto simp: pp_child_def split: option.splits if_splits\<close>)
qed

lemma tw_stuck:
  assumes inv: "tw_inv s" and "pp_parent len ask s = None" and "pp_child len ask s = None"
  shows "tw_over s"
proof -
  note c = tw_counts [OF inv]
  have e1: "sent1 s = got1 s" if "bytes (pipe1 s) = []" using that inv by (auto simp: tw_inv_def intro: pc.track_empty)
  have e2: "sent2 s = got2 s" if "bytes (pipe2 s) = []" using that inv by (auto simp: tw_inv_def intro: pc.track_empty)
  have ends: "p_end (ppc s) (got2 s) (sent1 s)" "c_end (cpc s) (got1 s) (sent2 s)"
    "ppc s = P_killed \<longrightarrow> cpc s = C_end_write \<or> cpc s = C_done" "cpc s = C_killed \<longrightarrow> ppc s = P_done"
    using inv by (simp_all add: tw_inv_def)
  have "\<not> (ppc s = P_read \<and> bytes (pipe2 s) = [] \<and> cpc s = C_read \<and> bytes (pipe1 s) = [])"
    using c e1 e2 by auto
  moreover have "\<not> (ppc s = P_read \<and> bytes (pipe2 s) = [] \<and> cpc s = C_done)" using ends e2 by auto
  moreover have "\<not> (cpc s = C_read \<and> bytes (pipe1 s) = [] \<and> ppc s = P_done)" using ends e1 by auto
  ultimately show ?thesis
    using tw_parent_stuck [OF inv assms(2)] tw_child_stuck [OF inv assms(3)] ends(3,4) by (auto simp: tw_over_def)
qed

end

section \<open>The conversation ends\<close>

text \<open>Messages the parent will still send, and the steps left.\<close>

fun p_open :: "tw_ppc \<Rightarrow> cbuf \<Rightarrow> cbuf list \<Rightarrow> bool" where
  "p_open P_close_read m ss = True" | "p_open P_close_write m ss = True" | "p_open P_get m ss = True"
| "p_open P_write m ss = (\<not> is_end m)" | "p_open P_read m ss = (\<not> is_end (last ss))" | "p_open P_show m ss = (\<not> is_end (last ss))"
| "p_open _ m ss = False"

fun p_sends :: "tw_ppc \<Rightarrow> cbuf \<Rightarrow> cbuf list \<Rightarrow> nat \<Rightarrow> nat" where
  "p_sends P_close_read m ss k = k + 2" | "p_sends P_close_write m ss k = k + 2" | "p_sends P_get m ss k = k + 2"
| "p_sends P_write m ss k = (if is_end m then 2 else k + 3)"
| "p_sends P_read m ss k = (if is_end (last ss) then 1 else k + 2)"
| "p_sends P_show m ss k = (if is_end (last ss) then 1 else k + 2)"
| "p_sends P_final m ss k = 1" | "p_sends _ m ss k = 0"

fun p_work :: "tw_ppc \<Rightarrow> cbuf \<Rightarrow> cbuf list \<Rightarrow> nat \<Rightarrow> nat" where
  "p_work P_close_read m ss k = 4 * k + 9" | "p_work P_close_write m ss k = 4 * k + 8" | "p_work P_get m ss k = 4 * k + 7"
| "p_work P_write m ss k = (if is_end m then 6 else 4 * k + 10)"
| "p_work P_read m ss k = (if is_end (last ss) then 5 else 4 * k + 9)"
| "p_work P_show m ss k = (if is_end (last ss) then 4 else 4 * k + 8)"
| "p_work P_final m ss k = 3" | "p_work P_end_write m ss k = 2" | "p_work P_end_read m ss k = 1" | "p_work _ m ss k = 0"

fun c_work :: "tw_cpc \<Rightarrow> nat \<Rightarrow> nat" where
  "c_work C_close_write r = 5 * r + 5" | "c_work C_close_read r = 5 * r + 4" | "c_work C_read r = 5 * r + 3"
| "c_work C_test r = 5 * r + 7" | "c_work C_get r = 5 * r + 6" | "c_work C_write r = 5 * r + 5"
| "c_work C_final r = 3" | "c_work C_end_read r = 2" | "c_work C_end_write r = 1" | "c_work _ r = 0"

lemma c_work_mono: "q \<le> r \<Longrightarrow> c_work pc q \<le> c_work pc r"
  by (cases pc) simp_all

lemma p_mono: "j \<le> k \<Longrightarrow> p_sends pc m ss j \<le> p_sends pc m ss k" "j \<le> k \<Longrightarrow> p_work pc m ss j \<le> p_work pc m ss k"
  by (cases pc; simp)+

text \<open>
  \<open>ends i\<close>: the number of messages that a process with input \<open>i\<close> gets before its first closing
  one, \<open>None\<close> if it may never get one.
\<close>

locale pipe_talk = pipe_pair len ask
  for len :: nat and ask :: "cbuf \<Rightarrow> 'i \<Rightarrow> (cbuf \<times> 'i) option" +
  fixes ends :: "'i \<Rightarrow> nat option"
  assumes ends_step: "msg_ok len b \<Longrightarrow> ask b i = Some (m, i') \<Longrightarrow> ends i = Some k \<Longrightarrow>
    is_end m \<or> (\<exists>j. ends i' = Some j \<and> k = Suc j)"
begin

definition left :: "'i \<Rightarrow> nat" where
  "left i = (case ends i of None \<Rightarrow> 0 | Some k \<Rightarrow> k)"

definition tw_receives :: "'i tw_state \<Rightarrow> nat" where
  "tw_receives s = p_sends (ppc s) (pmsg s) (sent1 s) (left (pinp s)) + length (sent1 s) - length (got1 s)"

definition tw_work :: "'i tw_state \<Rightarrow> nat" where
  "tw_work s = p_work (ppc s) (pmsg s) (sent1 s) (left (pinp s)) + c_work (cpc s) (tw_receives s)"

definition tw_live :: "'i tw_state \<Rightarrow> bool" where
  "tw_live s \<longleftrightarrow> tw_inv s \<and> (p_open (ppc s) (pmsg s) (sent1 s) \<longrightarrow> ends (pinp s) \<noteq> None)"

lemma tw_answer_end:
  assumes inv: "tw_inv s" and pc: "ppc s = P_show" and "is_end (last (sent1 s))"
  shows "is_end (pmsg s)"
proof -
  note c = tw_counts [OF inv]
  from inv pc have g: "got2 s \<noteq> []" "pmsg s = last (got2 s)" "\<not> ended (butlast (got2 s))" by (auto simp: tw_inv_def)
  from c pc have "length (sent1 s) \<le> length (got1 s)" "length (sent2 s) \<le> length (got2 s)" "c_due (cpc s) = 0" by auto
  with inv have eq: "sent1 s = got1 s" "sent2 s = got2 s" and d: "c_due (cpc s) = 0"
    by (auto simp: tw_inv_def intro: pc.track_all)
  have "sent1 s \<noteq> []" using c(3) pc g(1) by (cases "sent1 s") auto
  with assms(3) eq have "ended (got1 s)" using ended_last [of "got1 s"] by simp
  with inv d have "ended (sent2 s)" by (cases "cpc s") (auto simp: tw_inv_def)
  with eq g show ?thesis using ended_last [of "got2 s"] by simp
qed

lemma tw_parent_live:
  assumes live: "tw_live s" and st: "pp_parent len ask s = Some t"
  shows "tw_live t \<and> p_work (ppc t) (pmsg t) (sent1 t) (left (pinp t)) < p_work (ppc s) (pmsg s) (sent1 s) (left (pinp s)) \<and>
    tw_receives t \<le> tw_receives s \<and> cpc t = cpc s"
proof -
  from live have inv: "tw_inv s" by (simp add: tw_live_def)
  note inv' = tw_parent_inv [OF inv st]
  note le = tw_counts(1) [OF inv]
  show ?thesis
  proof (cases "ppc s")
    case P_get
    from inv have m: "msg_ok len (pmsg s)" by (simp add: tw_inv_def)
    from ask_ok [OF m] obtain b rest where b: "ask (pmsg s) (pinp s) = Some (b, rest)" by blast
    with P_get st have t: "t = s\<lparr>pmsg := b, pinp := rest, ppc := P_write\<rparr>" by (simp add: pp_parent_def)
    from live P_get obtain k where k: "ends (pinp s) = Some k" by (auto simp: tw_live_def)
    from ends_step [OF m b k] k P_get t inv' show ?thesis by (auto simp: tw_live_def tw_receives_def left_def)
  next
    case P_write
    from tw_parent_write_ok [OF inv P_write] P_write st obtain q where
      "t = s\<lparr>pipe1 := q, sent1 := sent1 s @ [pmsg s], ppc := P_read\<rparr>"
      by (auto simp: pp_parent_def parent_write_def)
    with P_write live inv' le show ?thesis by (auto simp: tw_live_def tw_receives_def)
  next
    case P_read
    with tw_parent_read_ok [OF inv P_read, of len] st obtain m q where
      "t = s\<lparr>pipe2 := q, pmsg := overwrite m (pmsg s), got2 := got2 s @ [m], ppc := P_show\<rparr>"
      by (cases "pipe_read len (pipe2 s)") (auto simp: pp_parent_def)
    with P_read live inv' show ?thesis by (auto simp: tw_live_def tw_receives_def)
  next
    case P_show
    from inv obtain u where "c_str (pmsg s) = Some u" using msg_ok_c_str by (auto simp: tw_inv_def)
    with P_show st have t: "t = s\<lparr>pout := pout s @ [u], ppc := (if is_end (pmsg s) then P_final else P_get)\<rparr>"
      by (simp add: pp_parent_def)
    from tw_answer_end [OF inv P_show] t P_show live inv' le show ?thesis
      by (cases "is_end (pmsg s)"; cases "is_end (last (sent1 s))") (auto simp: tw_live_def tw_receives_def)
  next
    case P_final
    with st inv' le show ?thesis
      by (auto simp: pp_parent_def parent_write_def kill_parent_def tw_live_def tw_receives_def split: io.splits)
  qed (use st live inv' le in \<open>auto simp: pp_parent_def tw_live_def tw_receives_def\<close>)
qed

lemma tw_child_live:
  assumes live: "tw_live s" and st: "pp_child len ask s = Some t"
  shows "tw_live t \<and> c_work (cpc t) (tw_receives t) < c_work (cpc s) (tw_receives s) \<and> ppc t = ppc s \<and> pmsg t = pmsg s \<and>
    sent1 t = sent1 s \<and> pinp t = pinp s"
proof -
  from live have inv: "tw_inv s" by (simp add: tw_live_def)
  note inv' = tw_child_inv [OF inv st]
  have same: "ppc t = ppc s \<and> pmsg t = pmsg s \<and> sent1 t = sent1 s \<and> pinp t = pinp s"
    using st by (auto simp: pp_child_def child_write_def kill_child_def split: tw_cpc.splits io.splits option.splits prod.splits if_splits)
  have "c_work (cpc t) (tw_receives t) < c_work (cpc s) (tw_receives s)"
  proof (cases "cpc s")
    case C_read
    with tw_child_read_ok [OF inv C_read, of len] st obtain m q where
      q: "pipe_read len (pipe1 s) = Ok (m, q)" by (cases "pipe_read len (pipe1 s)") (auto simp: pp_child_def)
    with C_read st have t: "t = s\<lparr>pipe1 := q, cmsg := overwrite m (cmsg s), got1 := got1 s @ [m], cpc := C_test\<rparr>"
      by (simp add: pp_child_def)
    from inv have "pipe_ok (pipe1 s) (sent1 s) (got1 s)" by (simp add: tw_inv_def)
    from pipe_ok_read [OF this q] have "length (got1 s) < length (sent1 s)" by simp
    with t C_read show ?thesis by (auto simp: tw_receives_def)
  next
    case C_write
    with st show ?thesis by (auto simp: pp_child_def child_write_def kill_child_def tw_receives_def split: io.splits)
  next
    case C_final
    with st show ?thesis by (auto simp: pp_child_def child_write_def kill_child_def tw_receives_def split: io.splits)
  qed (use st in \<open>auto simp: pp_child_def tw_receives_def split: option.splits if_splits\<close>)
  with inv' same live show ?thesis by (simp add: tw_live_def)
qed


text \<open>Turns decrease the work; so does any event that brings the end of the input nearer.\<close>

lemma tw_turn_live:
  assumes live: "tw_live s" and st: "pair_step len ask x s = Some t"
  shows "tw_live t \<and> tw_work t < tw_work s"
proof (cases x)
  case Parent
  with st tw_parent_live [OF live] have p: "tw_live t" "tw_receives t \<le> tw_receives s" "cpc t = cpc s"
    "p_work (ppc t) (pmsg t) (sent1 t) (left (pinp t)) < p_work (ppc s) (pmsg s) (sent1 s) (left (pinp s))" by auto
  from c_work_mono [OF p(2), of "cpc s"] p show ?thesis by (simp add: tw_work_def)
next
  case Child
  with st tw_child_live [OF live] show ?thesis by (simp add: tw_work_def)
qed

lemma tw_input_live:
  assumes live: "tw_live s" and i: "ends i = Some 0"
  shows "tw_live (s\<lparr>pinp := i\<rparr>) \<and> tw_work (s\<lparr>pinp := i\<rparr>) \<le> tw_work s" "tw_live (s\<lparr>cinp := j\<rparr>)" "tw_work (s\<lparr>cinp := j\<rparr>) = tw_work s"
proof -
  let ?t = "s\<lparr>pinp := i\<rparr>"
  have z: "left i = 0" using i by (simp add: left_def)
  have "tw_receives ?t \<le> tw_receives s" "p_work (ppc ?t) (pmsg ?t) (sent1 ?t) 0 \<le> p_work (ppc s) (pmsg s) (sent1 s) (left (pinp s))"
    using p_mono [of 0 "left (pinp s)" "ppc s" "pmsg s" "sent1 s"] by (simp_all add: tw_receives_def z)
  with c_work_mono [of "tw_receives ?t" "tw_receives s" "cpc s"] live z i
  show "tw_live ?t \<and> tw_work ?t \<le> tw_work s" by (simp add: tw_live_def tw_work_def tw_inputs)
  show "tw_live (s\<lparr>cinp := j\<rparr>)" "tw_work (s\<lparr>cinp := j\<rparr>) = tw_work s"
    using live by (simp_all add: tw_live_def tw_work_def tw_receives_def tw_inputs)
qed

lemma tw_pair_terminating:
  assumes "tw_live s0"
  shows "terminating_system (pair_step len ask) s0 tw_live tw_work tw_over"
proof
  fix s
  assume live: "tw_live s" and stuck: "\<And>a. pair_step len ask a s = None"
  from stuck [of Parent] stuck [of Child] live show "tw_over s" by (intro tw_stuck) (simp_all add: tw_live_def)
qed (use assms tw_turn_live in blast)+

end

end
