(* ===== verification/Cin.thy ===== *)
theory Cin
  imports Cstring
begin

text \<open>
  \<open>std::cin.getline(msg, n)\<close>, with which the C++ programs read a line into a character array. It
  stores the characters before the next newline, at most \<open>n - 1\<close>, and always a null character
  after them; the newline is taken from the stream. When the input ends, or when \<open>n - 1\<close>
  characters are stored and the next is not a newline, the stream is no longer good; from then
  on it delivers empty strings, however much input there is.
\<close>

section \<open>The stream\<close>

record istream =
  good :: bool
  chars :: "char list"

text \<open>The characters stored (there is room for \<open>k\<close>), whether the stream stays good, and what remains.\<close>

fun getline_chars :: "nat \<Rightarrow> char list \<Rightarrow> char list \<times> bool \<times> char list" where
  "getline_chars k [] = ([], False, [])"
| "getline_chars k (c # cs) =
     (if c = NEWLINE then ([], True, cs)
      else (case k of
              0 \<Rightarrow> ([], False, c # cs)
            | Suc j \<Rightarrow> (case getline_chars j cs of (l, g, r) \<Rightarrow> (c # l, g, r))))"

definition getline :: "nat \<Rightarrow> cbuf \<Rightarrow> istream \<Rightarrow> cbuf \<times> istream" where
  "getline n buf st =
     (if good st then
        (case getline_chars (n - 1) (chars st) of (l, g, r) \<Rightarrow> (overwrite (l @ [NUL]) buf, \<lparr>good = g, chars = r\<rparr>))
      else (overwrite [NUL] buf, st))"

lemma getline_chars_length: "getline_chars k cs = (l, g, r) \<Longrightarrow> length l \<le> k"
  by (induction k cs arbitrary: l g r rule: getline_chars.induct) (auto split: if_splits nat.splits prod.splits)

lemma getline_chars_rest:
  "getline_chars k cs = (l, g, r) \<Longrightarrow> length r \<le> length cs \<and> (g \<longrightarrow> length r < length cs)"
  by (induction k cs arbitrary: l g r rule: getline_chars.induct)
    (auto split: if_splits nat.splits prod.splits, fastforce+)

text \<open>A line that fits is read whole; after a longer one, or at the end of the input, the stream fails.\<close>

lemma getline_chars_line: "NEWLINE \<notin> set w \<Longrightarrow> length w \<le> k \<Longrightarrow> getline_chars k (w @ NEWLINE # r) = (w, True, r)"
  by (induction w arbitrary: k) (auto split: nat.splits)

lemma getline_chars_long:
  "NEWLINE \<notin> set w \<Longrightarrow> k < length w \<Longrightarrow> getline_chars k (w @ r) = (take k w, False, drop k w @ r)"
  by (induction w arbitrary: k) (auto split: nat.splits)

lemma getline_chars_eof: "NEWLINE \<notin> set w \<Longrightarrow> length w \<le> k \<Longrightarrow> getline_chars k w = (w, False, [])"
  by (induction w arbitrary: k) (auto split: nat.splits)

section \<open>The array\<close>

lemma getline_length: "0 < n \<Longrightarrow> n \<le> length buf \<Longrightarrow> getline n buf st = (b, st') \<Longrightarrow> length b = length buf"
  by (auto simp: getline_def overwrite_def split: if_splits prod.splits dest!: getline_chars_length)

lemma getline_terminated: "terminated buf \<Longrightarrow> getline n buf st = (b, st') \<Longrightarrow> terminated b"
proof -
  have o: "terminated (overwrite (l @ [NUL]) buf)" if "terminated buf" for l
    using that by (cases l; cases buf) (auto simp: terminated_def overwrite_def)
  from o [of "[]"] o show "terminated buf \<Longrightarrow> getline n buf st = (b, st') \<Longrightarrow> terminated b"
    by (auto simp: getline_def split: if_splits prod.splits)
qed

lemma getline_nul: "getline n buf st = (b, st') \<Longrightarrow> NUL \<in> set b"
  by (auto simp: getline_def overwrite_def split: if_splits prod.splits)

lemma getline_bad: "\<not> good st \<Longrightarrow> getline n buf st = (b, st') \<Longrightarrow> st' = st \<and> c_str b = Some [] \<and> \<not> is_end b"
  by (auto simp: getline_def overwrite_def c_str_def)

section \<open>What a user types\<close>

text \<open>
  What a program that asks for a line again and again gets while the stream is good, up to the
  first line of a kind; \<open>stop\<close> tells that kind from the characters stored.
\<close>

function cin_lines :: "(string \<Rightarrow> bool) \<Rightarrow> nat \<Rightarrow> istream \<Rightarrow> string list" where
  "cin_lines stop n st =
     (if \<not> good st then []
      else (case getline_chars (n - 1) (chars st) of
              (l, g, r) \<Rightarrow> l # (if stop l then [] else cin_lines stop n \<lparr>good = g, chars = r\<rparr>)))"
  by pat_completeness auto
termination
proof (relation "measure (\<lambda>(stop, n, st). length (chars st) + (if good st then 1 else 0))", goal_cases)
  case (2 stop n st l q g r)
  then have "getline_chars (n - 1) (chars st) = (l, g, r)" by simp
  from getline_chars_rest [OF this] 2(1) show ?case by auto
qed simp

declare cin_lines.simps [simp del]

definition stops :: "(string \<Rightarrow> bool) \<Rightarrow> nat \<Rightarrow> istream \<Rightarrow> bool" where
  "stops stop n st \<longleftrightarrow> (\<exists>w \<in> set (cin_lines stop n st). stop w)"

lemma cin_lines_step:
  assumes "good st" and "getline_chars (n - 1) (chars st) = (l, g, r)"
  shows "cin_lines stop n st = l # (if stop l then [] else cin_lines stop n \<lparr>good = g, chars = r\<rparr>)"
    and "stops stop n st \<longleftrightarrow> stop l \<or> stops stop n \<lparr>good = g, chars = r\<rparr>"
proof -
  show e: "cin_lines stop n st = l # (if stop l then [] else cin_lines stop n \<lparr>good = g, chars = r\<rparr>)"
    using assms by (subst cin_lines.simps) simp
  show "stops stop n st \<longleftrightarrow> stop l \<or> stops stop n \<lparr>good = g, chars = r\<rparr>" by (auto simp: stops_def e)
qed

lemma cin_lines_bad: "\<not> good st \<Longrightarrow> cin_lines stop n st = []" "\<not> good st \<Longrightarrow> \<not> stops stop n st"
  by (simp_all add: stops_def cin_lines.simps [of stop n st])

lemma cin_lines_end:
  assumes "stops stop n st"
  shows "\<exists>ws w. cin_lines stop n st = ws @ [w] \<and> stop w \<and> (\<forall>v \<in> set ws. \<not> stop v)"
  using assms
proof (induction stop n st rule: cin_lines.induct)
  case (1 stop n st)
  from 1(2) have g: "good st" using cin_lines_bad(2) [of st stop n] by blast
  obtain l h r where l: "getline_chars (n - 1) (chars st) = (l, h, r)" by (metis prod_cases3)
  note st = cin_lines_step [OF g l, of stop]
  show ?case
  proof (cases "stop l")
    case True
    with st(1) show ?thesis by simp
  next
    case False
    with st(2) 1(2) have "stops stop n \<lparr>good = h, chars = r\<rparr>" by simp
    from 1(1) [OF _ l [symmetric] refl _ this] g False obtain ws w where
      "cin_lines stop n \<lparr>good = h, chars = r\<rparr> = ws @ [w]" "stop w" "\<forall>v \<in> set ws. \<not> stop v" by auto
    with st(1) False show ?thesis by (intro exI [of _ "l # ws"] exI [of _ w]) simp
  qed
qed

text \<open>Lines as they are typed, each with its newline.\<close>

definition typed_lines :: "string list \<Rightarrow> char list" where
  "typed_lines ws = concat (map (\<lambda>w. w @ [NEWLINE]) ws)"

definition short :: "nat \<Rightarrow> string \<Rightarrow> bool" where
  "short n w \<longleftrightarrow> NEWLINE \<notin> set w \<and> NUL \<notin> set w \<and> length w < n"

lemma cin_lines_short:
  assumes "\<forall>w \<in> set ws. short n w \<and> \<not> stop w" and "short n v" and "stop v"
  shows "cin_lines stop n \<lparr>good = True, chars = typed_lines (ws @ [v]) @ rest\<rparr> = ws @ [v]"
  using assms(1)
proof (induction ws)
  have one: "getline_chars (n - 1) (w @ NEWLINE # r) = (w, True, r)" if "short n w" for w r
    using that by (intro getline_chars_line) (auto simp: short_def)
  {
    case Nil
    from cin_lines_step(1) [where stop = stop and n = n and st = "\<lparr>good = True, chars = v @ NEWLINE # rest\<rparr>"] one [OF assms(2)] assms(3)
    show ?case by (simp add: typed_lines_def)
  next
    case (Cons w ws)
    let ?r = "typed_lines (ws @ [v]) @ rest"
    from Cons have "short n w" "\<not> stop w" by simp_all
    with cin_lines_step(1) [where stop = stop and n = n and st = "\<lparr>good = True, chars = w @ NEWLINE # ?r\<rparr>"] one [of w ?r] Cons
    show ?case by (simp add: typed_lines_def)
  }
qed

text \<open>A long line among them stops the stream.\<close>

lemma cin_lines_long:
  assumes "\<forall>w \<in> set ws. short n w \<and> \<not> stop w" and "NEWLINE \<notin> set v" and "n \<le> length v" and "0 < n" and "\<not> stop (take (n - 1) v)"
  shows "\<not> stops stop n \<lparr>good = True, chars = typed_lines ws @ v @ rest\<rparr>"
  using assms(1)
proof (induction ws)
  case Nil
  from assms have "getline_chars (n - 1) (v @ rest) = (take (n - 1) v, False, drop (n - 1) v @ rest)"
    by (intro getline_chars_long) auto
  with cin_lines_step(2) [where stop = stop and n = n and st = "\<lparr>good = True, chars = v @ rest\<rparr>"] assms(5) cin_lines_bad(2)
  show ?case by (simp add: typed_lines_def)
next
  case (Cons w ws)
  let ?r = "typed_lines ws @ v @ rest"
  from Cons have w: "short n w" "\<not> stop w" by simp_all
  then have "getline_chars (n - 1) (w @ NEWLINE # ?r) = (w, True, ?r)" by (intro getline_chars_line) (auto simp: short_def)
  with cin_lines_step(2) [where stop = stop and n = n and st = "\<lparr>good = True, chars = w @ NEWLINE # ?r\<rparr>"] w Cons
  show ?case by (simp add: typed_lines_def)
qed

text \<open>The line that ends a conversation starts with 0.\<close>

definition zero_line :: "string \<Rightarrow> bool" where
  "zero_line w \<longleftrightarrow> w \<noteq> [] \<and> hd w = CHR ''0''"

lemma overwrite_is_end: "is_end (overwrite (l @ [NUL]) buf) \<longleftrightarrow> zero_line l"
  by (cases l) (simp_all add: overwrite_def zero_line_def)

text \<open>One call: the array, and how the lines still to come change.\<close>

lemma getline_lines:
  assumes "getline n buf st = (b, st')" and "good st"
  obtains l where "b = overwrite (l @ [NUL]) buf" "length l \<le> n - 1"
    "\<And>stop. cin_lines stop n st = l # (if stop l then [] else cin_lines stop n st')"
    "\<And>stop. stops stop n st \<longleftrightarrow> stop l \<or> stops stop n st'"
proof -
  obtain l g r where l: "getline_chars (n - 1) (chars st) = (l, g, r)" by (metis prod_cases3)
  with assms have "b = overwrite (l @ [NUL]) buf" "st' = \<lparr>good = g, chars = r\<rparr>" by (simp_all add: getline_def)
  with that [of l] cin_lines_step [OF assms(2) l] getline_chars_length [OF l] show thesis by simp
qed

lemma getline_mute: "\<not> stops zero_line n st \<Longrightarrow> getline n buf st = (b, st') \<Longrightarrow> \<not> is_end b \<and> \<not> stops zero_line n st'"
proof (cases "good st")
  case True
  assume a: "\<not> stops zero_line n st" "getline n buf st = (b, st')"
  from getline_lines [OF a(2) True] a(1) obtain l where "b = overwrite (l @ [NUL]) buf" "\<not> zero_line l" "\<not> stops zero_line n st'"
    by metis
  then show ?thesis by (simp add: overwrite_is_end)
next
  case False
  assume "\<not> stops zero_line n st" "getline n buf st = (b, st')"
  with getline_bad [OF False] show ?thesis by auto
qed

section \<open>Typed and sent\<close>

text \<open>A string in C ends at the first null character, even if the user typed it.\<close>

definition until_nul :: "string \<Rightarrow> string" where
  "until_nul w = takeWhile (\<lambda>c. c \<noteq> NUL) w"

lemma c_str_until_nul: "c_str (overwrite (l @ [NUL]) buf) = Some (until_nul l)"
proof (cases "NUL \<in> set l")
  case True
  then show ?thesis by (auto simp: c_str_def overwrite_def until_nul_def takeWhile_append1)
next
  case False
  then have "takeWhile (\<lambda>c. c \<noteq> NUL) l = l" by (auto simp: takeWhile_eq_all_conv)
  then show ?thesis unfolding until_nul_def by (simp only: c_str_overwrite [OF False])
qed

lemma map_until_nul: "\<forall>w \<in> set ws. short n w \<Longrightarrow> map until_nul ws = ws"
  by (intro map_idI) (auto simp: until_nul_def short_def takeWhile_eq_all_conv)

text \<open>
  Of the lines \<open>ws\<close> that a program will get up to and including the closing one, \<open>xs\<close> have been
  dealt with; the others are still in the stream.
\<close>

definition pending :: "(string \<Rightarrow> bool) \<Rightarrow> nat \<Rightarrow> string list \<Rightarrow> string list \<Rightarrow> istream \<Rightarrow> bool" where
  "pending stop n ws xs st \<longleftrightarrow> stops stop n st \<and> xs @ map until_nul (cin_lines stop n st) = ws"

lemma stops_good: "stops stop n st \<Longrightarrow> good st"
  using cin_lines_bad(2) by blast

lemma pending_next:
  assumes "pending stop n ws xs st" and "getline n buf st = (b, st')"
  obtains l where "b = overwrite (l @ [NUL]) buf" "c_str b = Some (until_nul l)" "length l \<le> n - 1"
    "length (cin_lines stop n st) = (if stop l then 1 else Suc (length (cin_lines stop n st')))"
    "if stop l then xs @ [until_nul l] = ws else pending stop n ws (xs @ [until_nul l]) st'"
proof -
  from assms(1) have s: "stops stop n st" by (simp add: pending_def)
  obtain l where l: "b = overwrite (l @ [NUL]) buf" "length l \<le> n - 1"
      "cin_lines stop n st = l # (if stop l then [] else cin_lines stop n st')"
      "stops stop n st \<longleftrightarrow> stop l \<or> stops stop n st'"
    by (rule getline_lines [OF assms(2) stops_good [OF s]]) blast
  with assms(1) s that [of l] show thesis by (cases "stop l") (simp_all add: pending_def c_str_until_nul)
qed

lemma pending_prefix: "pending stop n ws xs st \<Longrightarrow> prefix xs ws"
  by (auto simp: pending_def)

lemma pending_start: "stops stop n st \<Longrightarrow> pending stop n (map until_nul (cin_lines stop n st)) [] st"
  by (simp add: pending_def)

text \<open>Streams to start with.\<close>

definition cin :: "string list \<Rightarrow> istream" where
  "cin ws = \<lparr>good = True, chars = typed_lines ws\<rparr>"

end
