(* ===== verification/Cpp_Pipe.thy ===== *)
theory Cpp_Pipe
  imports Pipe_Pair Cin
begin

text \<open>
  \<^verbatim>\<open>cpp/ipc/message_passing/pipe/twowaypipe.cc\<close>: the class \<open>Pipe\<close> and its \<open>main\<close>, an instance of
  theory \<open>Pipe_Pair\<close>. Other than in C the array is zeroed, it has 20 bytes, a message comes from
  \<open>std::cin.getline\<close>, there is no signal handler, and the constructor throws when a pipe cannot
  be created. The ends that are still open after \<open>run\<close> are closed by the destructor, in the order
  in which the C program closes them.
\<close>

section \<open>The class\<close>

abbreviation (input) buff_size :: nat where "buff_size \<equiv> 20"

definition cin_message :: "cbuf \<Rightarrow> istream \<Rightarrow> (cbuf \<times> istream) option" where
  "cin_message msg st = Some (getline buff_size msg st)"

text \<open>The methods \<open>parent\<close> and \<open>child\<close>, each with the destructor.\<close>

definition cxx_parent :: "istream tw_state \<Rightarrow> istream tw_state option" where
  "cxx_parent = pp_parent buff_size cin_message"

definition cxx_child :: "istream tw_state \<Rightarrow> istream tw_state option" where
  "cxx_child = pp_child buff_size cin_message"

fun cxx_pipe_step :: "proc \<Rightarrow> istream tw_state \<Rightarrow> istream tw_state option" where
  "cxx_pipe_step Parent s = cxx_parent s"
| "cxx_pipe_step Child s = cxx_child s"

text \<open>
  The constructor, with the results of the two calls of \<open>pipe\<close>, and \<open>main\<close>, with that of \<open>fork\<close>, which
  is not checked; \<open>Inl\<close> is what the handler prints.
\<close>

definition pipe_construct :: "bool \<Rightarrow> bool \<Rightarrow> (pipe \<times> pipe \<times> cbuf) option" where
  "pipe_construct ok1 ok2 = (if \<not> ok1 \<or> \<not> ok2 then None else Some (new_pipe, new_pipe, replicate buff_size NUL))"

definition cxx_pipe_main :: "string \<Rightarrow> bool \<Rightarrow> bool \<Rightarrow> bool \<Rightarrow> istream \<Rightarrow> istream \<Rightarrow> (string + istream tw_state)" where
  "cxx_pipe_main what ok1 ok2 forked ip ic =
     (case pipe_construct ok1 ok2 of
        None \<Rightarrow> Inl (''Exception: '' @ what)
      | Some (p1, p2, msg) \<Rightarrow> (let s = tw_start p1 p2 msg msg ip ic in Inr (if forked then s else kill_parent s)))"

section \<open>The input\<close>

definition cin_ends :: "istream \<Rightarrow> nat option" where
  "cin_ends st = (if stops zero_line 20 st then Some (length (cin_lines zero_line 20 st) - 1) else None)"

lemma cin_message_ok: "msg_ok 20 b \<Longrightarrow> \<exists>m st'. cin_message b st = Some (m, st') \<and> msg_ok 20 m"
  using getline_length [of 20 b st] getline_terminated [of b 20 st]
  by (cases "getline 20 b st") (auto simp: cin_message_def msg_ok_def)

lemma cin_message_ends:
  assumes "cin_message b st = Some (m, st')" and "cin_ends st = Some k"
  shows "is_end m \<or> (\<exists>j. cin_ends st' = Some j \<and> k = Suc j)"
proof -
  from assms(2) have s: "stops zero_line 20 st" and k: "k = length (cin_lines zero_line 20 st) - 1"
    by (auto simp: cin_ends_def split: if_splits)
  from assms(1) have g: "getline 20 b st = (m, st')" by (simp add: cin_message_def)
  obtain l where l: "m = overwrite (l @ [NUL]) b"
      "cin_lines zero_line 20 st = l # (if zero_line l then [] else cin_lines zero_line 20 st')"
      "stops zero_line 20 st \<longleftrightarrow> zero_line l \<or> stops zero_line 20 st'"
    by (rule getline_lines [OF g stops_good [OF s]]) blast
  show ?thesis
  proof (cases "zero_line l")
    case True
    with l(1) show ?thesis by (simp add: overwrite_is_end)
  next
    case False
    with l(3) s have s': "stops zero_line 20 st'" by simp
    then have "cin_lines zero_line 20 st' \<noteq> []" by (auto simp: stops_def)
    with False l(2) k s' show ?thesis by (cases "cin_lines zero_line 20 st'") (auto simp: cin_ends_def)
  qed
qed

interpretation cpp: pipe_talk buff_size cin_message cin_ends
proof unfold_locales
  fix b st
  show "msg_ok 20 b \<Longrightarrow> \<exists>m st'. cin_message b st = Some (m, st') \<and> msg_ok 20 m" by (rule cin_message_ok)
next
  fix b st m st' k
  show "cin_message b st = Some (m, st') \<Longrightarrow> cin_ends st = Some k \<Longrightarrow> is_end m \<or> (\<exists>j. cin_ends st' = Some j \<and> k = Suc j)"
    by (rule cin_message_ends)
qed (simp_all add: PIPE_SIZE_def)

lemma cxx_pipe_step_pair: "cxx_pipe_step = pair_step buff_size cin_message"
proof (intro ext)
  show "cxx_pipe_step x s = pair_step buff_size cin_message x s" for x s
    by (cases x) (simp_all add: cxx_parent_def cxx_child_def)
qed

lemma cxx_zeros_ok: "msg_ok 20 (replicate 20 NUL)" "length (replicate 20 NUL) = 20"
  by (simp_all add: msg_ok_def terminated_def)

lemma cxx_pipe_main_start:
  "cxx_pipe_main what ok1 ok2 True ip ic = Inr s0 \<Longrightarrow>
     s0 = tw_start new_pipe new_pipe (replicate 20 NUL) (replicate 20 NUL) ip ic"
  by (auto simp: cxx_pipe_main_def pipe_construct_def Let_def split: if_splits)

lemma cxx_pipe_inv:
  assumes "cxx_pipe_main what ok1 ok2 True ip ic = Inr s0" and "reach cxx_pipe_step s0 s"
  shows "cpp.tw_inv s"
  using assms(2) invariant_system.reach_inv [OF cpp.tw_pair_system [OF cxx_zeros_ok]]
  unfolding cxx_pipe_main_start [OF assms(1)] cxx_pipe_step_pair by blast

section \<open>The conversation\<close>

text \<open>
  The C++ conversation: for every schedule and whatever the two users type, neither process
  runs over the end of a string or finds a pipe closed while they talk; messages arrive whole, in
  order and in turns, and are shown as received. Only the closing message that answers a 0 may meet
  SIGPIPE, in at most one of the processes. There is no deadlock: as long as not both processes
  have ended, one of them can move.
\<close>

theorem cpp_pipe_conversation:
  assumes "cxx_pipe_main what ok1 ok2 True ip ic = Inr s0" and "reach cxx_pipe_step s0 s"
  shows "ppc s \<noteq> P_undefined \<and> cpc s \<noteq> C_undefined \<and> prefix (got1 s) (sent1 s) \<and> prefix (got2 s) (sent2 s) \<and>
    length (sent2 s) \<le> length (got1 s) \<and> length (got1 s) \<le> length (sent1 s) \<and> length (sent1 s) \<le> length (got2 s) + 1 \<and>
    pout s = map (\<lambda>b. the (c_str b)) (if ppc s = P_show then butlast (got2 s) else got2 s) \<and>
    cout s = map (\<lambda>b. the (c_str b)) (filter (\<lambda>b. \<not> is_end b) (if cpc s = C_test then butlast (got1 s) else got1 s)) \<and>
    (ppc s = P_killed \<longrightarrow> (cpc s = C_end_write \<or> cpc s = C_done) \<and> ended (got2 s)) \<and>
    (cpc s = C_killed \<longrightarrow> ppc s = P_done \<and> ended (got1 s)) \<and>
    ((\<forall>x. cxx_pipe_step x s = None) \<longrightarrow> tw_over s)"
proof -
  note inv = cxx_pipe_inv [OF assms]
  have "tw_over s" if "\<forall>x. cxx_pipe_step x s = None"
    using cpp.tw_stuck [OF inv] spec [OF that, of Parent] spec [OF that, of Child] by (simp add: cxx_parent_def cxx_child_def)
  with cpp.conversation [OF inv] show ?thesis by blast
qed

text \<open>
  C14. The C++ conversation ends if the parent's stream comes to a line that starts with 0 before
  it fails, that is before any other line of 20 or more characters and before the end of the input: no run,
  of any schedule, has more than nine steps per line and 15, and one that cannot be continued has ended
  both processes.
\<close>

theorem cpp_pipe_ends:
  assumes "cxx_pipe_main what ok1 ok2 True ip ic = Inr s0" and "stops zero_line 20 ip"
    and "run cxx_pipe_step sch s0 = Some s"
  shows "length sch \<le> 9 * length (cin_lines zero_line 20 ip) + 15 \<and> ((\<forall>x. cxx_pipe_step x s = None) \<longrightarrow> tw_over s)"
proof -
  note s0 = cxx_pipe_main_start [OF assms(1)]
  obtain k where k: "cin_ends ip = Some k" "length (cin_lines zero_line 20 ip) = Suc k"
    using assms(2) cin_lines_end [OF assms(2)] by (auto simp: cin_ends_def)
  have live: "cpp.tw_live s0"
    using cpp.tw_start_inv [OF cxx_zeros_ok] k by (simp add: s0 cpp.tw_live_def) (simp add: tw_start_def)
  note sys = cpp.tw_pair_terminating [OF live]
  note r = assms(3) [unfolded cxx_pipe_step_pair]
  have "cpp.tw_work s0 = 9 * k + 24"
    using k by (simp add: s0 tw_start_def cpp.tw_work_def cpp.tw_receives_def cpp.left_def)
  with terminating_system.run_bounded [OF sys r] k have "length sch \<le> 9 * length (cin_lines zero_line 20 ip) + 15" by simp
  moreover have "tw_over s" if "\<forall>x. cxx_pipe_step x s = None"
    using terminating_system.maximal_final [OF sys r] that by (simp add: cxx_pipe_step_pair)
  ultimately show ?thesis by blast
qed

section \<open>A conversation that never ends\<close>

text \<open>Neither user gets a closing line through; nobody has sent one or is about to.\<close>

definition mute :: "istream tw_state \<Rightarrow> bool" where
  "mute s \<longleftrightarrow> cpp.tw_inv s \<and> \<not> stops zero_line 20 (pinp s) \<and> \<not> stops zero_line 20 (cinp s) \<and>
     \<not> ended (sent1 s) \<and> \<not> ended (sent2 s) \<and> (ppc s = P_write \<longrightarrow> \<not> is_end (pmsg s)) \<and> (cpc s = C_write \<longrightarrow> \<not> is_end (cmsg s))"

lemma ended_prefix: "prefix xs ys \<Longrightarrow> ended xs \<Longrightarrow> ended ys"
  by (auto simp: ended_def prefix_def)

lemma mute_got: "mute s \<Longrightarrow> \<not> ended (got1 s) \<and> \<not> ended (got2 s)"
  using ended_prefix by (auto simp: mute_def cpp.tw_inv_def dest: cpp.pc.track_prefix)

lemma mute_open: "mute s \<Longrightarrow> \<not> tw_over s \<and> ppc s \<noteq> P_final \<and> cpc s \<noteq> C_final"
  using mute_got [of s] by (auto simp: mute_def cpp.tw_inv_def tw_over_def)

lemma mute_parent:
  assumes m: "mute s" and st: "pp_parent 20 cin_message s = Some t"
  shows "mute t"
proof -
  from m have inv: "cpp.tw_inv s" by (simp add: mute_def)
  note inv' = cpp.tw_parent_inv [OF inv st]
  have same: "cpc t = cpc s" "cmsg t = cmsg s" "cinp t = cinp s" "sent2 t = sent2 s"
    using st by (auto simp: pp_parent_def parent_write_def kill_parent_def split: tw_ppc.splits option.splits io.splits prod.splits)
  show ?thesis
  proof (cases "ppc s")
    case P_get
    obtain b st' where g: "getline 20 (pmsg s) (pinp s) = (b, st')" by fastforce
    with P_get st have "t = s\<lparr>pmsg := b, pinp := st', ppc := P_write\<rparr>" by (simp add: pp_parent_def cin_message_def)
    with getline_mute [OF _ g] m inv' same show ?thesis by (simp add: mute_def)
  next
    case P_write
    from cpp.tw_parent_write_ok [OF inv P_write] obtain q where "pipe_write (pmsg s) (pipe1 s) = Ok q" by blast
    with P_write st have "t = s\<lparr>pipe1 := q, sent1 := sent1 s @ [pmsg s], ppc := P_read\<rparr>"
      by (simp add: pp_parent_def parent_write_def)
    with m P_write inv' show ?thesis by (simp add: mute_def)
  next
    case P_final
    with mute_open [OF m] show ?thesis by simp
  qed (use st m inv' same in \<open>auto simp: mute_def pp_parent_def split: io.splits option.splits\<close>)
qed

lemma mute_child:
  assumes m: "mute s" and st: "pp_child 20 cin_message s = Some t"
  shows "mute t"
proof -
  from m have inv: "cpp.tw_inv s" by (simp add: mute_def)
  note inv' = cpp.tw_child_inv [OF inv st]
  have same: "ppc t = ppc s" "pmsg t = pmsg s" "pinp t = pinp s" "sent1 t = sent1 s"
    using st by (auto simp: pp_child_def child_write_def kill_child_def split: tw_cpc.splits option.splits io.splits prod.splits if_splits)
  show ?thesis
  proof (cases "cpc s")
    case C_get
    obtain b st' where g: "getline 20 (cmsg s) (cinp s) = (b, st')" by fastforce
    with C_get st have "t = s\<lparr>cmsg := b, cinp := st', cpc := C_write\<rparr>" by (simp add: pp_child_def cin_message_def)
    with getline_mute [OF _ g] m inv' same show ?thesis by (simp add: mute_def)
  next
    case C_write
    from cpp.tw_child_write_ok [OF inv C_write] obtain q where "pipe_write (cmsg s) (pipe2 s) = Ok q" by blast
    with C_write st have "t = s\<lparr>pipe2 := q, sent2 := sent2 s @ [cmsg s], cpc := C_read\<rparr>"
      by (simp add: pp_child_def child_write_def)
    with m C_write inv' show ?thesis by (simp add: mute_def)
  next
    case C_final
    with mute_open [OF m] show ?thesis by simp
  qed (use st m inv' same in \<open>auto simp: mute_def pp_child_def split: io.splits option.splits if_splits\<close>)
qed

lemma mute_system:
  assumes "\<not> stops zero_line 20 ip" and "\<not> stops zero_line 20 ic"
  shows "invariant_system cxx_pipe_step (tw_start new_pipe new_pipe (replicate 20 NUL) (replicate 20 NUL) ip ic) mute"
proof
  show "mute (tw_start new_pipe new_pipe (replicate 20 NUL) (replicate 20 NUL) ip ic)"
    using cpp.tw_start_inv [OF cxx_zeros_ok] assms by (simp add: mute_def) (simp add: tw_start_def)
next
  fix s x t
  assume "mute s" "cxx_pipe_step x s = Some t"
  then show "mute t" by (cases x) (auto simp: cxx_parent_def cxx_child_def intro: mute_parent mute_child)
qed

text \<open>
  A long line or the end of the input makes the C++ conversation endless: when neither user
  gets a line that starts with 0 through before the stream stops (by a line of 20 or more
  characters, or Ctrl-D), then for every schedule one of the processes can always move, and neither
  ever ends: they go on sending each other empty messages.
\<close>

theorem cpp_pipe_never_ends:
  assumes "cxx_pipe_main what ok1 ok2 True ip ic = Inr s0" and "\<not> stops zero_line 20 ip" and "\<not> stops zero_line 20 ic"
    and "reach cxx_pipe_step s0 s"
  shows "(\<exists>x. cxx_pipe_step x s \<noteq> None) \<and> ppc s \<notin> {P_done, P_killed} \<and> cpc s \<notin> {C_done, C_killed} \<and>
    (\<forall>b \<in> set (got1 s @ got2 s). \<not> is_end b)"
proof -
  from invariant_system.reach_inv [OF mute_system [OF assms(2,3)]] assms(4)
  have m: "mute s" unfolding cxx_pipe_main_start [OF assms(1)] by blast
  note inv = cxx_pipe_inv [OF assms(1,4)]
  have "\<exists>x. cxx_pipe_step x s \<noteq> None"
  proof (rule ccontr)
    assume "\<not> ?thesis"
    then have "pp_parent 20 cin_message s = None" "pp_child 20 cin_message s = None"
      by (metis cxx_pipe_step.simps(1) cxx_parent_def, metis cxx_pipe_step.simps(2) cxx_child_def)
    with cpp.tw_stuck [OF inv] mute_open [OF m] show False by blast
  qed
  moreover have "ppc s \<notin> {P_done, P_killed} \<and> cpc s \<notin> {C_done, C_killed}"
    using inv mute_got [OF m] by (auto simp: cpp.tw_inv_def)
  ultimately show ?thesis using mute_got [OF m] by (auto simp: ended_def)
qed

section \<open>What is typed is what is shown\<close>

text \<open>
  \<open>ws\<close> are the lines the parent's user types, up to the closing one; those that the messages
  \<open>ss\<close> do not cover are still in the stream.
\<close>

definition covers :: "string list \<Rightarrow> cbuf list \<Rightarrow> istream \<Rightarrow> bool" where
  "covers ws ss st \<longleftrightarrow> (if ss \<noteq> [] \<and> is_end (last ss) then strings ss = ws else pending zero_line 20 ws (strings ss) st)"

fun told :: "string list \<Rightarrow> tw_ppc \<Rightarrow> cbuf \<Rightarrow> cbuf list \<Rightarrow> istream \<Rightarrow> bool" where
  "told ws P_write m ss st \<longleftrightarrow> covers ws (ss @ [m]) st"
| "told ws P_read m ss st \<longleftrightarrow> covers ws ss st"
| "told ws P_show m ss st \<longleftrightarrow> covers ws ss st"
| "told ws P_final m ss st \<longleftrightarrow> prefix (strings ss) ws"
| "told ws P_killed m ss st \<longleftrightarrow> prefix (strings ss) ws"
| "told ws P_end_write m ss st \<longleftrightarrow> ss \<noteq> [] \<and> is_end (last ss) \<and> prefix (strings (butlast ss)) ws"
| "told ws P_end_read m ss st \<longleftrightarrow> ss \<noteq> [] \<and> is_end (last ss) \<and> prefix (strings (butlast ss)) ws"
| "told ws P_done m ss st \<longleftrightarrow> ss \<noteq> [] \<and> is_end (last ss) \<and> prefix (strings (butlast ss)) ws"
| "told ws P_undefined m ss st \<longleftrightarrow> True"
| "told ws _ m ss st \<longleftrightarrow> pending zero_line 20 ws (strings ss) st"

lemma covers_prefix: "covers ws ss st \<Longrightarrow> prefix (strings ss) ws"
  by (auto simp: covers_def pending_def split: if_splits)

lemma covers_next:
  assumes "pending zero_line 20 ws (strings ss) st" and "getline 20 buf st = (b, st')"
  shows "covers ws (ss @ [b]) st'"
  by (rule pending_next [OF assms]) (simp add: covers_def strings_def overwrite_is_end split: if_splits)

definition chat :: "string list \<Rightarrow> istream tw_state \<Rightarrow> bool" where
  "chat ws s \<longleftrightarrow> cpp.tw_inv s \<and> told ws (ppc s) (pmsg s) (sent1 s) (pinp s)"

lemma chat_parent:
  assumes m: "chat ws s" and st: "pp_parent 20 cin_message s = Some t"
  shows "chat ws t"
proof -
  from m have inv: "cpp.tw_inv s" by (simp add: chat_def)
  note inv' = cpp.tw_parent_inv [OF inv st]
  show ?thesis
  proof (cases "ppc s")
    case P_get
    obtain b st' where g: "getline 20 (pmsg s) (pinp s) = (b, st')" by fastforce
    with P_get st have "t = s\<lparr>pmsg := b, pinp := st', ppc := P_write\<rparr>" by (simp add: pp_parent_def cin_message_def)
    with covers_next [OF _ g] P_get m inv' show ?thesis by (simp add: chat_def)
  next
    case P_write
    from cpp.tw_parent_write_ok [OF inv P_write] obtain q where "pipe_write (pmsg s) (pipe1 s) = Ok q" by blast
    with P_write st have "t = s\<lparr>pipe1 := q, sent1 := sent1 s @ [pmsg s], ppc := P_read\<rparr>"
      by (simp add: pp_parent_def parent_write_def)
    with m P_write inv' show ?thesis by (simp add: chat_def)
  next
    case P_show
    with m have c: "covers ws (sent1 s) (pinp s)" by (simp add: chat_def)
    from inv obtain u where "c_str (pmsg s) = Some u" using cpp.msg_ok_c_str by (auto simp: cpp.tw_inv_def)
    with P_show st have t: "t = s\<lparr>pout := pout s @ [u], ppc := (if is_end (pmsg s) then P_final else P_get)\<rparr>"
      by (simp add: pp_parent_def)
    with c covers_prefix [OF c] cpp.tw_answer_end [OF inv P_show] inv' show ?thesis
      by (cases "is_end (pmsg s)") (auto simp: chat_def covers_def split: if_splits)
  next
    case P_final
    with inv m have "is_end (pmsg s)" "prefix (strings (sent1 s)) ws" by (auto simp: cpp.tw_inv_def chat_def)
    with P_final st inv' show ?thesis
      by (auto simp: chat_def pp_parent_def parent_write_def kill_parent_def split: io.splits)
  qed (use st m inv' in \<open>auto simp: chat_def pp_parent_def split: io.splits option.splits\<close>)
qed

lemma chat_system:
  assumes "stops zero_line 20 ip"
  shows "invariant_system cxx_pipe_step (tw_start new_pipe new_pipe (replicate 20 NUL) (replicate 20 NUL) ip ic)
    (chat (map until_nul (cin_lines zero_line 20 ip)))"
proof
  show "chat (map until_nul (cin_lines zero_line 20 ip)) (tw_start new_pipe new_pipe (replicate 20 NUL) (replicate 20 NUL) ip ic)"
    using cpp.tw_start_inv [OF cxx_zeros_ok] assms by (simp add: chat_def) (simp add: tw_start_def pending_def strings_def)
next
  fix s x t
  assume c: "chat (map until_nul (cin_lines zero_line 20 ip)) s" and st: "cxx_pipe_step x s = Some t"
  show "chat (map until_nul (cin_lines zero_line 20 ip)) t"
  proof (cases x)
    case Parent
    with c st show ?thesis by (simp add: cxx_parent_def chat_parent)
  next
    case Child
    with st have ch: "pp_child 20 cin_message s = Some t" by (simp add: cxx_child_def)
    then have "ppc t = ppc s" "pmsg t = pmsg s" "pinp t = pinp s" "sent1 t = sent1 s"
      by (auto simp: pp_child_def child_write_def kill_child_def split: tw_cpc.splits option.splits io.splits prod.splits if_splits)
    with c cpp.tw_child_inv [OF _ ch] show ?thesis by (simp add: chat_def)
  qed
qed

text \<open>The closing lines are those whose string starts with 0.\<close>

lemma zero_until_nul: "zero_line (until_nul w) = zero_line w"
  by (cases w) (auto simp: zero_line_def until_nul_def)

lemma is_end_zero: "msg_ok 20 b \<Longrightarrow> is_end b \<longleftrightarrow> zero_line (the (c_str b))"
proof -
  assume "msg_ok 20 b"
  then obtain u where u: "c_str b = Some u" using cpp.msg_ok_c_str by blast
  with is_end_c_str [OF u] show ?thesis by (cases u) (auto simp: zero_line_def)
qed

lemma strings_filter: "\<forall>b \<in> set bs. msg_ok 20 b \<Longrightarrow> strings (filter (\<lambda>b. \<not> is_end b) bs) = filter (\<lambda>w. \<not> zero_line w) (strings bs)"
  by (induction bs) (simp_all add: strings_def is_end_zero)

lemma prefix_filter: "prefix xs ys \<Longrightarrow> prefix (filter P xs) (filter P ys)"
  by (auto simp: prefix_def)

lemma told_filter:
  assumes "told ws pc m ss st" and "pc \<noteq> P_undefined" and "\<forall>b \<in> set ss. msg_ok 20 b"
  shows "prefix (strings (filter (\<lambda>b. \<not> is_end b) ss)) (filter (\<lambda>w. \<not> zero_line w) ws)"
proof -
  have sub: "\<exists>ts. set ts \<subseteq> set ss \<and> prefix (strings ts) ws \<and> filter (\<lambda>b. \<not> is_end b) ts = filter (\<lambda>b. \<not> is_end b) ss"
  proof -
    have pen: "pending zero_line 20 ws (strings ss) st \<Longrightarrow> prefix (strings ss) ws" by (rule pending_prefix)
    have but: "ss \<noteq> [] \<Longrightarrow> is_end (last ss) \<Longrightarrow> prefix (strings (butlast ss)) ws \<Longrightarrow> ?thesis"
      by (rule exI [of _ "butlast ss"], cases ss rule: rev_cases) auto
    have wr: "covers ws (ss @ [m]) st \<Longrightarrow> prefix (strings ss) ws"
      using covers_prefix [of ws "ss @ [m]" st] by (auto simp: strings_def dest: append_prefixD)
    from assms(1,2) pen but wr covers_prefix show ?thesis by (cases pc) (auto intro!: exI [of _ ss])
  qed
  then obtain ts where ts: "set ts \<subseteq> set ss" "prefix (strings ts) ws" "filter (\<lambda>b. \<not> is_end b) ts = filter (\<lambda>b. \<not> is_end b) ss"
    by blast
  with assms(3) strings_filter [of ts] have "strings (filter (\<lambda>b. \<not> is_end b) ss) = filter (\<lambda>w. \<not> zero_line w) (strings ts)"
    by (metis subsetD)
  then show ?thesis using prefix_filter [OF ts(2)] by simp
qed

lemma chat_shown:
  assumes "chat ws s"
  shows "prefix (cout s) (filter (\<lambda>w. \<not> zero_line w) ws)"
proof -
  from assms have inv: "cpp.tw_inv s" by (simp add: chat_def)
  then have "\<forall>b \<in> set (sent1 s). msg_ok 20 b" "prefix (got1 s) (sent1 s)" "ppc s \<noteq> P_undefined"
    by (auto simp: cpp.tw_inv_def cpp.pc.track_def)
  with told_filter [of ws "ppc s" "pmsg s" "sent1 s" "pinp s"] assms
  have all: "prefix (strings (filter (\<lambda>b. \<not> is_end b) (sent1 s))) (filter (\<lambda>w. \<not> zero_line w) ws)" by (simp add: chat_def)
  let ?g = "if cpc s = C_test then butlast (got1 s) else got1 s"
  have "prefix ?g (sent1 s)"
    using \<open>prefix (got1 s) (sent1 s)\<close> prefix_order.trans [OF prefixeq_butlast] by auto
  then have "prefix (strings (filter (\<lambda>b. \<not> is_end b) ?g)) (strings (filter (\<lambda>b. \<not> is_end b) (sent1 s)))"
    unfolding strings_def by (intro map_mono_prefix prefix_filter)
  moreover have "cout s = strings (filter (\<lambda>b. \<not> is_end b) ?g)" using inv by (simp add: cpp.tw_inv_def c_shown_def)
  ultimately show ?thesis using all prefix_order.trans by metis
qed

text \<open>
  When the other process's own user never gets a closing line through, the conversation ends only
  after everything typed has been sent: the parent is on its way out once it has sent all of \<open>ws\<close>
  and, after that, only closing messages.
\<close>

definition p_ending :: "tw_ppc \<Rightarrow> bool" where
  "p_ending pc \<longleftrightarrow> pc \<in> {P_final, P_killed, P_end_write, P_end_read, P_done}"

definition all_sent :: "string list \<Rightarrow> cbuf list \<Rightarrow> bool" where
  "all_sent ws ss \<longleftrightarrow> (\<exists>bs zs. ss = bs @ zs \<and> strings bs = ws \<and> (\<forall>z \<in> set zs. is_end z))"

definition silent :: "string list \<Rightarrow> istream tw_state \<Rightarrow> bool" where
  "silent ws s \<longleftrightarrow> chat ws s \<and> \<not> stops zero_line 20 (cinp s) \<and> (cpc s = C_write \<longrightarrow> \<not> is_end (cmsg s)) \<and>
     (ended (sent2 s) \<longrightarrow> ended (got1 s)) \<and> (p_ending (ppc s) \<longrightarrow> all_sent ws (sent1 s))"

lemma ended_strings: "\<forall>b \<in> set bs. msg_ok 20 b \<Longrightarrow> ended bs \<longleftrightarrow> (\<exists>w \<in> set (strings bs). zero_line w)"
  by (auto simp: ended_def strings_def is_end_zero)

lemma covers_ended:
  assumes "covers ws ss st" and "ended ss" and "\<forall>b \<in> set ss. msg_ok 20 b" and "\<forall>w \<in> set (butlast ws). \<not> zero_line w"
  shows "strings ss = ws"
proof (rule ccontr)
  assume ne: "strings ss \<noteq> ws"
  with assms(1) have p: "pending zero_line 20 ws (strings ss) st" by (auto simp: covers_def split: if_splits)
  then have "strings ss @ map until_nul (cin_lines zero_line 20 st) = ws" by (simp add: pending_def)
  with ne obtain x xs where "ws = strings ss @ x # xs" by (cases "cin_lines zero_line 20 st") auto
  then have "set (strings ss) \<subseteq> set (butlast ws)" by (auto simp: butlast_append)
  with assms(2-4) ended_strings show False by blast
qed

lemma sent1_ok: "cpp.tw_inv s \<Longrightarrow> (\<forall>b \<in> set (sent1 s). msg_ok 20 b) \<and> prefix (got1 s) (sent1 s) \<and> prefix (got2 s) (sent2 s)"
  by (auto simp: cpp.tw_inv_def cpp.pc.track_def)

lemma silent_parent:
  assumes m: "silent ws s" and st: "pp_parent 20 cin_message s = Some t" and ws: "\<forall>w \<in> set (butlast ws). \<not> zero_line w"
  shows "silent ws t"
proof -
  from m have ch: "chat ws s" and inv: "cpp.tw_inv s" by (simp_all add: silent_def chat_def)
  note ch' = chat_parent [OF ch st]
  have "cpc t = cpc s \<and> cmsg t = cmsg s \<and> cinp t = cinp s \<and> sent2 t = sent2 s \<and> got1 t = got1 s"
    using st by (auto simp: pp_parent_def parent_write_def kill_parent_def split: tw_ppc.splits option.splits io.splits prod.splits)
  moreover have "p_ending (ppc t) \<longrightarrow> all_sent ws (sent1 t)"
  proof (cases "ppc s")
    case P_show
    have "all_sent ws (sent1 s)" if e: "is_end (pmsg s)"
    proof -
      from inv P_show have "got2 s \<noteq> []" "pmsg s = last (got2 s)" by (auto simp: cpp.tw_inv_def)
      with e have "ended (got2 s)" by (auto simp: ended_def)
      with sent1_ok [OF inv] m ended_prefix have "ended (sent1 s)" by (metis silent_def)
      moreover from ch P_show have "covers ws (sent1 s) (pinp s)" by (simp add: chat_def)
      ultimately have "strings (sent1 s) = ws" using covers_ended ws sent1_ok [OF inv] by blast
      then show ?thesis unfolding all_sent_def by (intro exI [of _ "sent1 s"] exI [of _ "[]"]) simp
    qed
    with P_show st show ?thesis by (auto simp: pp_parent_def p_ending_def split: option.splits if_splits)
  next
    case P_final
    with m have "all_sent ws (sent1 s)" by (simp add: silent_def p_ending_def)
    then obtain bs zs where bs: "sent1 s = bs @ zs" "strings bs = ws" "\<forall>z \<in> set zs. is_end z" by (auto simp: all_sent_def)
    from inv P_final have "is_end (pmsg s)" by (simp add: cpp.tw_inv_def)
    with bs have "all_sent ws (sent1 s @ [pmsg s])" unfolding all_sent_def by (intro exI [of _ bs] exI [of _ "zs @ [pmsg s]"]) auto
    with \<open>all_sent ws (sent1 s)\<close> P_final st show ?thesis
      by (auto simp: pp_parent_def parent_write_def kill_parent_def split: io.splits)
  next
    case P_write
    from cpp.tw_parent_write_ok [OF inv P_write] P_write st show ?thesis
      by (auto simp: pp_parent_def parent_write_def p_ending_def)
  qed (use st m in \<open>auto simp: silent_def p_ending_def pp_parent_def split: io.splits option.splits\<close>)
  ultimately show ?thesis using m ch' by (simp add: silent_def)
qed

lemma silent_child:
  assumes m: "silent ws s" and st: "pp_child 20 cin_message s = Some t" and ch': "chat ws t"
  shows "silent ws t"
proof -
  from m have inv: "cpp.tw_inv s" by (simp add: silent_def chat_def)
  have same: "ppc t = ppc s" "sent1 t = sent1 s"
    using st by (auto simp: pp_child_def child_write_def kill_child_def split: tw_cpc.splits option.splits io.splits prod.splits if_splits)
  show ?thesis
  proof (cases "cpc s")
    case C_get
    obtain b st' where g: "getline 20 (cmsg s) (cinp s) = (b, st')" by fastforce
    with C_get st have "t = s\<lparr>cmsg := b, cinp := st', cpc := C_write\<rparr>" by (simp add: pp_child_def cin_message_def)
    with getline_mute [OF _ g] m ch' show ?thesis by (simp add: silent_def)
  next
    case C_write
    from cpp.tw_child_write_ok [OF inv C_write] obtain q where "pipe_write (cmsg s) (pipe2 s) = Ok q" by blast
    with C_write st have "t = s\<lparr>pipe2 := q, sent2 := sent2 s @ [cmsg s], cpc := C_read\<rparr>"
      by (simp add: pp_child_def child_write_def)
    with m C_write ch' show ?thesis by (simp add: silent_def ended_def)
  next
    case C_final
    with inv have "ended (got1 s)" by (simp add: cpp.tw_inv_def)
    with C_final st m ch' same show ?thesis
      by (auto simp: silent_def pp_child_def child_write_def kill_child_def split: io.splits)
  next
    case C_read
    then have "cpc t \<noteq> C_write" "cinp t = cinp s" "sent2 t = sent2 s" "ended (got1 s) \<longrightarrow> ended (got1 t)"
      using st by (auto simp: pp_child_def ended_def split: io.splits)
    with m ch' same show ?thesis by (simp add: silent_def)
  qed (use st m ch' same in \<open>auto simp: silent_def pp_child_def split: option.splits if_splits\<close>)
qed

lemma silent_system:
  assumes "stops zero_line 20 ip" and "\<not> stops zero_line 20 ic" and ws: "ws = map until_nul (cin_lines zero_line 20 ip)"
    and last: "\<forall>w \<in> set (butlast ws). \<not> zero_line w"
  shows "invariant_system cxx_pipe_step (tw_start new_pipe new_pipe (replicate 20 NUL) (replicate 20 NUL) ip ic) (silent ws)"
proof
  note sys = chat_system [OF assms(1), of ic, folded ws]
  show "silent ws (tw_start new_pipe new_pipe (replicate 20 NUL) (replicate 20 NUL) ip ic)"
    using invariant_system.inv_start [OF sys] assms(2) by (simp add: silent_def) (simp add: tw_start_def p_ending_def ended_def)
next
  fix s x t
  note sys = chat_system [OF assms(1), of ic, folded ws]
  assume m: "silent ws s" and st: "cxx_pipe_step x s = Some t"
  from m have "chat ws s" by (simp add: silent_def)
  from invariant_system.inv_step [OF sys this st] have ch': "chat ws t" .
  show "silent ws t"
  proof (cases x)
    case Parent
    with st show ?thesis by (intro silent_parent [OF m _ last]) (simp add: cxx_parent_def)
  next
    case Child
    with st show ?thesis by (intro silent_child [OF m _ ch']) (simp add: cxx_child_def)
  qed
qed

lemma silent_over:
  assumes m: "silent (ws @ [v]) s" and over: "tw_over s" and "\<forall>w \<in> set ws. \<not> zero_line w" and "zero_line v"
  shows "cout s = ws"
proof -
  from m have inv: "cpp.tw_inv s" by (simp add: silent_def chat_def)
  note ok = sent1_ok [OF inv]
  from over m obtain bs zs where bs: "sent1 s = bs @ zs" "strings bs = ws @ [v]" "\<forall>z \<in> set zs. is_end z"
    by (auto simp: tw_over_def silent_def p_ending_def all_sent_def)
  from over inv have e: "ended (got1 s)" and c: "cpc s \<noteq> C_test" by (auto simp: tw_over_def cpp.tw_inv_def)
  from ok set_mono_prefix have gok: "\<forall>b \<in> set (got1 s). msg_ok 20 b" by blast
  from ok bs(1) have "prefix (got1 s) (bs @ zs)" by simp
  then consider (early) "strict_prefix (got1 s) bs" | (all) ts where "got1 s = bs @ ts" "prefix ts zs"
    unfolding prefix_append strict_prefix_def by (cases "got1 s = bs") auto
  then have "\<exists>ts. got1 s = bs @ ts \<and> set ts \<subseteq> set zs"
  proof cases
    case early
    then obtain r q where "bs = got1 s @ r # q" by (auto elim: strict_prefixE')
    with bs(2) have "set (strings (got1 s)) \<subseteq> set ws"
      by (metis butlast_append butlast_snoc list.distinct(1) map_append list.simps(9) set_append strings_def Un_upper1)
    with e ended_strings [OF gok] assms(3) show ?thesis by blast
  qed (auto dest: set_mono_prefix)
  then obtain ts where ts: "got1 s = bs @ ts" "\<forall>z \<in> set ts. is_end z" using bs(3) by blast
  have "cout s = strings (filter (\<lambda>b. \<not> is_end b) (got1 s))" using inv c by (simp add: cpp.tw_inv_def c_shown_def)
  also have "\<dots> = strings (filter (\<lambda>b. \<not> is_end b) bs)" using ts by (simp add: filter_empty_conv)
  also have "\<dots> = filter (\<lambda>w. \<not> zero_line w) (ws @ [v])" using strings_filter [of bs] gok ts(1) bs(2) by simp
  finally show ?thesis using assms(3,4) by (simp add: filter_id_conv)
qed

text \<open>
  C13. What is typed is what is shown: when the parent's user types lines \<open>ws\<close> of at most 19
  characters, none of which starts with 0, and then a closing line, then in every reachable state what
  the other process has shown is a prefix of \<open>ws\<close>, character for character, whatever its own user
  types. When its own user does not type a closing line, it has shown exactly \<open>ws\<close> once no process can
  move any more; by \<open>cpp_pipe_ends\<close> every run comes to that point.
\<close>

theorem cpp_pipe_shows_typed:
  assumes "\<forall>w \<in> set ws. short 20 w \<and> \<not> zero_line w" and "short 20 v" and "zero_line v"
    and "cxx_pipe_main what ok1 ok2 True \<lparr>good = True, chars = typed_lines (ws @ [v]) @ rest\<rparr> ic = Inr s0"
    and "reach cxx_pipe_step s0 s"
  shows "prefix (cout s) ws \<and> (\<not> stops zero_line 20 ic \<and> (\<forall>x. cxx_pipe_step x s = None) \<longrightarrow> cout s = ws)"
proof (intro conjI impI)
  let ?ip = "\<lparr>good = True, chars = typed_lines (ws @ [v]) @ rest\<rparr>"
  note lines = cin_lines_short [where stop = zero_line, OF assms(1-3), of rest]
  have nul: "map until_nul (ws @ [v]) = ws @ [v]"
    using assms(1,2) by (intro map_until_nul [of _ 20]) auto
  have st: "stops zero_line 20 ?ip" using assms(3) by (simp add: stops_def lines)
  from invariant_system.reach_inv [OF chat_system [OF this]] assms(5) nul
  have "chat (ws @ [v]) s" unfolding cxx_pipe_main_start [OF assms(4)] lines by metis
  from chat_shown [OF this] assms(1,3) show "prefix (cout s) ws" by (simp add: filter_id_conv)
  assume q: "\<not> stops zero_line 20 ic \<and> (\<forall>x. cxx_pipe_step x s = None)"
  have "tw_over s"
    by (rule cpp.tw_stuck [OF cxx_pipe_inv [OF assms(4,5)]])
      (use spec [OF conjunct2 [OF q], of Parent] spec [OF conjunct2 [OF q], of Child] in \<open>simp_all add: cxx_parent_def cxx_child_def\<close>)
  moreover have "silent (ws @ [v]) s"
    using invariant_system.reach_inv [OF silent_system [OF st conjunct1 [OF q], of "ws @ [v]"]] assms(1,5) lines nul
    unfolding cxx_pipe_main_start [OF assms(4)] by simp
  ultimately show "cout s = ws" using silent_over assms(1,3) by blast
qed

section \<open>Conversations\<close>

definition cxx_talk :: "string list \<Rightarrow> string list \<Rightarrow> istream tw_state" where
  "cxx_talk ws vs = tw_start new_pipe new_pipe (replicate 20 NUL) (replicate 20 NUL) (cin ws) (cin vs)"

lemma cxx_talk_main: "cxx_pipe_main what True True True (cin ws) (cin vs) = Inr (cxx_talk ws vs)"
  by (simp add: cxx_pipe_main_def pipe_construct_def cxx_talk_def)

definition cxx_turns :: "proc list" where
  "cxx_turns = replicate 4 Parent @ replicate 6 Child @ replicate 4 Parent @ replicate 3 Child @ replicate 3 Parent @
     replicate 2 Child @ replicate 2 Parent"

definition cxx_talked :: "istream tw_state" where
  "cxx_talked = the (run cxx_pipe_step cxx_turns (cxx_talk [''hi'', ''0''] [''yo'']))"

definition cxx_talk_result :: "(tw_ppc \<times> tw_cpc \<times> string list \<times> string list) option" where
  "cxx_talk_result =
     map_option (\<lambda>s. (ppc s, cpc s, pout s, cout s)) (run cxx_pipe_step cxx_turns (cxx_talk [''hi'', ''0''] [''yo'']))"

lemma cxx_talk_evaluated: "cxx_talk_result = Some (P_done, C_done, [''yo'', ''0''], [''hi''])"
  by code_simp

lemma cxx_talked_run: "run cxx_pipe_step cxx_turns (cxx_talk [''hi'', ''0''] [''yo'']) = Some cxx_talked"
  and cxx_talked_points: "ppc cxx_talked = P_done" "cpc cxx_talked = C_done" "pout cxx_talked = [''yo'', ''0'']"
    "cout cxx_talked = [''hi'']"
  using cxx_talk_evaluated by (auto simp: cxx_talk_result_def cxx_talked_def)

lemma cxx_talked_reach: "reach cxx_pipe_step (cxx_talk [''hi'', ''0''] [''yo'']) cxx_talked"
  using cxx_talked_run reach_iff_run by fast

lemma cxx_talked_stuck: "cxx_pipe_step x cxx_talked = None"
  using cxx_talked_points by (cases x) (simp_all add: cxx_parent_def cxx_child_def pp_parent_def pp_child_def)

theorem cpp_pipe_conversation_witness: "prefix (got1 cxx_talked) (sent1 cxx_talked) \<and> tw_over cxx_talked"
  using cpp_pipe_conversation [OF cxx_talk_main cxx_talked_reach] cxx_talked_stuck by blast

theorem cpp_pipe_ends_witness: "length cxx_turns \<le> 9 * 2 + 15 \<and> tw_over cxx_talked"
proof -
  have "cin_lines zero_line 20 (cin [''hi'', ''0'']) = [''hi'', ''0'']" by code_simp
  moreover from this have "stops zero_line 20 (cin [''hi'', ''0''])" by (simp add: stops_def zero_line_def)
  ultimately show ?thesis using cpp_pipe_ends [OF cxx_talk_main _ cxx_talked_run] cxx_talked_stuck by simp
qed

theorem cpp_pipe_shows_typed_witness: "cout cxx_talked = [''hi'']"
proof -
  have a: "\<forall>w \<in> set [''hi'']. short 20 w \<and> \<not> zero_line w" "short 20 ''0''" "zero_line ''0''"
    by (simp_all add: short_def zero_line_def)
  have "cxx_pipe_main [] True True True \<lparr>good = True, chars = typed_lines ([''hi''] @ [''0'']) @ []\<rparr> (cin [''yo'']) =
      Inr (cxx_talk [''hi'', ''0''] [''yo''])"
    using cxx_talk_main [of "[]" "[''hi'', ''0'']" "[''yo'']"] by (simp add: cin_def)
  moreover have "\<not> stops zero_line 20 (cin [''yo''])" by (simp add: stops_def) code_simp
  ultimately show ?thesis using cpp_pipe_shows_typed [OF a _ cxx_talked_reach] cxx_talked_stuck by blast
qed

text \<open>Twenty characters are too many; the other user presses Ctrl-D.\<close>

theorem cpp_pipe_never_ends_witness:
  "\<exists>x. cxx_pipe_step x (cxx_talk [''twenty characters!!!'', ''0''] []) \<noteq> None"
proof -
  have "\<not> stops zero_line 20 (cin [''twenty characters!!!'', ''0''])" "\<not> stops zero_line 20 (cin [])"
    by (simp_all add: stops_def) code_simp+
  from cpp_pipe_never_ends [OF cxx_talk_main this reach.start] show ?thesis by blast
qed

end
