(* ===== verification/Message_Queue.thy ===== *)
theory Message_Queue
  imports Cstring
begin

text \<open>
  \<^verbatim>\<open>c/ipc/include/type.h\<close> and \<^verbatim>\<open>c/ipc/message_passing/message_queue/{write,read}.c\<close>: a
  writer that sends the lines of its input through a System V message queue, and a
  reader that prints them, until a message starts with the character 0.

  The queue is the kernel's: a list of typed messages, \<open>None\<close> once it has been removed. A
  send sleeps while the queue is full (its capacity is a parameter), a receive sleeps
  while there is no message of the type asked for. Both processes ignore the results of
  these calls. They pass \<open>sizeof msg\<close>, 32 bytes, as the length of the text, although only
  24 bytes of \<open>msg\<close> come after its type; the eight bytes of memory behind \<open>msg\<close> are
  therefore part of the model (\<open>beyond\<close>).

  SIGINT may arrive while the writer waits for input; the handler \<open>close_ipc\<close> then runs
  and \<open>fgets\<close> returns without having read anything.
\<close>

section \<open>Messages and queues\<close>

abbreviation (input) MQ_BUFFER_SIZE :: nat where "MQ_BUFFER_SIZE \<equiv> 20"

record message_buffer =
  mtype :: int
  mtext :: cbuf
  mpad :: cbuf
  beyond :: cbuf

type_synonym kmsg = "int \<times> char list"
type_synonym mqueue = "kmsg list option"

datatype 'a syscall = Sleeps | Fails | Succeeds 'a

definition msg_text :: "message_buffer \<Rightarrow> char list" where
  "msg_text m = mtext m @ mpad m @ beyond m"

definition msgsnd :: "nat \<Rightarrow> message_buffer \<Rightarrow> mqueue \<Rightarrow> mqueue syscall" where
  "msgsnd cap m oq =
     (case oq of
        None \<Rightarrow> Fails
      | Some q \<Rightarrow>
          if mtype m < 1 then Fails
          else if cap \<le> length q then Sleeps
          else Succeeds (Some (q @ [(mtype m, msg_text m)])))"

text \<open>The first message of type \<open>t\<close>, and the queue without it.\<close>

fun take_type :: "int \<Rightarrow> kmsg list \<Rightarrow> (kmsg \<times> kmsg list) option" where
  "take_type t [] = None"
| "take_type t (x # q) =
     (if fst x = t then Some (x, q) else map_option (\<lambda>(y, r). (y, x # r)) (take_type t q))"

definition store_msg :: "kmsg \<Rightarrow> message_buffer" where
  "store_msg x =
     \<lparr>mtype = fst x, mtext = take 20 (snd x), mpad = take 4 (drop 20 (snd x)), beyond = drop 24 (snd x)\<rparr>"

definition msgrcv :: "int \<Rightarrow> mqueue \<Rightarrow> (message_buffer \<times> mqueue) syscall" where
  "msgrcv t oq =
     (case oq of
        None \<Rightarrow> Fails
      | Some q \<Rightarrow>
          (case take_type t q of
             None \<Rightarrow> Sleeps
           | Some (x, r) \<Rightarrow> Succeeds (store_msg x, Some r)))"

text \<open>\<open>create_queue\<close>: \<open>msgget\<close> with \<open>IPC_CREAT\<close> finds the queue or makes an empty one.\<close>

definition create_queue :: "mqueue \<Rightarrow> mqueue" where
  "create_queue oq = (case oq of None \<Rightarrow> Some [] | Some q \<Rightarrow> Some q)"

section \<open>The processes\<close>

datatype mq_writer = W_get | W_send | W_show | W_done | W_undefined
datatype mq_reader = R_recv | R_show | R_remove | R_done | R_undefined

record mq_state =
  queue :: mqueue
  wpc :: mq_writer
  rpc :: mq_reader
  wmsg :: message_buffer
  rmsg :: message_buffer
  winp :: "char list"
  wout :: "string list"
  rout :: "string list"
  sent :: "cbuf list"
  got :: "cbuf list"

definition writer_step :: "nat \<Rightarrow> mq_state \<Rightarrow> mq_state option" where
  "writer_step cap s =
     (case wpc s of
        W_get \<Rightarrow>
          (case read_message MQ_BUFFER_SIZE (mtext (wmsg s)) (winp s) of
             None \<Rightarrow> Some (s\<lparr>wpc := W_undefined\<rparr>)
           | Some (b, rest) \<Rightarrow> Some (s\<lparr>wmsg := (wmsg s)\<lparr>mtext := b\<rparr>, winp := rest, wpc := W_send\<rparr>))
      | W_send \<Rightarrow>
          (case msgsnd cap (wmsg s) (queue s) of
             Sleeps \<Rightarrow> None
           | Fails \<Rightarrow> Some (s\<lparr>wpc := W_show\<rparr>)
           | Succeeds q \<Rightarrow> Some (s\<lparr>queue := q, sent := sent s @ [mtext (wmsg s)], wpc := W_show\<rparr>))
      | W_show \<Rightarrow>
          (case c_str (mtext (wmsg s)) of
             None \<Rightarrow> Some (s\<lparr>wpc := W_undefined\<rparr>)
           | Some t \<Rightarrow>
               Some (s\<lparr>wout := wout s @ [t], wpc := (if is_end (mtext (wmsg s)) then W_done else W_get)\<rparr>))
      | _ \<Rightarrow> None)"

definition reader_step :: "mq_state \<Rightarrow> mq_state option" where
  "reader_step s =
     (case rpc s of
        R_recv \<Rightarrow>
          (case msgrcv 1 (queue s) of
             Sleeps \<Rightarrow> None
           | Fails \<Rightarrow> Some (s\<lparr>rpc := R_show\<rparr>)
           | Succeeds (m, q) \<Rightarrow> Some (s\<lparr>rmsg := m, queue := q, got := got s @ [mtext m], rpc := R_show\<rparr>))
      | R_show \<Rightarrow>
          (case c_str (mtext (rmsg s)) of
             None \<Rightarrow> Some (s\<lparr>rpc := R_undefined\<rparr>)
           | Some t \<Rightarrow>
               Some (s\<lparr>rout := rout s @ [t], rpc := (if is_end (mtext (rmsg s)) then R_remove else R_recv)\<rparr>))
      | R_remove \<Rightarrow> Some (s\<lparr>queue := None, rpc := R_done\<rparr>)
      | _ \<Rightarrow> None)"

text \<open>
  The signal handler in the writer: \<open>strncpy(msg.text, "0", 1)\<close>, and the message is sent
  from the handler; then \<open>fgets\<close> is interrupted and the loop goes on with the array as
  the handler left it.
\<close>

definition close_ipc :: "nat \<Rightarrow> mq_state \<Rightarrow> mq_state option" where
  "close_ipc cap s =
     (let m = (wmsg s)\<lparr>mtext := strncpy (mtext (wmsg s)) ''0'' 1\<rparr>; oq = create_queue (queue s) in
      case msgsnd cap m oq of
        Sleeps \<Rightarrow> None
      | Fails \<Rightarrow> Some (s\<lparr>wmsg := m, queue := oq\<rparr>)
      | Succeeds q \<Rightarrow> Some (s\<lparr>wmsg := m, queue := q, sent := sent s @ [mtext m]\<rparr>))"

definition sigint_writer :: "nat \<Rightarrow> mq_state \<Rightarrow> mq_state option" where
  "sigint_writer cap s =
     (if wpc s = W_get then
        (case close_ipc cap s of
           None \<Rightarrow> None
         | Some s' \<Rightarrow>
             (case strtok_newline (mtext (wmsg s')) of
                None \<Rightarrow> Some (s'\<lparr>wpc := W_undefined\<rparr>)
              | Some b \<Rightarrow> Some (s'\<lparr>wmsg := (wmsg s')\<lparr>mtext := b\<rparr>, wpc := W_send\<rparr>)))
      else None)"

text \<open>
  The same handler in the reader, while it sleeps in \<open>msgrcv\<close>: the message it tries to send
  is rejected if no message has been received yet, because the type is still zero; then
  \<open>msgrcv\<close> is interrupted and the reader takes the array for a message.
\<close>

definition sigint_reader :: "nat \<Rightarrow> mq_state \<Rightarrow> mq_state option" where
  "sigint_reader cap s =
     (if rpc s = R_recv then
        (let m = (rmsg s)\<lparr>mtext := strncpy (mtext (rmsg s)) ''0'' 1\<rparr>; oq = create_queue (queue s) in
         case msgsnd cap m oq of
           Sleeps \<Rightarrow> None
         | Fails \<Rightarrow> Some (s\<lparr>rmsg := m, queue := oq, rpc := R_show\<rparr>)
         | Succeeds q \<Rightarrow> Some (s\<lparr>rmsg := m, queue := q, rpc := R_show\<rparr>))
      else None)"

datatype mq_actor = Writer | Reader | Sigint

fun mq_step :: "bool \<Rightarrow> nat \<Rightarrow> mq_actor \<Rightarrow> mq_state \<Rightarrow> mq_state option" where
  "mq_step sig cap Writer s = writer_step cap s"
| "mq_step sig cap Reader s = reader_step s"
| "mq_step sig cap Sigint s = (if sig then sigint_writer cap s else None)"

text \<open>
  Both processes have called \<open>create_queue\<close>. \<open>msg\<close> is a static object and starts zeroed;
  the writer has set its type to one. What is in memory behind it differs.
\<close>

definition zero_msg :: "int \<Rightarrow> cbuf \<Rightarrow> message_buffer" where
  "zero_msg t b = \<lparr>mtype = t, mtext = replicate 20 NUL, mpad = replicate 4 NUL, beyond = b\<rparr>"

definition mq_start :: "cbuf \<Rightarrow> cbuf \<Rightarrow> char list \<Rightarrow> mq_state" where
  "mq_start bw br inp =
     \<lparr>queue = create_queue None, wpc = W_get, rpc = R_recv, wmsg = zero_msg 1 bw, rmsg = zero_msg 0 br,
      winp = inp, wout = [], rout = [], sent = [], got = []\<rparr>"

section \<open>The invariant\<close>

definition text_ok :: "cbuf \<Rightarrow> bool" where
  "text_ok b \<longleftrightarrow> length b = 20 \<and> terminated b"

definition msg_ok :: "message_buffer \<Rightarrow> bool" where
  "msg_ok m \<longleftrightarrow> mtype m = 1 \<and> text_ok (mtext m) \<and> length (mpad m) = 4 \<and> length (beyond m) = 8"

definition kmsg_text :: "kmsg \<Rightarrow> cbuf" where
  "kmsg_text x = take 20 (snd x)"

text \<open>
  What is under way: while the queue exists, the texts received and those still queued
  are the texts sent; after its removal the texts received are a prefix of them.
\<close>

definition queue_ok :: "mqueue \<Rightarrow> cbuf list \<Rightarrow> cbuf list \<Rightarrow> bool" where
  "queue_ok oq gs ss \<longleftrightarrow>
     (case oq of
        None \<Rightarrow> prefix gs ss
      | Some q \<Rightarrow> (\<forall>x \<in> set q. fst x = 1) \<and> gs @ map kmsg_text q = ss) \<and> (\<forall>b \<in> set ss. text_ok b)"

definition writer_ok :: "mq_writer \<Rightarrow> cbuf \<Rightarrow> cbuf list \<Rightarrow> bool" where
  "writer_ok pc b ss \<longleftrightarrow>
     pc \<noteq> W_undefined \<and>
     ((\<exists>x \<in> set ss. is_end x) \<longrightarrow> pc \<noteq> W_get \<and> (pc \<noteq> W_done \<longrightarrow> is_end b))"

definition no_end :: "cbuf list \<Rightarrow> bool" where
  "no_end bs \<longleftrightarrow> (\<forall>b \<in> set bs. \<not> is_end b)"

definition shown :: "cbuf list \<Rightarrow> string list" where
  "shown bs = map (\<lambda>b. the (c_str b)) bs"

fun reader_ok :: "mq_reader \<Rightarrow> cbuf \<Rightarrow> cbuf list \<Rightarrow> string list \<Rightarrow> bool" where
  "reader_ok R_recv b gs out \<longleftrightarrow> no_end gs \<and> out = shown gs"
| "reader_ok R_show b gs out \<longleftrightarrow> (\<exists>hs. gs = hs @ [b] \<and> no_end hs \<and> out = shown hs)"
| "reader_ok R_remove b gs out \<longleftrightarrow> (\<exists>hs c. gs = hs @ [c] \<and> no_end hs \<and> is_end c \<and> out = shown gs)"
| "reader_ok R_done b gs out \<longleftrightarrow> (\<exists>hs c. gs = hs @ [c] \<and> no_end hs \<and> is_end c \<and> out = shown gs)"
| "reader_ok R_undefined b gs out \<longleftrightarrow> False"

definition mq_inv :: "mq_state \<Rightarrow> bool" where
  "mq_inv s \<longleftrightarrow>
     msg_ok (wmsg s) \<and> (queue s = None \<longleftrightarrow> rpc s = R_done) \<and> queue_ok (queue s) (got s) (sent s) \<and>
     writer_ok (wpc s) (mtext (wmsg s)) (sent s) \<and> reader_ok (rpc s) (mtext (rmsg s)) (got s) (rout s)"

lemma queue_ok_prefix: "queue_ok oq gs ss \<Longrightarrow> prefix gs ss"
  by (auto simp: queue_ok_def split: option.splits)

lemma kmsg_text_payload [simp]: "msg_ok m \<Longrightarrow> kmsg_text (t, msg_text m) = mtext m"
  by (simp add: kmsg_text_def msg_text_def msg_ok_def text_ok_def)

lemma mtext_store [simp]: "mtext (store_msg x) = kmsg_text x"
  by (simp add: store_msg_def kmsg_text_def)

lemma take_type_first: "\<forall>x \<in> set q. fst x = t \<Longrightarrow> take_type t q = (case q of [] \<Rightarrow> None | x # r \<Rightarrow> Some (x, r))"
  by (cases q) auto

lemma text_ok_c_str: "text_ok b \<Longrightarrow> \<exists>t. c_str b = Some t"
  by (auto simp: text_ok_def dest: terminated_c_str)

lemma read_text_ok:
  assumes "text_ok buf"
  shows "\<exists>b rest. read_message 20 buf inp = Some (b, rest) \<and> text_ok b"
proof -
  from assms have t: "terminated buf" "length buf = 20" by (auto simp: text_ok_def)
  from read_message_defined [of inp buf 20] terminated_nul [OF t(1)] obtain b rest where
    r: "read_message 20 buf inp = Some (b, rest)" by blast
  with read_message_terminated [of 20 inp buf b rest] read_message_length [of 20 buf inp b rest] t show ?thesis
    by (auto simp: text_ok_def)
qed

text \<open>One action of the writer.\<close>

lemma mq_send_ok:
  assumes "msgsnd cap m oq = Succeeds oq'" and "msg_ok m" and "queue_ok oq gs ss"
  shows "queue_ok oq' gs (ss @ [mtext m]) \<and> oq \<noteq> None \<and> oq' \<noteq> None"
  using assms by (auto simp: msgsnd_def queue_ok_def msg_ok_def split: option.splits if_splits)

lemma mq_writer_inv:
  assumes inv: "mq_inv s" and st: "writer_step cap s = Some t"
  shows "mq_inv t"
proof (cases "wpc s")
  case W_get
  from inv have "text_ok (mtext (wmsg s))" by (simp add: mq_inv_def msg_ok_def)
  from read_text_ok [OF this, of "winp s"] obtain b rest where
    "read_message 20 (mtext (wmsg s)) (winp s) = Some (b, rest)" "text_ok b" by blast
  with W_get inv st show ?thesis
    by (auto simp: writer_step_def mq_inv_def msg_ok_def writer_ok_def)
next
  case W_send
  show ?thesis
  proof (cases "msgsnd cap (wmsg s) (queue s)")
    case Fails
    with W_send inv st show ?thesis by (auto simp: writer_step_def mq_inv_def writer_ok_def)
  next
    case (Succeeds q)
    with W_send st have t: "t = s\<lparr>queue := q, sent := sent s @ [mtext (wmsg s)], wpc := W_show\<rparr>"
      by (simp add: writer_step_def)
    from mq_send_ok [OF Succeeds] inv have "queue_ok q (got s) (sent s @ [mtext (wmsg s)])" "queue s \<noteq> None" "q \<noteq> None"
      by (auto simp: mq_inv_def)
    with W_send inv t show ?thesis by (auto simp: mq_inv_def writer_ok_def)
  qed (use W_send st in \<open>simp add: writer_step_def\<close>)
next
  case W_show
  from inv obtain u where "c_str (mtext (wmsg s)) = Some u"
    using text_ok_c_str by (auto simp: mq_inv_def msg_ok_def)
  with W_show inv st show ?thesis
    by (cases "is_end (mtext (wmsg s))") (auto simp: writer_step_def mq_inv_def writer_ok_def)
qed (use st in \<open>simp_all add: writer_step_def\<close>)

text \<open>One action of the reader.\<close>

lemma mq_reader_inv:
  assumes inv: "mq_inv s" and st: "reader_step s = Some t"
  shows "mq_inv t"
proof (cases "rpc s")
  case R_recv
  with inv obtain q where q: "queue s = Some q" "\<forall>x \<in> set q. fst x = 1" "got s @ map kmsg_text q = sent s"
    by (auto simp: mq_inv_def queue_ok_def split: option.splits)
  with R_recv st obtain x r where x: "q = x # r"
      "t = s\<lparr>rmsg := store_msg x, queue := Some r, got := got s @ [kmsg_text x], rpc := R_show\<rparr>"
    by (cases q) (auto simp: reader_step_def msgrcv_def)
  with R_recv inv q show ?thesis by (auto simp: mq_inv_def queue_ok_def)
next
  case R_show
  with inv obtain hs where hs: "got s = hs @ [mtext (rmsg s)]" "no_end hs" "rout s = shown hs"
    by (auto simp: mq_inv_def)
  from inv have q: "queue_ok (queue s) (got s) (sent s)" by (simp add: mq_inv_def)
  from queue_ok_prefix [OF q] q have "set (got s) \<subseteq> set (sent s)" "\<forall>b \<in> set (sent s). text_ok b"
    by (auto simp: queue_ok_def dest: set_mono_prefix)
  with hs(1) have "text_ok (mtext (rmsg s))" by auto
  with text_ok_c_str obtain u where "c_str (mtext (rmsg s)) = Some u" by blast
  with R_show inv st hs show ?thesis
    by (cases "is_end (mtext (rmsg s))") (auto simp: reader_step_def mq_inv_def shown_def no_end_def)
next
  case R_remove
  from inv have q: "queue_ok (queue s) (got s) (sent s)" by (simp add: mq_inv_def)
  then have "queue_ok None (got s) (sent s)" using queue_ok_prefix [OF q] by (simp add: queue_ok_def)
  with R_remove inv st show ?thesis by (auto simp: reader_step_def mq_inv_def)
qed (use st in \<open>simp_all add: reader_step_def\<close>)



lemma mq_start_inv: "length bw = 8 \<Longrightarrow> mq_inv (mq_start bw br inp)"
  by (simp add: mq_inv_def mq_start_def msg_ok_def text_ok_def zero_msg_def queue_ok_def create_queue_def
      writer_ok_def no_end_def shown_def terminated_def)

text \<open>The eight bytes behind the writer's \<open>msg\<close>, whatever they are.\<close>

definition eight :: "cbuf \<Rightarrow> cbuf" where
  "eight b = take 8 (b @ replicate 8 NUL)"



section \<open>Properties\<close>


section \<open>Every message arrives\<close>

text \<open>
  Without interrupts and with an input that contains a line starting with 0, \<open>all\<close> are the
  messages that will be sent. How far the writer has come:
\<close>

fun writer_at :: "cbuf list \<Rightarrow> mq_writer \<Rightarrow> cbuf \<Rightarrow> char list \<Rightarrow> cbuf list \<Rightarrow> bool" where
  "writer_at all W_get b inp ss \<longleftrightarrow> ss @ typed 20 b inp = all \<and> finished (typed 20 b inp)"
| "writer_at all W_send b inp ss \<longleftrightarrow>
     (if is_end b then ss @ [b] = all else ss @ b # typed 20 b inp = all \<and> finished (typed 20 b inp))"
| "writer_at all W_show b inp ss \<longleftrightarrow>
     (if is_end b then ss = all else ss @ typed 20 b inp = all \<and> finished (typed 20 b inp))"
| "writer_at all W_done b inp ss \<longleftrightarrow> ss = all"
| "writer_at all W_undefined b inp ss \<longleftrightarrow> False"

definition mq_live :: "cbuf list \<Rightarrow> mq_state \<Rightarrow> bool" where
  "mq_live all s \<longleftrightarrow>
     mq_inv s \<and> finished all \<and> no_end (butlast all) \<and> writer_at all (wpc s) (mtext (wmsg s)) (winp s) (sent s)"

lemma no_end_prefix: "no_end (butlast all) \<Longrightarrow> ss @ r = all \<Longrightarrow> r \<noteq> [] \<Longrightarrow> no_end ss"
  by (auto simp: no_end_def butlast_append)

text \<open>While there is something left to send, the reader has not removed the queue.\<close>

lemma mq_live_queue:
  assumes "mq_live all s" and "wpc s = W_get \<or> wpc s = W_send"
  shows "\<exists>q. queue s = Some q"
proof (rule ccontr)
  assume "\<not> ?thesis"
  then have none: "queue s = None" by (cases "queue s") auto
  from assms(1) have inv: "mq_inv s" by (simp add: mq_live_def)
  with none obtain hs c where g: "got s = hs @ [c]" "is_end c" "prefix (got s) (sent s)"
    by (auto simp: mq_inv_def queue_ok_def)
  obtain r where "sent s @ r = all" "r \<noteq> []"
    using assms by (auto simp: mq_live_def finished_def split: if_splits)
  with assms(1) no_end_prefix have "no_end (sent s)" by (auto simp: mq_live_def)
  with g show False by (auto simp: no_end_def prefix_def)
qed

fun writer_work :: "mq_writer \<Rightarrow> cbuf \<Rightarrow> char list \<Rightarrow> nat" where
  "writer_work W_get b inp = 3 * length (typed 20 b inp)"
| "writer_work W_send b inp = 2 + (if is_end b then 0 else 3 * length (typed 20 b inp))"
| "writer_work W_show b inp = 1 + (if is_end b then 0 else 3 * length (typed 20 b inp))"
| "writer_work _ b inp = 0"

fun reader_work :: "mq_reader \<Rightarrow> nat \<Rightarrow> nat" where
  "reader_work R_recv p = 2 * p + 3" | "reader_work R_show p = 2 * p + 4" | "reader_work R_remove p = 1"
| "reader_work _ p = 0"

definition mq_work :: "cbuf list \<Rightarrow> mq_state \<Rightarrow> nat" where
  "mq_work all s =
     writer_work (wpc s) (mtext (wmsg s)) (winp s) + reader_work (rpc s) (length all - length (got s))"

lemma mq_live_writer:
  assumes live: "mq_live all s" and st: "writer_step cap s = Some t"
  shows "mq_live all t \<and> mq_work all t < mq_work all s"
proof -
  from live have inv: "mq_inv s" by (simp add: mq_live_def)
  note inv' = mq_writer_inv [OF inv st]
  show ?thesis
  proof (cases "wpc s")
    case W_get
    with live typed_step [of 20 "mtext (wmsg s)" "winp s"] obtain b rest where
      r: "read_message 20 (mtext (wmsg s)) (winp s) = Some (b, rest)"
      and ty: "if is_end b then typed 20 (mtext (wmsg s)) (winp s) = [b]
        else typed 20 (mtext (wmsg s)) (winp s) = b # typed 20 b rest \<and> finished (typed 20 b rest)"
      by (auto simp: mq_live_def)
    with W_get st have "t = s\<lparr>wmsg := (wmsg s)\<lparr>mtext := b\<rparr>, winp := rest, wpc := W_send\<rparr>"
      by (simp add: writer_step_def)
    with W_get ty live inv' show ?thesis by (auto simp: mq_live_def mq_work_def split: if_splits)
  next
    case W_send
    from mq_live_queue [OF live] W_send obtain q where q: "queue s = Some q" by blast
    from inv have "mtype (wmsg s) = 1" by (simp add: mq_inv_def msg_ok_def)
    with W_send q st obtain oq where "t = s\<lparr>queue := oq, sent := sent s @ [mtext (wmsg s)], wpc := W_show\<rparr>"
      by (auto simp: writer_step_def msgsnd_def split: if_splits)
    with W_send live inv' show ?thesis by (auto simp: mq_live_def mq_work_def split: if_splits)
  next
    case W_show
    with st inv' obtain u where
      "t = s\<lparr>wout := wout s @ [u], wpc := (if is_end (mtext (wmsg s)) then W_done else W_get)\<rparr>"
      by (auto simp: writer_step_def mq_inv_def writer_ok_def split: option.splits)
    with W_show live inv' show ?thesis
      by (cases "is_end (mtext (wmsg s))") (auto simp: mq_live_def mq_work_def)
  qed (use st in \<open>simp_all add: writer_step_def\<close>)
qed

lemma mq_live_sent: "mq_live all s \<Longrightarrow> length (sent s) \<le> length all"
  by (cases "wpc s") (auto simp: mq_live_def split: if_splits)

lemma mq_live_reader:
  assumes live: "mq_live all s" and st: "reader_step s = Some t"
  shows "mq_live all t \<and> mq_work all t < mq_work all s"
proof -
  from live have inv: "mq_inv s" by (simp add: mq_live_def)
  note inv' = mq_reader_inv [OF inv st]
  have same: "wpc t = wpc s \<and> wmsg t = wmsg s \<and> winp t = winp s \<and> sent t = sent s"
    using st by (auto simp: reader_step_def split: mq_reader.splits syscall.splits prod.splits option.splits)
  have live': "mq_live all t" using live inv' same by (simp add: mq_live_def)
  have "prefix (got t) (sent t)" using inv' by (auto simp: mq_inv_def intro: queue_ok_prefix)
  with mq_live_sent [OF live'] have len: "length (got t) \<le> length all" by (auto dest: prefix_length_le)
  have "reader_work (rpc t) (length all - length (got t)) < reader_work (rpc s) (length all - length (got s))"
  proof (cases "rpc s")
    case R_recv
    with inv have "queue s \<noteq> None" by (auto simp: mq_inv_def)
    with R_recv st have "rpc t = R_show" "length (got t) = Suc (length (got s))"
      by (auto simp: reader_step_def msgrcv_def split: option.splits)
    with R_recv len show ?thesis by simp
  next
    case R_show
    with st inv' show ?thesis by (auto simp: reader_step_def mq_inv_def split: option.splits if_splits)
  qed (use st in \<open>auto simp: reader_step_def\<close>)
  with live' same show ?thesis by (simp add: mq_work_def)
qed

lemma mq_stuck:
  assumes live: "mq_live all s" and "0 < cap" and stuck: "\<And>a. mq_step False cap a s = None"
  shows "wpc s = W_done \<and> rpc s = R_done"
proof -
  from live have inv: "mq_inv s" by (simp add: mq_live_def)
  from stuck [of Writer] stuck [of Reader] have w: "writer_step cap s = None" and r: "reader_step s = None" by simp_all
  have writer: "wpc s = W_done \<or> (\<exists>q. wpc s = W_send \<and> queue s = Some q \<and> q \<noteq> [])"
  proof (cases "wpc s")
    case W_send
    with mq_live_queue [OF live] obtain q where "queue s = Some q" by blast
    with W_send w \<open>0 < cap\<close> show ?thesis by (auto simp: writer_step_def msgsnd_def split: if_splits)
  qed (use w live in \<open>auto simp: writer_step_def mq_live_def split: option.splits\<close>)
  show ?thesis
  proof (cases "rpc s")
    case R_recv
    with inv obtain q where q: "queue s = Some q" "\<forall>x \<in> set q. fst x = 1" "got s @ map kmsg_text q = sent s" "no_end (got s)"
      by (auto simp: mq_inv_def queue_ok_def split: option.splits)
    with R_recv r have "q = []" by (cases q) (auto simp: reader_step_def msgrcv_def)
    with q writer have "wpc s = W_done" "no_end (sent s)" by auto
    with live show ?thesis by (auto simp: mq_live_def finished_def no_end_def)
  next
    case R_done
    with inv writer show ?thesis by (auto simp: mq_inv_def)
  qed (use r inv in \<open>auto simp: reader_step_def mq_inv_def split: option.splits\<close>)
qed

text \<open>The capacity is positive and the typed messages end with 0: the interpretation fixes such parameters.\<close>

definition mq_input :: "char list \<Rightarrow> char list" where
  "mq_input inp = (if finished (typed 20 (replicate 20 NUL) inp) then inp else ''0'')"

definition mq_all :: "char list \<Rightarrow> cbuf list" where
  "mq_all inp = typed 20 (replicate 20 NUL) inp"

lemma mq_input_finished: "finished (mq_all (mq_input inp))"
proof -
  have "mq_all ''0'' = [CHR ''0'' # replicate 19 NUL]" by code_simp
  then show ?thesis by (simp add: mq_input_def mq_all_def finished_def)
qed

lemma mq_start_live: "finished (mq_all inp) \<Longrightarrow> length bw = 8 \<Longrightarrow> mq_live (mq_all inp) (mq_start bw br inp)"
  using mq_start_inv [of bw br inp] typed_only_last [of 20 "replicate 20 NUL" inp]
  by (simp add: mq_live_def mq_all_def no_end_def) (simp add: mq_start_def zero_msg_def)

interpretation mql: terminating_system "mq_step False (Suc cap)" "mq_start (eight bw) br (mq_input inp)"
  "mq_live (mq_all (mq_input inp))" "mq_work (mq_all (mq_input inp))" "\<lambda>s. wpc s = W_done \<and> rpc s = R_done"
  for cap bw br inp
proof unfold_locales
  show "mq_live (mq_all (mq_input inp)) (mq_start (eight bw) br (mq_input inp))"
    using mq_start_live mq_input_finished by (simp add: eight_def)
next
  fix s a t
  assume "mq_live (mq_all (mq_input inp)) s" "mq_step False (Suc cap) a s = Some t"
  then show "mq_live (mq_all (mq_input inp)) t" "mq_work (mq_all (mq_input inp)) t < mq_work (mq_all (mq_input inp)) s"
    using mq_live_writer [of _ s "Suc cap" t] mq_live_reader [of _ s t] by (cases a; simp)+
next
  fix s
  assume "mq_live (mq_all (mq_input inp)) s" and "\<And>a. mq_step False (Suc cap) a s = None"
  then show "wpc s = W_done \<and> rpc s = R_done" by (rule mq_stuck [OF _ zero_less_Suc])
qed

lemma mq_typed_shown:
  assumes "mq_live all s" and "wpc s = W_done" and "rpc s = R_done"
  shows "got s = all \<and> rout s = shown all"
proof -
  from assms obtain hs c where g: "got s = hs @ [c]" "is_end c" "rout s = shown (got s)" "prefix (got s) (sent s)" "sent s = all"
    by (auto simp: mq_live_def mq_inv_def queue_ok_def)
  then obtain r where r: "hs @ c # r = all" by (auto simp: prefix_def)
  have "r = []"
  proof (rule ccontr)
    assume "r \<noteq> []"
    with r assms(1) no_end_prefix [of all "hs @ [c]" r] have "no_end (hs @ [c])" by (auto simp: mq_live_def)
    with g(2) show False by (simp add: no_end_def)
  qed
  with g r show ?thesis by simp
qed

text \<open>
  C38. Every message arrives: if the writer's input has a line that starts with 0, then
  under every schedule and for every positive capacity of the queue both processes
  finish, the queue is removed, and the reader has printed exactly the messages typed up
  to and including that line, in order. No run is longer than five steps per message and
  three more.
\<close>

theorem mq_all_arrive:
  assumes "length bw = 8" and "0 < cap" and "finished (typed 20 (replicate 20 NUL) inp)"
    and "run (mq_step False cap) sch (mq_start bw br inp) = Some s" and "\<forall>a. mq_step False cap a s = None"
  shows "wpc s = W_done \<and> rpc s = R_done \<and> queue s = None \<and>
    rout s = map (\<lambda>b. the (c_str b)) (typed 20 (replicate 20 NUL) inp) \<and>
    length sch \<le> 5 * length (typed 20 (replicate 20 NUL) inp) + 3"
proof -
  obtain c where c: "cap = Suc c" using assms(2) by (cases cap) auto
  have i: "mq_input inp = inp" and b: "eight bw = bw" using assms(1,3) by (simp_all add: mq_input_def eight_def)
  note r = assms(4) [unfolded c]
  from mql.run_inv [where cap = c and bw = bw and br = br and inp = inp, unfolded i b, OF r] have live: "mq_live (mq_all inp) s" .
  from mql.maximal_final [where cap = c and bw = bw and br = br and inp = inp, unfolded i b, OF r] assms(5) c have fin: "wpc s = W_done" "rpc s = R_done" by auto
  from mql.run_bounded [where cap = c and bw = bw and br = br and inp = inp, unfolded i b, OF r] have "length sch \<le> mq_work (mq_all inp) (mq_start bw br inp)" .
  then have "length sch \<le> 5 * length (typed 20 (replicate 20 NUL) inp) + 3"
    by (simp add: mq_work_def mq_all_def mq_start_def zero_msg_def)
  moreover have "queue s = None" using live fin by (auto simp: mq_live_def mq_inv_def)
  ultimately show ?thesis using mq_typed_shown [OF live fin] fin by (simp add: shown_def mq_all_def)
qed

text \<open>
  Both processes touch memory they do not own. A message carries 32 bytes of text, but
  only 24 bytes of \<open>msg\<close> follow its type: sending reads the eight bytes behind the
  writer's \<open>msg\<close>, and receiving overwrites the eight bytes behind the reader's with them.
\<close>

theorem mq_overruns_msg:
  assumes "msg_ok m" and "msgsnd cap m (Some []) = Succeeds q" and "msgrcv 1 q = Succeeds (m', q')"
  shows "mtext m' = mtext m \<and> beyond m' = beyond m \<and> length (msg_text m) = 32 \<and>
    length (mtext m) + length (mpad m) = 24"
  using assms
  by (auto simp: msgsnd_def msgrcv_def store_msg_def msg_text_def msg_ok_def text_ok_def split: if_splits)

text \<open>
  An interrupted reader ends in two more steps and removes the queue, with whatever
  messages are still in it.
\<close>

lemma interrupted_reader_removes_queue:
  assumes "sigint_reader cap s = Some t" and "text_ok (mtext (rmsg s))"
  shows "\<exists>u v. reader_step t = Some u \<and> reader_step u = Some v \<and> rpc v = R_done \<and> queue v = None"
proof -
  let ?b = "strncpy (mtext (rmsg s)) ''0'' 1"
  from assms(2) have ne: "mtext (rmsg s) \<noteq> []" by (auto simp: text_ok_def)
  have b: "?b = CHR ''0'' # tl (mtext (rmsg s))" by (rule strncpy_zero [OF ne])
  then have e: "is_end ?b" by simp
  from b assms(2) have "terminated ?b" by (simp add: text_ok_def terminated_def)
  then obtain x where "c_str ?b = Some x" using terminated_c_str by blast
  moreover have "mtext (rmsg t) = ?b" "rpc t = R_show" using assms(1)
    by (auto simp: sigint_reader_def Let_def split: if_splits syscall.splits)
  ultimately show ?thesis using e by (simp add: reader_step_def)
qed

section \<open>A conversation\<close>

definition mq_talk :: "char list" where
  "mq_talk = ''hello'' @ [NEWLINE] @ ''0'' @ [NEWLINE]"

definition mq_schedule :: "mq_actor list" where
  "mq_schedule = [Writer, Writer, Reader, Writer, Reader, Writer, Writer, Writer, Reader, Reader, Reader]"

definition mq_end :: mq_state where
  "mq_end = the (run (mq_step False 1) mq_schedule (mq_start (replicate 8 NUL) [] mq_talk))"

lemma mq_end_run: "run (mq_step False 1) mq_schedule (mq_start (replicate 8 NUL) [] mq_talk) = Some mq_end"
  by code_simp


theorem mq_all_arrive_witness: "rout mq_end = [''hello'', ''0''] \<and> queue mq_end = None"
proof -
  have fin: "finished (typed 20 (replicate 20 NUL) mq_talk)" by code_simp
  have "wpc mq_end = W_done" "rpc mq_end = R_done" by code_simp+
  then have "\<forall>a. mq_step False 1 a mq_end = None"
    by (intro allI, case_tac a) (simp_all add: writer_step_def reader_step_def)
  from mq_all_arrive [OF _ _ fin mq_end_run this]
  have "rout mq_end = map (\<lambda>b. the (c_str b)) (typed 20 (replicate 20 NUL) mq_talk)" "queue mq_end = None" by simp_all
  moreover have "map (\<lambda>b. the (c_str b)) (typed 20 (replicate 20 NUL) mq_talk) = [''hello'', ''0'']" by code_simp
  ultimately show ?thesis by simp
qed

theorem mq_overruns_msg_witness:
  "\<exists>m'. msgrcv 1 (Some [(1, msg_text (zero_msg 1 ''NEIGHBOR''))]) = Succeeds (m', Some []) \<and> beyond m' = ''NEIGHBOR''"
proof -
  let ?m = "zero_msg 1 ''NEIGHBOR''"
  have m: "msg_ok ?m" by (simp add: msg_ok_def text_ok_def zero_msg_def terminated_def)
  have s: "msgsnd 1 ?m (Some []) = Succeeds (Some [(1, msg_text ?m)])" by (simp add: msgsnd_def zero_msg_def)
  have r: "msgrcv 1 (Some [(1, msg_text ?m)]) = Succeeds (store_msg (1, msg_text ?m), Some [])" by (simp add: msgrcv_def)
  from mq_overruns_msg [OF m s r] r show ?thesis by (simp add: zero_msg_def)
qed

end
