(* ===== verification/Cpp_Queue.thy ===== *)
theory Cpp_Queue
  imports Message_Queue Cin
begin

text \<open>
  \<^verbatim>\<open>cpp/ipc/message_passing/message_queue\<close>: the classes \<open>Queue\<close>, \<open>Write\<close> and \<open>Read\<close> of
  \<^verbatim>\<open>mqueue.hh\<close> and their programs, over the kernel's queue of theory \<open>Message_Queue\<close>. Other than in
  C a message has exactly the 20 bytes of its text, the text comes from \<open>std::cin.getline\<close>, no
  signal is handled, and the queue is removed by the destructor of \<open>Read\<close>.

  Both versions compute the same key, so a program of one version may meet a message of the
  other: a message that is longer than the receiver asks for stays in the queue, and \<open>msgrcv\<close> fails.
\<close>

section \<open>The classes\<close>

abbreviation (input) mq_buffer :: nat where "mq_buffer \<equiv> 20"

record q_message =
  qtype :: int
  qtext :: cbuf

record cq_state =
  cqueue :: mqueue
  cwpc :: mq_writer
  crpc :: mq_reader
  cwmsg :: q_message
  crmsg :: q_message
  cwinp :: istream
  cwout :: "string list"
  crout :: "string list"
  csent :: "cbuf list"
  cgot :: "cbuf list"

definition q_msgsnd :: "nat \<Rightarrow> nat \<Rightarrow> q_message \<Rightarrow> mqueue \<Rightarrow> mqueue syscall" where
  "q_msgsnd cap sz m oq =
     (case oq of
        None \<Rightarrow> Fails
      | Some q \<Rightarrow>
          if qtype m < 1 then Fails
          else if cap \<le> length q then Sleeps
          else Succeeds (Some (q @ [(qtype m, take sz (qtext m))])))"

definition q_msgrcv :: "nat \<Rightarrow> int \<Rightarrow> q_message \<Rightarrow> mqueue \<Rightarrow> (q_message \<times> mqueue) syscall" where
  "q_msgrcv sz t m oq =
     (case oq of
        None \<Rightarrow> Fails
      | Some q \<Rightarrow>
          (case take_type t q of
             None \<Rightarrow> Sleeps
           | Some (x, r) \<Rightarrow>
               if sz < length (snd x) then Fails
               else Succeeds (\<lparr>qtype = fst x, qtext = overwrite (snd x) (qtext m)\<rparr>, Some r)))"

text \<open>The method \<open>terminate\<close>.\<close>

definition q_terminate :: "q_message \<Rightarrow> bool" where
  "q_terminate m = is_end (qtext m)"

text \<open>\<open>Write::run\<close>, and \<open>Read::run\<close> followed by the destructor; the results of the calls are ignored.\<close>

definition write_run :: "nat \<Rightarrow> cq_state \<Rightarrow> cq_state option" where
  "write_run cap s =
     (case cwpc s of
        W_get \<Rightarrow>
          (case getline mq_buffer (qtext (cwmsg s)) (cwinp s) of
             (b, st) \<Rightarrow> Some (s\<lparr>cwmsg := (cwmsg s)\<lparr>qtext := b\<rparr>, cwinp := st, cwpc := W_send\<rparr>))
      | W_send \<Rightarrow>
          (case q_msgsnd cap mq_buffer (cwmsg s) (cqueue s) of
             Sleeps \<Rightarrow> None
           | Fails \<Rightarrow> Some (s\<lparr>cwpc := W_show\<rparr>)
           | Succeeds q \<Rightarrow> Some (s\<lparr>cqueue := q, csent := csent s @ [qtext (cwmsg s)], cwpc := W_show\<rparr>))
      | W_show \<Rightarrow>
          (case c_str (qtext (cwmsg s)) of
             None \<Rightarrow> Some (s\<lparr>cwpc := W_undefined\<rparr>)
           | Some t \<Rightarrow> Some (s\<lparr>cwout := cwout s @ [t], cwpc := (if \<not> q_terminate (cwmsg s) then W_get else W_done)\<rparr>))
      | _ \<Rightarrow> None)"

definition read_run :: "cq_state \<Rightarrow> cq_state option" where
  "read_run s =
     (case crpc s of
        R_recv \<Rightarrow>
          (case q_msgrcv mq_buffer 1 (crmsg s) (cqueue s) of
             Sleeps \<Rightarrow> None
           | Fails \<Rightarrow> Some (s\<lparr>crpc := R_show\<rparr>)
           | Succeeds (m, q) \<Rightarrow> Some (s\<lparr>crmsg := m, cqueue := q, cgot := cgot s @ [qtext m], crpc := R_show\<rparr>))
      | R_show \<Rightarrow>
          (case c_str (qtext (crmsg s)) of
             None \<Rightarrow> Some (s\<lparr>crpc := R_undefined\<rparr>)
           | Some t \<Rightarrow> Some (s\<lparr>crout := crout s @ [t], crpc := (if \<not> q_terminate (crmsg s) then R_recv else R_remove)\<rparr>))
      | R_remove \<Rightarrow> Some (s\<lparr>cqueue := None, crpc := R_done\<rparr>)
      | _ \<Rightarrow> None)"

datatype cq_actor = Write | Read

fun cq_step :: "nat \<Rightarrow> cq_actor \<Rightarrow> cq_state \<Rightarrow> cq_state option" where
  "cq_step cap Write s = write_run cap s"
| "cq_step cap Read s = read_run s"

text \<open>The constructors: \<open>msgget\<close> finds or makes the queue, \<open>msg\<close> is zeroed, and its type is set.\<close>

definition queue_construct :: "int \<Rightarrow> mqueue \<Rightarrow> q_message \<times> mqueue" where
  "queue_construct t oq = (\<lparr>qtype = t, qtext = replicate 20 NUL\<rparr>, create_queue oq)"

definition cq_start :: "istream \<Rightarrow> cq_state" where
  "cq_start inp =
     (case queue_construct 1 None of
        (w, q) \<Rightarrow>
          (case queue_construct 0 q of
             (r, q') \<Rightarrow>
               \<lparr>cqueue = q', cwpc = W_get, crpc = R_recv, cwmsg = w, crmsg = r, cwinp = inp,
                cwout = [], crout = [], csent = [], cgot = []\<rparr>))"

section \<open>The invariant\<close>

definition cq_inv :: "cq_state \<Rightarrow> bool" where
  "cq_inv s \<longleftrightarrow>
     qtype (cwmsg s) = 1 \<and> text_ok (qtext (cwmsg s)) \<and> text_ok (qtext (crmsg s)) \<and> (cqueue s = None \<longleftrightarrow> crpc s = R_done) \<and>
     (\<forall>q. cqueue s = Some q \<longrightarrow> (\<forall>x \<in> set q. length (snd x) = 20)) \<and> queue_ok (cqueue s) (cgot s) (csent s) \<and>
     cwpc s \<noteq> W_undefined \<and> reader_ok (crpc s) (qtext (crmsg s)) (cgot s) (crout s)"

lemma getline_text_ok: "text_ok b \<Longrightarrow> getline 20 b st = (b', st') \<Longrightarrow> text_ok b'"
  using getline_length [of 20 b st b' st'] getline_terminated [of b 20 st b' st'] by (auto simp: text_ok_def)

lemma kmsg_text_full: "length (snd x) = 20 \<Longrightarrow> kmsg_text x = snd x"
  by (simp add: kmsg_text_def)

lemma cq_strings:
  assumes "cq_inv s"
  shows "\<exists>u. c_str (qtext (cwmsg s)) = Some u" "\<exists>u. c_str (qtext (crmsg s)) = Some u"
  using assms by (simp_all add: cq_inv_def text_ok_c_str)

lemma cq_writer_inv:
  assumes inv: "cq_inv s" and st: "write_run cap s = Some t"
  shows "cq_inv t"
proof (cases "cwpc s")
  case W_get
  obtain b st' where g: "getline 20 (qtext (cwmsg s)) (cwinp s) = (b, st')" by fastforce
  from inv getline_text_ok [OF _ g] have "text_ok b" by (simp add: cq_inv_def)
  with W_get inv st g show ?thesis by (auto simp: write_run_def cq_inv_def)
next
  case W_send
  from inv have l: "length (qtext (cwmsg s)) = 20" by (simp add: cq_inv_def text_ok_def)
  show ?thesis
  proof (cases "q_msgsnd cap 20 (cwmsg s) (cqueue s)")
    case Fails
    with W_send inv st show ?thesis by (auto simp: write_run_def cq_inv_def)
  next
    case (Succeeds oq)
    then obtain q where q: "cqueue s = Some q" "oq = Some (q @ [(qtype (cwmsg s), qtext (cwmsg s))])"
      using l by (auto simp: q_msgsnd_def split: option.splits if_splits)
    from Succeeds W_send st have t: "t = s\<lparr>cqueue := oq, csent := csent s @ [qtext (cwmsg s)], cwpc := W_show\<rparr>"
      by (simp add: write_run_def)
    have "queue_ok oq (cgot s) (csent s @ [qtext (cwmsg s)])"
      using inv q l by (auto simp: cq_inv_def queue_ok_def kmsg_text_def)
    with inv t q l show ?thesis by (auto simp: cq_inv_def)
  qed (use W_send st in \<open>simp add: write_run_def\<close>)
next
  case W_show
  from cq_strings(1) [OF inv] obtain u where "c_str (qtext (cwmsg s)) = Some u" by blast
  with W_show inv st show ?thesis by (cases "q_terminate (cwmsg s)") (auto simp: write_run_def cq_inv_def)
qed (use st in \<open>simp_all add: write_run_def\<close>)

text \<open>What a receive does while the queue is there.\<close>

lemma cq_recv:
  assumes inv: "cq_inv s" and pc: "crpc s = R_recv" and st: "read_run s = Some t"
  obtains x r where "cqueue s = Some (x # r)" "length (snd x) = 20"
    "t = s\<lparr>crmsg := \<lparr>qtype = 1, qtext = snd x\<rparr>, cqueue := Some r, cgot := cgot s @ [snd x], crpc := R_show\<rparr>"
proof -
  from inv pc obtain q where q: "cqueue s = Some q" "\<forall>x \<in> set q. fst x = 1" "\<forall>x \<in> set q. length (snd x) = 20"
    by (auto simp: cq_inv_def queue_ok_def split: option.splits)
  have len: "length (qtext (crmsg s)) = 20" using inv by (simp add: cq_inv_def text_ok_def)
  from q pc st take_type_first [of q 1] obtain x r where x: "q = x # r"
    by (cases q) (auto simp: read_run_def q_msgrcv_def)
  with q len have "overwrite (snd x) (qtext (crmsg s)) = snd x" by (simp add: overwrite_def)
  with q x pc st take_type_first [of q 1] that [of x r] show thesis by (simp add: read_run_def q_msgrcv_def)
qed

lemma cq_reader_inv:
  assumes inv: "cq_inv s" and st: "read_run s = Some t"
  shows "cq_inv t"
proof (cases "crpc s")
  case R_recv
  from cq_recv [OF inv R_recv st] obtain x r where x: "cqueue s = Some (x # r)" "length (snd x) = 20"
    "t = s\<lparr>crmsg := \<lparr>qtype = 1, qtext = snd x\<rparr>, cqueue := Some r, cgot := cgot s @ [snd x], crpc := R_show\<rparr>" .
  with inv have q: "queue_ok (Some r) (cgot s @ [snd x]) (csent s)" by (auto simp: cq_inv_def queue_ok_def kmsg_text_full)
  from queue_ok_prefix [OF q] q have "prefix (cgot s @ [snd x]) (csent s)" "\<forall>b \<in> set (csent s). text_ok b"
    by (simp_all add: queue_ok_def)
  then have "text_ok (snd x)" by (auto dest: set_mono_prefix)
  with q inv x R_recv show ?thesis by (auto simp: cq_inv_def)
next
  case R_show
  with inv obtain hs where hs: "cgot s = hs @ [qtext (crmsg s)]" "no_end hs" "crout s = shown hs" by (auto simp: cq_inv_def)
  from cq_strings(2) [OF inv] obtain u where "c_str (qtext (crmsg s)) = Some u" by blast
  with R_show inv st hs show ?thesis
    by (cases "is_end (qtext (crmsg s))") (auto simp: read_run_def cq_inv_def shown_def no_end_def q_terminate_def)
next
  case R_remove
  from inv have q: "queue_ok (cqueue s) (cgot s) (csent s)" by (simp add: cq_inv_def)
  then have "queue_ok None (cgot s) (csent s)" using queue_ok_prefix [OF q] by (simp add: queue_ok_def)
  with R_remove inv st show ?thesis by (auto simp: read_run_def cq_inv_def)
qed (use st in \<open>simp_all add: read_run_def\<close>)

lemma cq_step_inv: "cq_inv s \<Longrightarrow> cq_step cap a s = Some t \<Longrightarrow> cq_inv t"
  by (cases a) (auto intro: cq_writer_inv cq_reader_inv)

lemma cq_start_inv: "cq_inv (cq_start inp)"
  by (simp add: cq_inv_def cq_start_def queue_construct_def text_ok_def queue_ok_def create_queue_def no_end_def shown_def terminated_def)

interpretation cq: invariant_system "cq_step cap" "cq_start inp" cq_inv for cap inp
  by unfold_locales (auto intro: cq_step_inv cq_start_inv)

text \<open>The writer is about to deal with, or has dealt with, the lines \<open>ws\<close>.\<close>

definition wrote :: "string list \<Rightarrow> cbuf list \<Rightarrow> istream \<Rightarrow> bool" where
  "wrote ws bs st \<longleftrightarrow> (if bs \<noteq> [] \<and> is_end (last bs) then shown bs = ws else pending zero_line 20 ws (shown bs) st)"

fun cq_told :: "string list \<Rightarrow> mq_writer \<Rightarrow> cbuf \<Rightarrow> cbuf list \<Rightarrow> istream \<Rightarrow> bool" where
  "cq_told ws W_get b ss st \<longleftrightarrow> no_end ss \<and> pending zero_line 20 ws (shown ss) st"
| "cq_told ws W_send b ss st \<longleftrightarrow> no_end ss \<and> wrote ws (ss @ [b]) st"
| "cq_told ws W_show b ss st \<longleftrightarrow> (\<exists>rs. ss = rs @ [b] \<and> no_end rs) \<and> wrote ws ss st"
| "cq_told ws W_done b ss st \<longleftrightarrow> (\<exists>rs c. ss = rs @ [c] \<and> no_end rs \<and> is_end c) \<and> shown ss = ws"
| "cq_told ws W_undefined b ss st \<longleftrightarrow> False"

definition cq_live :: "string list \<Rightarrow> cq_state \<Rightarrow> bool" where
  "cq_live ws s \<longleftrightarrow> cq_inv s \<and> cq_told ws (cwpc s) (qtext (cwmsg s)) (csent s) (cwinp s)"

text \<open>As long as no closing message has been sent the reader has not removed the queue.\<close>

lemma cq_queue:
  assumes "cq_inv s" and "no_end (csent s)"
  shows "\<exists>q. cqueue s = Some q"
proof (rule ccontr)
  assume "\<not> ?thesis"
  with assms(1) obtain hs c where "cgot s = hs @ [c]" "is_end c" "prefix (cgot s) (csent s)"
    by (auto simp: cq_inv_def queue_ok_def)
  with assms(2) show False by (auto simp: no_end_def prefix_def)
qed

lemma cq_send:
  assumes inv: "cq_inv s" and ne: "no_end (csent s)" and pc: "cwpc s = W_send" and st: "write_run cap s = Some t"
  obtains oq where "t = s\<lparr>cqueue := oq, csent := csent s @ [qtext (cwmsg s)], cwpc := W_show\<rparr>"
proof -
  from cq_queue [OF inv ne] obtain q where "cqueue s = Some q" by blast
  moreover have "qtype (cwmsg s) = 1" using inv by (simp add: cq_inv_def)
  ultimately show thesis using pc st that by (auto simp: write_run_def q_msgsnd_def split: if_splits)
qed

fun cq_writer_work :: "mq_writer \<Rightarrow> cbuf \<Rightarrow> istream \<Rightarrow> nat" where
  "cq_writer_work W_get b st = 3 * length (cin_lines zero_line 20 st)"
| "cq_writer_work W_send b st = 2 + (if is_end b then 0 else 3 * length (cin_lines zero_line 20 st))"
| "cq_writer_work W_show b st = 1 + (if is_end b then 0 else 3 * length (cin_lines zero_line 20 st))"
| "cq_writer_work _ b st = 0"

definition cq_work :: "string list \<Rightarrow> cq_state \<Rightarrow> nat" where
  "cq_work ws s = cq_writer_work (cwpc s) (qtext (cwmsg s)) (cwinp s) + reader_work (crpc s) (length ws - length (cgot s))"

lemma wrote_prefix: "wrote ws bs st \<Longrightarrow> prefix (shown bs) ws"
  by (auto simp: wrote_def pending_prefix split: if_splits)

lemma cq_told_prefix: "cq_told ws pc b ss st \<Longrightarrow> prefix (shown ss) ws"
  by (cases pc) (auto simp: shown_def dest!: wrote_prefix pending_prefix dest: append_prefixD)

lemma cq_live_writer:
  assumes live: "cq_live ws s" and st: "write_run cap s = Some t"
  shows "cq_live ws t \<and> cq_work ws t < cq_work ws s"
proof -
  from live have inv: "cq_inv s" by (simp add: cq_live_def)
  note inv' = cq_writer_inv [OF inv st]
  show ?thesis
  proof (cases "cwpc s")
    case W_get
    obtain b st' where g: "getline 20 (qtext (cwmsg s)) (cwinp s) = (b, st')" by fastforce
    with W_get st have t: "t = s\<lparr>cwmsg := (cwmsg s)\<lparr>qtext := b\<rparr>, cwinp := st', cwpc := W_send\<rparr>"
      by (simp add: write_run_def)
    from W_get live have p: "pending zero_line 20 ws (shown (csent s)) (cwinp s)" and n: "no_end (csent s)"
      by (simp_all add: cq_live_def)
    show ?thesis
      by (rule pending_next [OF p g])
        (use W_get t inv' n in \<open>auto simp: cq_live_def cq_work_def wrote_def shown_def overwrite_is_end split: if_splits\<close>)
  next
    case W_send
    with live have n: "no_end (csent s)" and w: "wrote ws (csent s @ [qtext (cwmsg s)]) (cwinp s)" by (simp_all add: cq_live_def)
    from cq_send [OF inv n W_send st] obtain oq where
      "t = s\<lparr>cqueue := oq, csent := csent s @ [qtext (cwmsg s)], cwpc := W_show\<rparr>" .
    with W_send n w inv' show ?thesis by (auto simp: cq_live_def cq_work_def)
  next
    case W_show
    with st inv' obtain u where
      t: "t = s\<lparr>cwout := cwout s @ [u], cwpc := (if \<not> is_end (qtext (cwmsg s)) then W_get else W_done)\<rparr>"
      by (auto simp: write_run_def cq_inv_def q_terminate_def split: option.splits)
    from W_show live obtain rs where "csent s = rs @ [qtext (cwmsg s)]" "no_end rs" "wrote ws (csent s) (cwinp s)"
      by (auto simp: cq_live_def)
    with W_show t inv' show ?thesis
      by (cases "is_end (qtext (cwmsg s))") (auto simp: cq_live_def cq_work_def wrote_def no_end_def)
  qed (use st in \<open>simp_all add: write_run_def\<close>)
qed

lemma cq_live_reader:
  assumes live: "cq_live ws s" and st: "read_run s = Some t"
  shows "cq_live ws t \<and> cq_work ws t < cq_work ws s"
proof -
  from live have inv: "cq_inv s" by (simp add: cq_live_def)
  note inv' = cq_reader_inv [OF inv st]
  have same: "cwpc t = cwpc s \<and> cwmsg t = cwmsg s \<and> cwinp t = cwinp s \<and> csent t = csent s"
    using st by (auto simp: read_run_def split: mq_reader.splits syscall.splits prod.splits option.splits)
  have live': "cq_live ws t" using live inv' same by (simp add: cq_live_def)
  from live' have "prefix (shown (csent t)) ws" by (auto simp: cq_live_def intro: cq_told_prefix)
  moreover have "prefix (cgot t) (csent t)" using inv' by (auto simp: cq_inv_def intro: queue_ok_prefix)
  ultimately have len: "length (cgot t) \<le> length ws" by (auto dest!: prefix_length_le simp: shown_def)
  have "reader_work (crpc t) (length ws - length (cgot t)) < reader_work (crpc s) (length ws - length (cgot s))"
  proof (cases "crpc s")
    case R_recv
    have "crpc t = R_show \<and> length (cgot t) = Suc (length (cgot s))"
      by (rule cq_recv [OF inv R_recv st]) simp
    with R_recv len show ?thesis by simp
  next
    case R_show
    with st inv' show ?thesis by (auto simp: read_run_def cq_inv_def split: option.splits if_splits)
  qed (use st in \<open>auto simp: read_run_def\<close>)
  with live' same show ?thesis by (simp add: cq_work_def)
qed

lemma cq_step_live: "cq_live ws s \<Longrightarrow> cq_step cap a s = Some t \<Longrightarrow> cq_live ws t \<and> cq_work ws t < cq_work ws s"
  using cq_live_writer [of ws s cap t] cq_live_reader [of ws s t] by (cases a) simp_all

text \<open>When nobody can move.\<close>

lemma cq_blocked:
  assumes inv: "cq_inv s" and "0 < cap" and "write_run cap s = None" and "read_run s = None"
  shows "cwpc s = W_done \<and> (crpc s = R_done \<or> crpc s = R_recv \<and> cqueue s = Some [])"
proof -
  have r: "crpc s = R_done \<or> crpc s = R_recv \<and> cqueue s = Some []"
  proof (cases "crpc s")
    case R_recv
    with inv obtain q where q: "cqueue s = Some q" "\<forall>x \<in> set q. fst x = 1" by (auto simp: cq_inv_def queue_ok_def split: option.splits)
    with R_recv assms(4) take_type_first [of q 1] show ?thesis
      by (cases q) (auto simp: read_run_def q_msgrcv_def split: if_splits)
  next
    case R_show
    from cq_strings(2) [OF inv] obtain u where "c_str (qtext (crmsg s)) = Some u" by blast
    with R_show assms(4) show ?thesis by (simp add: read_run_def)
  next
    case R_undefined
    with inv show ?thesis by (simp add: cq_inv_def)
  qed (use assms(4) in \<open>simp_all add: read_run_def\<close>)
  have "cwpc s = W_done"
  proof (cases "cwpc s")
    case W_get
    with assms(3) show ?thesis by (simp add: write_run_def split: prod.splits)
  next
    case W_send
    with r assms(2,3) inv show ?thesis by (auto simp: write_run_def q_msgsnd_def cq_inv_def split: option.splits if_splits)
  next
    case W_show
    from cq_strings(1) [OF inv] obtain u where "c_str (qtext (cwmsg s)) = Some u" by blast
    with W_show assms(3) show ?thesis by (simp add: write_run_def)
  next
    case W_undefined
    with inv show ?thesis by (simp add: cq_inv_def)
  qed
  with r show ?thesis by simp
qed

lemma cq_done:
  assumes live: "cq_live ws s" and "0 < cap" and "write_run cap s = None" and "read_run s = None"
  shows "cwpc s = W_done \<and> crpc s = R_done"
proof -
  from live have inv: "cq_inv s" by (simp add: cq_live_def)
  from cq_blocked [OF inv assms(2-4)] have w: "cwpc s = W_done" and r: "crpc s = R_done \<or> crpc s = R_recv \<and> cqueue s = Some []"
    by simp_all
  from w live obtain rs c where "csent s = rs @ [c]" "is_end c" by (auto simp: cq_live_def)
  moreover have "cgot s = csent s \<and> no_end (cgot s)" if "crpc s = R_recv" "cqueue s = Some []"
    using that inv by (auto simp: cq_inv_def queue_ok_def)
  ultimately have "\<not> (crpc s = R_recv \<and> cqueue s = Some [])" by (auto simp: no_end_def)
  with w r show ?thesis by blast
qed

lemma cq_start_live: "stops zero_line 20 inp \<Longrightarrow> cq_live (map until_nul (cin_lines zero_line 20 inp)) (cq_start inp)"
  using cq_start_inv [of inp] pending_start [of zero_line 20 inp]
  by (simp add: cq_live_def) (simp add: cq_start_def queue_construct_def shown_def no_end_def)

lemma cq_terminating:
  assumes "stops zero_line 20 inp" and "0 < cap"
  shows "terminating_system (cq_step cap) (cq_start inp) (cq_live (map until_nul (cin_lines zero_line 20 inp)))
    (cq_work (map until_nul (cin_lines zero_line 20 inp))) (\<lambda>s. cwpc s = W_done \<and> crpc s = R_done)"
proof
  fix s
  assume live: "cq_live (map until_nul (cin_lines zero_line 20 inp)) s" and stuck: "\<And>a. cq_step cap a s = None"
  from stuck [of Write] stuck [of Read] show "cwpc s = W_done \<and> crpc s = R_done"
    by (intro cq_done [OF live assms(2)]) simp_all
qed (use assms cq_start_live cq_step_live in blast)+

section \<open>Properties\<close>

text \<open>
  The C++ queue delivers in order, for every schedule, every capacity and every input: no
  program runs over the end of a string, the messages received are a prefix of those sent, the
  reader prints exactly what it has received, and it stops at the first message that starts
  with 0 and only there.
\<close>

theorem cpp_queue_in_order:
  assumes "reach (cq_step cap) (cq_start inp) s"
  shows "cwpc s \<noteq> W_undefined \<and> crpc s \<noteq> R_undefined \<and> prefix (cgot s) (csent s) \<and>
    crout s = map (\<lambda>b. the (c_str b)) (if crpc s = R_show then butlast (cgot s) else cgot s) \<and>
    (crpc s = R_done \<longrightarrow> cgot s \<noteq> [] \<and> is_end (last (cgot s)) \<and> (\<forall>b \<in> set (butlast (cgot s)). \<not> is_end b))"
proof -
  have inv: "cq_inv s" by (rule cq.reach_inv [OF assms])
  then have "prefix (cgot s) (csent s)" by (auto simp: cq_inv_def intro: queue_ok_prefix)
  with inv show ?thesis by (cases "crpc s") (auto simp: cq_inv_def shown_def no_end_def)
qed

text \<open>
  C11. What is typed in the C++ writer is what the C++ reader prints: for lines of at most 19
  characters, of which the first that starts with 0 is the last, every schedule that cannot be
  continued has ended both programs and removed the queue, and the reader has printed exactly
  these lines. No run has more than five steps per line and three.
\<close>

theorem cpp_queue_round_trip:
  assumes "\<forall>w \<in> set ws. short 20 w \<and> \<not> zero_line w" and "short 20 v" and "zero_line v" and "0 < cap"
    and "run (cq_step cap) sch (cq_start \<lparr>good = True, chars = typed_lines (ws @ [v]) @ rest\<rparr>) = Some s"
    and "\<forall>a. cq_step cap a s = None"
  shows "cwpc s = W_done \<and> crpc s = R_done \<and> cqueue s = None \<and> crout s = ws @ [v] \<and> length sch \<le> 5 * length (ws @ [v]) + 3"
proof -
  let ?inp = "\<lparr>good = True, chars = typed_lines (ws @ [v]) @ rest\<rparr>"
  note lines = cin_lines_short [where stop = zero_line, OF assms(1-3), of rest]
  have nul: "map until_nul (ws @ [v]) = ws @ [v]" using assms(1,2) by (intro map_until_nul [of _ 20]) auto
  have "stops zero_line 20 ?inp" using assms(3) by (simp add: stops_def lines)
  note sys = cq_terminating [OF this assms(4), unfolded lines nul]
  from terminating_system.maximal_final [OF sys assms(5)] assms(6) have fin: "cwpc s = W_done" "crpc s = R_done" by auto
  from invariant_system.run_inv [OF terminating_system.axioms(1) [OF sys] assms(5)] have live: "cq_live (ws @ [v]) s" .
  have bound: "length sch \<le> 5 * length (ws @ [v]) + 3"
    using terminating_system.run_bounded [OF sys assms(5)] lines by (simp add: cq_work_def cq_start_def queue_construct_def)
  from live fin obtain hs c rs d where g: "cgot s = hs @ [c]" "is_end c" "crout s = shown (cgot s)" "prefix (cgot s) (csent s)"
      "csent s = rs @ [d]" "no_end rs" "shown (csent s) = ws @ [v]" "cqueue s = None"
    by (auto simp: cq_live_def cq_inv_def queue_ok_def)
  have "cgot s = csent s"
  proof (rule ccontr)
    assume "cgot s \<noteq> csent s"
    with g(4,5) have "prefix (cgot s) rs" by auto
    with g(1,2,6) show False by (auto simp: no_end_def prefix_def)
  qed
  with g fin bound show ?thesis by simp
qed

definition cq_mute :: "cq_state \<Rightarrow> bool" where
  "cq_mute s \<longleftrightarrow> cq_inv s \<and> \<not> stops zero_line 20 (cwinp s) \<and> no_end (csent s) \<and> cwpc s \<noteq> W_done \<and>
     (cwpc s \<noteq> W_get \<longrightarrow> \<not> is_end (qtext (cwmsg s)))"

lemma cq_mute_step:
  assumes m: "cq_mute s" and st: "cq_step cap a s = Some t"
  shows "cq_mute t"
proof (cases a)
  case Write
  with st have w: "write_run cap s = Some t" by simp
  from m have inv: "cq_inv s" "no_end (csent s)" by (simp_all add: cq_mute_def)
  note inv' = cq_writer_inv [OF inv(1) w]
  show ?thesis
  proof (cases "cwpc s")
    case W_get
    obtain b st' where g: "getline 20 (qtext (cwmsg s)) (cwinp s) = (b, st')" by fastforce
    with W_get w have "t = s\<lparr>cwmsg := (cwmsg s)\<lparr>qtext := b\<rparr>, cwinp := st', cwpc := W_send\<rparr>" by (simp add: write_run_def)
    with getline_mute [OF _ g] m inv' show ?thesis by (simp add: cq_mute_def)
  next
    case W_send
    from cq_send [OF inv W_send w] obtain oq where
      "t = s\<lparr>cqueue := oq, csent := csent s @ [qtext (cwmsg s)], cwpc := W_show\<rparr>" .
    with W_send m inv' show ?thesis by (simp add: cq_mute_def no_end_def)
  next
    case W_show
    with w m inv' show ?thesis by (auto simp: write_run_def cq_mute_def q_terminate_def split: option.splits)
  qed (use w in \<open>simp_all add: write_run_def\<close>)
next
  case Read
  with st have r: "read_run s = Some t" by simp
  then have "cwpc t = cwpc s \<and> cwmsg t = cwmsg s \<and> cwinp t = cwinp s \<and> csent t = csent s"
    by (auto simp: read_run_def split: mq_reader.splits syscall.splits prod.splits option.splits)
  with m cq_reader_inv [OF _ r] show ?thesis by (simp add: cq_mute_def)
qed

text \<open>
  A line of 20 or more characters, or the end of the input, makes the C++ programs run for ever:
  when the stream stops before a line that starts with 0, then in every reachable state one of the programs can move
  and neither has ended: the writer goes on sending empty messages.
\<close>

theorem cpp_queue_never_ends:
  assumes "\<not> stops zero_line 20 inp" and "0 < cap" and "reach (cq_step cap) (cq_start inp) s"
  shows "(\<exists>a. cq_step cap a s \<noteq> None) \<and> cwpc s \<noteq> W_done \<and> crpc s \<noteq> R_done"
proof -
  have "invariant_system (cq_step cap) (cq_start inp) cq_mute"
  proof
    show "cq_mute (cq_start inp)"
      using cq_start_inv [of inp] assms(1) by (simp add: cq_mute_def) (simp add: cq_start_def queue_construct_def no_end_def)
  qed (rule cq_mute_step)
  from invariant_system.reach_inv [OF this assms(3)] have m: "cq_mute s" .
  then have inv: "cq_inv s" and ne: "no_end (csent s)" and w: "cwpc s \<noteq> W_done" by (simp_all add: cq_mute_def)
  from cq_queue [OF inv ne] inv have "crpc s \<noteq> R_done" by (auto simp: cq_inv_def)
  moreover have "\<exists>a. cq_step cap a s \<noteq> None"
    using cq_blocked [OF inv assms(2)] w by (metis cq_step.simps)
  ultimately show ?thesis using w by simp
qed

text \<open>
  C12. The C++ reader cannot read what the C writer sends, although both use the same queue: a
  message of the C version is 32 bytes long, \<open>msgrcv\<close> fails and leaves it where it is, and since its
  result is ignored the reader prints the old contents of its array again and again.
\<close>

theorem cpp_reader_rejects_c_message:
  assumes "msg_ok m" and "msgsnd cap m (Some []) = Succeeds q" and "cqueue s = q" and "crpc s = R_recv"
    and "c_str (qtext (crmsg s)) = Some u" and "\<not> is_end (qtext (crmsg s))"
  shows "run (cq_step cap) (concat (replicate n [Read, Read])) s = Some (s\<lparr>crout := crout s @ replicate n u\<rparr>)"
  using assms(3-6)
proof (induction n arbitrary: s)
  case 0
  then show ?case by simp
next
  case (Suc n)
  from assms(1,2) have q: "q = Some [(1, msg_text m)]" "length (msg_text m) = 32"
    by (auto simp: msgsnd_def msg_ok_def msg_text_def text_ok_def split: if_splits)
  let ?t = "s\<lparr>crout := crout s @ [u]\<rparr>"
  have two: "run (cq_step cap) [Read, Read] s = Some ?t"
    using Suc.prems q by (simp add: read_run_def q_msgrcv_def q_terminate_def)
  have "run (cq_step cap) (concat (replicate n [Read, Read])) ?t = Some (?t\<lparr>crout := crout ?t @ replicate n u\<rparr>)"
    using Suc.prems by (intro Suc.IH) simp_all
  moreover have "run (cq_step cap) (concat (replicate (Suc n) [Read, Read])) s = run (cq_step cap) (concat (replicate n [Read, Read])) ?t"
    unfolding replicate_Suc concat.simps run_append two by simp
  ultimately show ?case by simp
qed

section \<open>Conversations\<close>

definition cq_schedule :: "cq_actor list" where
  "cq_schedule = [Write, Write, Read, Write, Read, Write, Write, Write, Read, Read, Read]"

definition cq_end :: cq_state where
  "cq_end = the (run (cq_step 1) cq_schedule (cq_start (cin [''hello'', ''0''])))"

lemma cq_end_run: "run (cq_step 1) cq_schedule (cq_start (cin [''hello'', ''0''])) = Some cq_end"
  by code_simp

theorem cpp_queue_in_order_witness: "crout cq_end = [''hello'', ''0''] \<and> prefix (cgot cq_end) (csent cq_end)"
proof -
  have "reach (cq_step 1) (cq_start (cin [''hello'', ''0''])) cq_end" using cq_end_run reach_iff_run by fast
  moreover have "crout cq_end = [''hello'', ''0'']" by code_simp
  ultimately show ?thesis using cpp_queue_in_order by blast
qed

theorem cpp_queue_round_trip_witness: "crout cq_end = [''hello'', ''0''] \<and> cqueue cq_end = None"
proof -
  have a: "\<forall>w \<in> set [''hello'']. short 20 w \<and> \<not> zero_line w" "short 20 ''0''" "zero_line ''0''" "0 < (1::nat)"
    by (simp_all add: short_def zero_line_def)
  have "cwpc cq_end = W_done" "crpc cq_end = R_done" by code_simp+
  then have "\<forall>a. cq_step 1 a cq_end = None" by (intro allI, case_tac a) (simp_all add: write_run_def read_run_def)
  with cpp_queue_round_trip [OF a, of cq_schedule "[]" cq_end] cq_end_run show ?thesis by (simp add: cin_def)
qed

theorem cpp_queue_never_ends_witness:
  "\<exists>a. cq_step 1 a (cq_start (cin [''twenty characters!!!'', ''0''])) \<noteq> None"
proof -
  have "\<not> stops zero_line 20 (cin [''twenty characters!!!'', ''0''])" by (simp add: stops_def) code_simp
  from cpp_queue_never_ends [OF this _ reach.start, of 1] show ?thesis by simp
qed

theorem cpp_reader_rejects_c_message_witness:
  "run (cq_step 1) [Read, Read, Read, Read] ((cq_start (cin []))\<lparr>cqueue := Some [(1, msg_text (zero_msg 1 (replicate 8 NUL)))]\<rparr>) =
   Some ((cq_start (cin []))\<lparr>cqueue := Some [(1, msg_text (zero_msg 1 (replicate 8 NUL)))], crout := [[], []]\<rparr>)"
proof -
  let ?m = "zero_msg 1 (replicate 8 NUL)"
  let ?s = "(cq_start (cin []))\<lparr>cqueue := Some [(1, msg_text ?m)]\<rparr>"
  have "msg_ok ?m" by (simp add: msg_ok_def text_ok_def zero_msg_def terminated_def)
  moreover have "msgsnd 1 ?m (Some []) = Succeeds (Some [(1, msg_text ?m)])" by (simp add: msgsnd_def zero_msg_def)
  moreover have "cqueue ?s = Some [(1, msg_text ?m)]" "crpc ?s = R_recv" "c_str (qtext (crmsg ?s)) = Some []" "\<not> is_end (qtext (crmsg ?s))"
    by (simp_all add: cq_start_def queue_construct_def c_str_def numeral_eq_Suc)
  ultimately show ?thesis using cpp_reader_rejects_c_message [of ?m 1 "Some [(1, msg_text ?m)]" ?s "[]" 2]
    by (simp add: numeral_eq_Suc del: run.simps) (simp add: cq_start_def queue_construct_def create_queue_def)
qed

end
