(* ===== verification/Socket_Echo.thy ===== *)
theory Socket_Echo
  imports Cstring Channel
begin

text \<open>
  \<^verbatim>\<open>c/ipc/include/socket.h\<close> and \<^verbatim>\<open>c/ipc/message_passing/socket/{client,server}.c\<close>: a client that
  sends the lines of its input over a TCP connection and prints what comes back, and a
  server that prints and echoes what it receives, until a message starts with done.

  The connection is two streams of bytes. A read returns some of the bytes that have
  arrived: how many is part of the schedule. It sleeps while nothing has arrived, and
  returns zero if nothing will arrive any more because the other side has closed its end.
  What is written after the other side has closed is lost. That a write is cut short or
  fails is not modelled. The results of the calls that set up the connection are
  parameters.
\<close>

section \<open>Setting up\<close>

datatype 'a checked = Exit string | Go 'a

text \<open>\<open>report\<close> prints a message and exits or returns, in which case the caller goes on.\<close>

definition report :: "string \<Rightarrow> bool \<Rightarrow> 'a \<Rightarrow> 'a checked" where
  "report msg terminate x = (if terminate then Exit msg else Go x)"

fun and_then :: "'a checked \<Rightarrow> ('a \<Rightarrow> 'b checked) \<Rightarrow> 'b checked" where
  "and_then (Exit m) f = Exit m"
| "and_then (Go x) f = f x"

abbreviation (input) AF_INET :: int where "AF_INET \<equiv> 2"
abbreviation (input) SOCK_BUFFER_SIZE :: nat where "SOCK_BUFFER_SIZE \<equiv> 20"

definition create_socket :: "i32 \<Rightarrow> i32 checked" where
  "create_socket socket_fd = (if socket_fd < 0 then report ''socket'' True socket_fd else Go socket_fd)"

text \<open>The address type of the host found, \<open>None\<close> when \<open>gethostbyname\<close> returns null.\<close>

definition get_address :: "i32 option \<Rightarrow> i32 checked" where
  "get_address host =
     (case host of
        None \<Rightarrow> report ''gethostbyname'' True 0
      | Some t \<Rightarrow> if t \<noteq> AF_INET then report ''bad address family'' True t else Go t)"

definition connect_to_server :: "i32 \<Rightarrow> unit checked" where
  "connect_to_server r = (if r < 0 then report ''connect'' True () else Go ())"

definition bind_to_server :: "i32 \<Rightarrow> i32 \<Rightarrow> unit checked" where
  "bind_to_server bound listening =
     and_then (if bound < 0 then report ''bind'' True () else Go ())
       (\<lambda>_. if listening < 0 then report ''listen'' True () else Go ())"

definition client_setup :: "i32 \<Rightarrow> i32 option \<Rightarrow> i32 \<Rightarrow> i32 checked" where
  "client_setup fd host conn =
     and_then (create_socket fd) (\<lambda>c. and_then (get_address host) (\<lambda>_. and_then (connect_to_server conn) (\<lambda>_. Go c)))"

definition server_setup :: "i32 \<Rightarrow> i32 \<Rightarrow> i32 \<Rightarrow> i32 \<Rightarrow> i32 checked" where
  "server_setup fd bound listening client =
     and_then (create_socket fd)
       (\<lambda>_. and_then (bind_to_server bound listening)
         (\<lambda>_. if client < 0 then report ''accept'' True client else Go client))"

section \<open>The connection\<close>

definition sock_write :: "char list \<Rightarrow> char list \<Rightarrow> char list option" where
  "sock_write m bs = Some (bs @ m)"

definition sock_read :: "nat \<Rightarrow> char list \<Rightarrow> (char list \<times> char list) option" where
  "sock_read n bs = (if bs = [] then None else Some (take n bs, drop n bs))"

definition is_done :: "cbuf \<Rightarrow> bool" where
  "is_done b = strncasecmp_eq b ''done'' 4"

datatype sock_cpc = C_get | C_write | C_read | C_show | C_close | C_done | C_undefined
datatype sock_spc = S_read | S_echo | S_test | S_close | S_done | S_undefined

text \<open>
  \<open>sent\<close>, \<open>got\<close>, \<open>echoed\<close> and \<open>returned\<close> record what the client has sent, the server received, the
  server echoed and the client received.
\<close>

record sock_state =
  c2s :: "char list"
  s2c :: "char list"
  cpc :: sock_cpc
  buffer :: cbuf
  received :: cbuf
  cinp :: "char list"
  cshown :: "string list"
  spc :: sock_spc
  sbuffer :: cbuf
  sshown :: "string list"
  sent :: "cbuf list"
  got :: "cbuf list"
  echoed :: "cbuf list"
  returned :: "cbuf list"

definition client_step :: "nat \<Rightarrow> sock_state \<Rightarrow> sock_state option" where
  "client_step n s =
     (case cpc s of
        C_get \<Rightarrow>
          (case read_message SOCK_BUFFER_SIZE (memset_zero (buffer s) SOCK_BUFFER_SIZE) (cinp s) of
             None \<Rightarrow> Some (s\<lparr>cpc := C_undefined\<rparr>)
           | Some (b, rest) \<Rightarrow> Some (s\<lparr>buffer := b, cinp := rest, cpc := C_write\<rparr>))
      | C_write \<Rightarrow>
          (let m = take SOCK_BUFFER_SIZE (buffer s) in
           if spc s = S_done then Some (s\<lparr>cpc := C_read\<rparr>)
           else map_option (\<lambda>bs. s\<lparr>c2s := bs, sent := sent s @ [m], cpc := C_read\<rparr>) (sock_write m (c2s s)))
      | C_read \<Rightarrow>
          (case sock_read (min n SOCK_BUFFER_SIZE) (s2c s) of
             None \<Rightarrow> if spc s = S_done then Some (s\<lparr>cpc := C_get\<rparr>) else None
           | Some (m, bs) \<Rightarrow> Some (s\<lparr>s2c := bs, received := overwrite m (received s), returned := returned s @ [m], cpc := C_show\<rparr>))
      | C_show \<Rightarrow>
          (case c_str (received s) of
             None \<Rightarrow> Some (s\<lparr>cpc := C_undefined\<rparr>)
           | Some t \<Rightarrow> Some (s\<lparr>cshown := cshown s @ [t], cpc := (if is_done (received s) then C_close else C_get)\<rparr>))
      | C_close \<Rightarrow> Some (s\<lparr>cpc := C_done\<rparr>)
      | _ \<Rightarrow> None)"

definition server_step :: "nat \<Rightarrow> sock_state \<Rightarrow> sock_state option" where
  "server_step n s =
     (case spc s of
        S_read \<Rightarrow>
          (case sock_read (min n SOCK_BUFFER_SIZE) (c2s s) of
             None \<Rightarrow> if cpc s = C_done then Some (s\<lparr>spc := S_test\<rparr>) else None
           | Some (m, bs) \<Rightarrow> Some (s\<lparr>c2s := bs, sbuffer := overwrite m (sbuffer s), got := got s @ [m], spc := S_echo\<rparr>))
      | S_echo \<Rightarrow>
          (case c_str (sbuffer s) of
             None \<Rightarrow> Some (s\<lparr>spc := S_undefined\<rparr>)
           | Some t \<Rightarrow>
               (let m = take SOCK_BUFFER_SIZE (sbuffer s); s' = s\<lparr>sshown := sshown s @ [t], spc := S_test\<rparr> in
                if cpc s = C_done then Some s'
                else map_option (\<lambda>bs. s'\<lparr>s2c := bs, echoed := echoed s @ [m]\<rparr>) (sock_write m (s2c s))))
      | S_test \<Rightarrow> Some (s\<lparr>spc := (if is_done (sbuffer s) then S_close else S_read)\<rparr>)
      | S_close \<Rightarrow> Some (s\<lparr>spc := S_done\<rparr>)
      | _ \<Rightarrow> None)"

datatype party = Client | Server

text \<open>An action together with the number of bytes a read finds.\<close>

fun sock_move :: "party \<times> nat \<Rightarrow> sock_state \<Rightarrow> sock_state option" where
  "sock_move (Client, n) s = (if n = 0 then None else client_step n s)"
| "sock_move (Server, n) s = (if n = 0 then None else server_step n s)"

text \<open>
  What happens when each read finds at least a whole message, or as much as is asked for. TCP does
  not promise that, so the theorems that rest on it assume it of the schedule.
\<close>

definition sock_step :: "party \<Rightarrow> sock_state \<Rightarrow> sock_state option" where
  "sock_step x s = sock_move (x, SOCK_BUFFER_SIZE) s"

text \<open>
  Connected. The client has cleared the first 20 bytes of its arrays, the server has not;
  the last byte of the client's arrays is \<open>x\<close> and \<open>y\<close>.
\<close>

definition sock_start :: "char \<Rightarrow> char \<Rightarrow> cbuf \<Rightarrow> char list \<Rightarrow> sock_state" where
  "sock_start x y sb inp =
     \<lparr>c2s = [], s2c = [], cpc = C_get, buffer = replicate 20 NUL @ [x], received = replicate 20 NUL @ [y], cinp = inp, cshown = [],
      spc = S_read, sbuffer = sb, sshown = [], sent = [], got = [], echoed = [], returned = []\<rparr>"

section \<open>The connection as a channel\<close>

definition full :: "cbuf \<Rightarrow> bool" where
  "full m \<longleftrightarrow> length m = 20 \<and> NUL \<in> set m"

definition stream_holds :: "char list \<Rightarrow> cbuf list \<Rightarrow> bool" where
  "stream_holds bs ms \<longleftrightarrow> bs = concat ms \<and> (\<forall>m \<in> set ms. full m)"

interpretation st: fifo_channel sock_write "sock_read 20" stream_holds full "\<lambda>bs. bs = []"
proof unfold_locales
  fix c ms m d
  assume "stream_holds c ms" "sock_read 20 c = Some (m, d)"
  then show "\<exists>r. ms = m # r \<and> stream_holds d r"
    by (cases ms) (auto simp: stream_holds_def sock_read_def full_def split: if_splits)
next
  fix c ms
  assume "stream_holds c ms"
  then show "(c = []) = (ms = [])" by (cases ms) (auto simp: stream_holds_def full_def)
qed (auto simp: stream_holds_def sock_write_def)

section \<open>The invariant\<close>

definition any_done :: "cbuf list \<Rightarrow> bool" where
  "any_done ms \<longleftrightarrow> (\<exists>m \<in> set ms. is_done m)"

fun c_due :: "sock_cpc \<Rightarrow> nat" where "c_due C_read = 1" | "c_due _ = 0"
fun s_due :: "sock_spc \<Rightarrow> nat" where "s_due S_echo = 1" | "s_due _ = 0"

fun client_ok :: "sock_cpc \<Rightarrow> cbuf \<Rightarrow> cbuf \<Rightarrow> cbuf list \<Rightarrow> bool" where
  "client_ok C_show b r ms \<longleftrightarrow> (\<exists>ns. ms = ns @ [take 20 r] \<and> \<not> any_done ns)"
| "client_ok C_close b r ms \<longleftrightarrow> any_done ms"
| "client_ok C_done b r ms \<longleftrightarrow> any_done ms"
| "client_ok C_undefined b r ms \<longleftrightarrow> False"
| "client_ok C_write b r ms \<longleftrightarrow> \<not> any_done ms \<and> full (take 20 b)"
| "client_ok _ b r ms \<longleftrightarrow> \<not> any_done ms"

fun server_ok :: "sock_spc \<Rightarrow> cbuf \<Rightarrow> cbuf list \<Rightarrow> bool" where
  "server_ok S_read b ms \<longleftrightarrow> \<not> any_done ms"
| "server_ok S_echo b ms \<longleftrightarrow> (\<exists>ns. ms = ns @ [take 20 b] \<and> \<not> any_done ns)"
| "server_ok S_test b ms \<longleftrightarrow> (\<exists>ns. ms = ns @ [take 20 b] \<and> \<not> any_done ns)"
| "server_ok S_close b ms \<longleftrightarrow> any_done ms"
| "server_ok S_done b ms \<longleftrightarrow> any_done ms"
| "server_ok S_undefined b ms \<longleftrightarrow> False"

definition texts :: "cbuf list \<Rightarrow> string list" where
  "texts ms = map (\<lambda>m. the (c_str m)) ms"

definition c_out :: "sock_cpc \<Rightarrow> cbuf list \<Rightarrow> string list" where
  "c_out pc ms = texts (if pc = C_show then butlast ms else ms)"

definition sock_inv :: "char \<Rightarrow> sock_state \<Rightarrow> bool" where
  "sock_inv x s \<longleftrightarrow>
     st.track (c2s s) (sent s) (got s) \<and> st.track (s2c s) (echoed s) (returned s) \<and>
     length (sent s) = length (returned s) + c_due (cpc s) \<and> length (got s) = length (echoed s) + s_due (spc s) \<and>
     prefix (echoed s) (got s) \<and>
     length (buffer s) = 21 \<and> drop 20 (buffer s) = [x] \<and> length (received s) = 21 \<and> length (sbuffer s) = 21 \<and>
     client_ok (cpc s) (buffer s) (received s) (returned s) \<and> server_ok (spc s) (sbuffer s) (got s) \<and>
     cshown s = c_out (cpc s) (returned s) \<and> sshown s = texts (echoed s)"

lemma any_done_append [simp]: "any_done (ms @ ns) \<longleftrightarrow> any_done ms \<or> any_done ns" "any_done [m] \<longleftrightarrow> is_done m" "\<not> any_done []"
  by (auto simp: any_done_def)

lemma str_eq_n_take: "n \<le> k \<Longrightarrow> k \<le> length xs \<Longrightarrow> str_eq_n f n (take k xs) ys = str_eq_n f n xs ys"
proof (induction f n xs ys arbitrary: k rule: str_eq_n.induct)
  case (2 f n x xs y ys)
  then show ?case by (cases k) auto
qed auto

lemma is_done_take: "length b = 21 \<Longrightarrow> is_done (take 20 b) = is_done b"
  by (simp add: is_done_def strncasecmp_eq_def str_eq_n_take)

lemma take_overwrite: "length m = 20 \<Longrightarrow> length b = 21 \<Longrightarrow> take 20 (overwrite m b) = m \<and> length (overwrite m b) = 21"
  by (simp add: overwrite_def)

lemma c_str_append: "NUL \<in> set a \<Longrightarrow> c_str (a @ b) = c_str a"
  by (auto simp: c_str_def takeWhile_append1)

lemma c_str_take: "NUL \<in> set (take 20 b) \<Longrightarrow> c_str b = c_str (take 20 b)"
  using c_str_append [of "take 20 b" "drop 20 b"] by (metis append_take_drop_id)

lemma full_c_str: "full m \<Longrightarrow> \<exists>t. c_str m = Some t"
  by (auto simp: full_def c_str_def)

text \<open>What is read goes into the first 20 bytes of the array.\<close>

lemma strtok_tail:
  assumes "strtok_newline b = Some b'" and "NUL \<in> set (take 20 b)" and "length b = 21"
  shows "drop 20 b' = drop 20 b \<and> NUL \<in> set (take 20 b')"
proof -
  from assms(2) obtain t where t: "c_str b = Some t" by (auto simp: c_str_def dest: in_set_takeD)
  have len: "length t < 20"
  proof -
    from t c_str_take [OF assms(2)] have "c_str (take 20 b) = Some t" by simp
    from c_str_SomeD [OF this] show ?thesis using assms(3) by simp
  qed
  define a where "a = length (takeWhile (\<lambda>c. c = NEWLINE) t)"
  define k where "k = a + length (takeWhile (\<lambda>c. c \<noteq> NEWLINE) (drop a t))"
  from assms(1) t have b': "b' = (if k < length t then b[k := NUL] else b)"
    by (auto simp: strtok_newline_def Let_def a_def k_def)
  show ?thesis
  proof (cases "k < length t")
    case True
    with b' len assms(3) show ?thesis by (auto simp: drop_update_cancel take_update_swap set_update_memI)
  next
    case False
    with b' assms(2) show ?thesis by simp
  qed
qed

lemma read_message_tail:
  assumes "length b = 21" and "NUL \<in> set (take 20 b)"
  shows "\<exists>b' rest. read_message 20 b inp = Some (b', rest) \<and> length b' = 21 \<and> drop 20 b' = drop 20 b \<and> full (take 20 b')"
proof -
  obtain f rest where f: "fgets 20 b inp = (f, rest)" by fastforce
  have t: "drop 20 f = drop 20 b \<and> NUL \<in> set (take 20 f) \<and> length f = 21"
  proof (cases "inp = []")
    case True
    with f assms show ?thesis by (simp add: fgets_def)
  next
    case False
    obtain l r where l: "get_line 19 inp = (l, r)" by fastforce
    with get_line_split have n: "length l \<le> 19" by blast
    then have "20 - length l = Suc (19 - length l)" by simp
    with n False f l assms show ?thesis by (auto simp: fgets_def overwrite_def)
  qed
  then have "NUL \<in> set f" using in_set_takeD by fastforce
  then obtain b' where b': "strtok_newline f = Some b'" by (auto simp: strtok_newline_def c_str_def Let_def)
  from strtok_tail [OF b'] t strtok_length [OF b'] have "drop 20 b' = drop 20 b" "NUL \<in> set (take 20 b')" "length b' = 21" by auto
  with f b' show ?thesis by (auto simp: read_message_def full_def)
qed

text \<open>Counting: there is at most one message under way, in one of the two directions.\<close>

lemma sock_counts:
  assumes "sock_inv x s"
  shows "length (got s) \<le> length (sent s)" "length (returned s) \<le> length (echoed s)"
    "length (sent s) = length (returned s) + c_due (cpc s)" "length (got s) = length (echoed s) + s_due (spc s)"
  using assms by (auto simp: sock_inv_def dest: st.track_le)

lemma sock_texts_last: "ms = ns @ [m] \<Longrightarrow> c_str m = Some t \<Longrightarrow> texts ms = texts ns @ [t]"
  by (simp add: texts_def)

text \<open>Nobody meets a closed connection.\<close>

lemma sock_prefix_done: "prefix ms ns \<Longrightarrow> any_done ms \<Longrightarrow> any_done ns"
  by (auto simp: prefix_def)

lemma sock_server_open:
  assumes inv: "sock_inv x s" and "cpc s = C_write \<or> cpc s = C_read \<and> s2c s = []"
  shows "spc s \<noteq> S_done"
proof
  assume d: "spc s = S_done"
  with sock_counts [OF inv] assms(2) have len: "length (got s) = length (echoed s)" by simp
  moreover have "prefix (echoed s) (got s)" using inv by (simp add: sock_inv_def)
  ultimately have eq: "got s = echoed s" by (auto simp: prefix_def)
  have "echoed s = returned s"
  proof (cases "cpc s = C_write")
    case True
    with sock_counts [OF inv] len have "length (echoed s) \<le> length (returned s)" by simp
    with inv show ?thesis by (auto simp: sock_inv_def intro: st.track_all)
  next
    case False
    with assms(2) inv show ?thesis by (auto simp: sock_inv_def intro: st.track_empty)
  qed
  with eq d inv assms(2) show False by (auto simp: sock_inv_def)
qed

lemma sock_client_open:
  assumes inv: "sock_inv x s" and "spc s = S_echo \<or> spc s = S_read"
  shows "cpc s \<noteq> C_done"
proof
  assume d: "cpc s = C_done"
  with sock_counts [OF inv] assms(2) have sr: "spc s = S_read" by auto
  have "any_done (returned s)" using d inv by (simp add: sock_inv_def)
  moreover have "prefix (returned s) (echoed s)" "prefix (echoed s) (got s)" using inv st.track_prefix by (auto simp: sock_inv_def)
  ultimately have "any_done (got s)" using sock_prefix_done by blast
  with sr show False using inv by (simp add: sock_inv_def)
qed

lemma sock_client_inv:
  assumes inv: "sock_inv x s" and st: "client_step 20 s = Some t"
  shows "sock_inv x t"
proof (cases "cpc s")
  case C_get
  let ?z = "memset_zero (buffer s) 20"
  from inv have z: "length ?z = 21" "NUL \<in> set (take 20 ?z)" "drop 20 ?z = [x]"
    by (auto simp: memset_zero_def overwrite_def sock_inv_def)
  from read_message_tail [OF z(1,2), of "cinp s"] z(3) obtain b rest where
    b: "read_message 20 ?z (cinp s) = Some (b, rest)" "length b = 21" "drop 20 b = [x]" "full (take 20 b)" by auto
  with C_get st have "t = s\<lparr>buffer := b, cinp := rest, cpc := C_write\<rparr>" by (simp add: client_step_def)
  with C_get inv b show ?thesis by (simp add: sock_inv_def c_out_def)
next
  case C_write
  let ?m = "take 20 (buffer s)"
  from sock_server_open [OF inv] C_write st have t: "t = s\<lparr>c2s := c2s s @ ?m, sent := sent s @ [?m], cpc := C_read\<rparr>"
    by (simp add: client_step_def sock_write_def Let_def)
  from inv C_write st.track_send [of "c2s s" "sent s" "got s" ?m "c2s s @ ?m"]
  have "st.track (c2s s @ ?m) (sent s @ [?m]) (got s)" by (simp add: sock_inv_def sock_write_def)
  with C_write inv t show ?thesis by (simp add: sock_inv_def c_out_def)
next
  case C_read
  from sock_server_open [OF inv] C_read st obtain m bs where m: "sock_read 20 (s2c s) = Some (m, bs)"
    by (auto simp: client_step_def sock_read_def split: if_splits)
  with C_read st have t: "t = s\<lparr>s2c := bs, received := overwrite m (received s), returned := returned s @ [m], cpc := C_show\<rparr>"
    by (simp add: client_step_def)
  from inv st.track_recv [OF _ m] have "st.track bs (echoed s) (returned s @ [m])" "full m" by (auto simp: sock_inv_def)
  moreover have "take 20 (overwrite m (received s)) = m \<and> length (overwrite m (received s)) = 21"
    using take_overwrite [of m "received s"] \<open>full m\<close> inv by (simp add: full_def sock_inv_def)
  ultimately show ?thesis using C_read inv t by (simp add: sock_inv_def c_out_def)
next
  case C_show
  from inv C_show obtain ns where ns: "returned s = ns @ [take 20 (received s)]" "\<not> any_done ns" and r: "length (received s) = 21"
    by (auto simp: sock_inv_def)
  from inv ns have "full (take 20 (received s))" using st.track_good [of "s2c s" "echoed s" "returned s"] by (auto simp: sock_inv_def)
  then obtain u where u: "c_str (take 20 (received s)) = Some u" "c_str (received s) = Some u"
    using full_c_str c_str_take by (metis full_def)
  with C_show st have t: "t = s\<lparr>cshown := cshown s @ [u], cpc := (if is_done (received s) then C_close else C_get)\<rparr>"
    by (simp add: client_step_def)
  have "texts (returned s) = texts (butlast (returned s)) @ [u]" using sock_texts_last [OF ns(1) u(1)] ns by simp
  moreover have "any_done (returned s) = is_done (received s)" using ns is_done_take [OF r] by simp
  ultimately show ?thesis using C_show inv t
    by (cases "is_done (received s)") (simp_all add: sock_inv_def c_out_def)
next
  case C_close
  with inv st show ?thesis by (auto simp: client_step_def sock_inv_def c_out_def)
qed (use st in \<open>simp_all add: client_step_def\<close>)

lemma sock_server_inv:
  assumes inv: "sock_inv x s" and st: "server_step 20 s = Some t"
  shows "sock_inv x t"
proof (cases "spc s")
  case S_read
  from sock_client_open [OF inv] S_read st obtain m bs where m: "sock_read 20 (c2s s) = Some (m, bs)"
    by (auto simp: server_step_def sock_read_def split: if_splits)
  with S_read st have t: "t = s\<lparr>c2s := bs, sbuffer := overwrite m (sbuffer s), got := got s @ [m], spc := S_echo\<rparr>"
    by (simp add: server_step_def)
  from inv st.track_recv [OF _ m] have "st.track bs (sent s) (got s @ [m])" "full m" by (auto simp: sock_inv_def)
  moreover have "take 20 (overwrite m (sbuffer s)) = m \<and> length (overwrite m (sbuffer s)) = 21"
    using take_overwrite [of m "sbuffer s"] \<open>full m\<close> inv by (simp add: full_def sock_inv_def)
  ultimately show ?thesis using S_read inv t by (simp add: sock_inv_def)
next
  case S_echo
  let ?m = "take 20 (sbuffer s)"
  from inv S_echo obtain ns where ns: "got s = ns @ [?m]" by (auto simp: sock_inv_def)
  with inv have f: "full ?m" using st.track_good [of "c2s s" "sent s" "got s"] by (auto simp: sock_inv_def)
  then obtain u where u: "c_str ?m = Some u" "c_str (sbuffer s) = Some u"
    using full_c_str c_str_take by (metis full_def)
  with S_echo st sock_client_open [OF inv] have t: "t = s\<lparr>sshown := sshown s @ [u], spc := S_test, s2c := s2c s @ ?m, echoed := echoed s @ [?m]\<rparr>"
    by (simp add: server_step_def sock_write_def Let_def)
  from inv f st.track_send [of "s2c s" "echoed s" "returned s" ?m "s2c s @ ?m"]
  have tr: "st.track (s2c s @ ?m) (echoed s @ [?m]) (returned s)" by (simp add: sock_inv_def sock_write_def)
  from inv S_echo ns have "prefix (echoed s) (ns @ [?m])" "length (echoed s) = length ns" by (auto simp: sock_inv_def)
  then have "echoed s = ns" by (auto simp: prefix_def)
  with S_echo inv t ns tr sock_texts_last [of "echoed s @ [?m]" "echoed s" ?m u] u show ?thesis
    by (simp add: sock_inv_def)
next
  case S_test
  from S_test st have t: "t = s\<lparr>spc := (if is_done (sbuffer s) then S_close else S_read)\<rparr>" by (simp add: server_step_def)
  from S_test inv have "any_done (got s) = is_done (sbuffer s)" using is_done_take [of "sbuffer s"] by (auto simp: sock_inv_def)
  with S_test inv t show ?thesis by (cases "is_done (sbuffer s)") (simp_all add: sock_inv_def)
next
  case S_close
  with inv st show ?thesis by (auto simp: server_step_def sock_inv_def)
qed (use st in \<open>simp_all add: server_step_def\<close>)

lemma sock_step_inv: "sock_inv x s \<Longrightarrow> sock_step a s = Some t \<Longrightarrow> sock_inv x t"
  by (cases a) (auto simp: sock_step_def intro: sock_client_inv sock_server_inv)

lemma sock_start_inv: "length sb = 21 \<Longrightarrow> sock_inv x (sock_start x y sb inp)"
  by (simp add: sock_inv_def sock_start_def st.track_start stream_holds_def c_out_def texts_def)

lemma sock_system: "length sb = 21 \<Longrightarrow> invariant_system sock_step (sock_start x y sb inp) (sock_inv x)"
  by unfold_locales (auto intro: sock_step_inv sock_start_inv)

section \<open>Properties\<close>

text \<open>
  The echo is faithful: whatever the user types, and whatever the arrays held before,
  as long as every read finds a whole message neither program reads beyond a string, the
  messages that have come back to the client are a prefix of those it sent, the server has
  printed exactly the messages it echoed and the client those that came back, and at most
  one message is under way.
\<close>

theorem echo_faithful:
  assumes "length sb = 21" and "reach sock_step (sock_start x y sb inp) s"
  shows "cpc s \<noteq> C_undefined \<and> spc s \<noteq> S_undefined \<and> prefix (returned s) (sent s) \<and> length (sent s) \<le> length (returned s) + 1 \<and>
    cshown s = map (\<lambda>m. the (c_str m)) (if cpc s = C_show then butlast (returned s) else returned s) \<and>
    sshown s = map (\<lambda>m. the (c_str m)) (echoed s) \<and> prefix (returned s) (echoed s)"
proof -
  from invariant_system.reach_inv [OF sock_system [OF assms(1)] assms(2)] have inv: "sock_inv x s" .
  then have p: "prefix (got s) (sent s)" "prefix (returned s) (echoed s)" "prefix (echoed s) (got s)"
    by (auto simp: sock_inv_def dest: st.track_prefix)
  then have "prefix (returned s) (sent s)" by (meson prefix_order.trans)
  moreover have "length (sent s) \<le> length (returned s) + 1" using sock_counts(3) [OF inv] by (cases "cpc s") auto
  moreover have "cpc s \<noteq> C_undefined" "spc s \<noteq> S_undefined" "cshown s = c_out (cpc s) (returned s)" "sshown s = texts (echoed s)"
    using inv by (auto simp: sock_inv_def)
  ultimately show ?thesis using p by (simp add: c_out_def texts_def)
qed

section \<open>Both programs finish\<close>

text \<open>The messages the client makes of its input, up to the first that starts with done.\<close>

function sock_typed :: "char \<Rightarrow> char list \<Rightarrow> cbuf list" where
  "sock_typed x inp =
     (if inp = [] then []
      else (case read_message 20 (replicate 20 NUL @ [x]) inp of
              None \<Rightarrow> []
            | Some (b, rest) \<Rightarrow> if is_done b then [take 20 b] else take 20 b # sock_typed x rest))"
  by pat_completeness auto
termination
  by (relation "measure (\<lambda>(x, inp). length inp)") (auto dest: read_message_rest [rotated])

declare sock_typed.simps [simp del]

definition says_done :: "cbuf list \<Rightarrow> bool" where
  "says_done ms \<longleftrightarrow> ms \<noteq> [] \<and> is_done (last ms)"

lemma sock_typed_step:
  assumes "says_done (sock_typed x inp)" and "read_message 20 (replicate 20 NUL @ [x]) inp = Some (b, rest)" and "length b = 21"
  shows "if is_done (take 20 b) then sock_typed x inp = [take 20 b]
    else sock_typed x inp = take 20 b # sock_typed x rest \<and> says_done (sock_typed x rest)"
proof -
  from assms(1) have "inp \<noteq> []" by (auto simp: says_done_def sock_typed.simps [of x inp])
  with assms(2) have "sock_typed x inp = (if is_done b then [take 20 b] else take 20 b # sock_typed x rest)"
    by (subst sock_typed.simps) simp
  with assms(1) is_done_take [OF assms(3)] show ?thesis by (auto simp: says_done_def split: if_splits)
qed

fun client_at :: "char \<Rightarrow> cbuf list \<Rightarrow> sock_cpc \<Rightarrow> cbuf \<Rightarrow> char list \<Rightarrow> cbuf list \<Rightarrow> bool" where
  "client_at x all C_get m inp ss \<longleftrightarrow> ss @ sock_typed x inp = all \<and> says_done (sock_typed x inp)"
| "client_at x all C_write m inp ss \<longleftrightarrow>
     (if is_done m then ss @ [m] = all else ss @ m # sock_typed x inp = all \<and> says_done (sock_typed x inp))"
| "client_at x all C_read m inp ss \<longleftrightarrow>
     ss \<noteq> [] \<and> (if is_done (last ss) then ss = all else ss @ sock_typed x inp = all \<and> says_done (sock_typed x inp))"
| "client_at x all C_show m inp ss \<longleftrightarrow>
     ss \<noteq> [] \<and> (if is_done (last ss) then ss = all else ss @ sock_typed x inp = all \<and> says_done (sock_typed x inp))"
| "client_at x all _ m inp ss \<longleftrightarrow> ss = all"

definition sock_live :: "char \<Rightarrow> cbuf list \<Rightarrow> sock_state \<Rightarrow> bool" where
  "sock_live x all s \<longleftrightarrow> sock_inv x s \<and> client_at x all (cpc s) (take 20 (buffer s)) (cinp s) (sent s)"

fun client_work :: "char \<Rightarrow> sock_cpc \<Rightarrow> cbuf \<Rightarrow> char list \<Rightarrow> cbuf list \<Rightarrow> nat" where
  "client_work x C_get m inp ss = 4 * length (sock_typed x inp) + 1"
| "client_work x C_write m inp ss = (if is_done m then 0 else 4 * length (sock_typed x inp)) + 4"
| "client_work x C_read m inp ss = (if is_done (last ss) then 0 else 4 * length (sock_typed x inp)) + 3"
| "client_work x C_show m inp ss = (if is_done (last ss) then 0 else 4 * length (sock_typed x inp)) + 2"
| "client_work x C_close m inp ss = 1"
| "client_work x _ m inp ss = 0"

fun server_work :: "sock_spc \<Rightarrow> nat \<Rightarrow> nat" where
  "server_work S_read r = 3 * r + 2" | "server_work S_echo r = 3 * r + 4" | "server_work S_test r = 3 * r + 3"
| "server_work S_close r = 1" | "server_work _ r = 0"

definition sock_work :: "char \<Rightarrow> cbuf list \<Rightarrow> sock_state \<Rightarrow> nat" where
  "sock_work x all s =
     client_work x (cpc s) (take 20 (buffer s)) (cinp s) (sent s) + server_work (spc s) (length all - length (got s))"

lemma sock_all_back:
  assumes inv: "sock_inv x s" and "c_due (cpc s) = 0"
  shows "returned s = sent s \<and> echoed s = sent s \<and> got s = sent s"
proof -
  from inv have p: "prefix (got s) (sent s)" "prefix (returned s) (echoed s)" "prefix (echoed s) (got s)"
    by (auto simp: sock_inv_def dest: st.track_prefix)
  then have "prefix (returned s) (sent s)" by (meson prefix_order.trans)
  moreover have "length (sent s) = length (returned s)" using sock_counts(3) [OF inv] assms(2) by simp
  ultimately have "returned s = sent s" by (auto simp: prefix_def)
  with p show ?thesis by (metis prefix_order.antisym prefix_order.trans)
qed

lemma sock_live_client:
  assumes live: "sock_live x all s" and st: "client_step 20 s = Some t"
  shows "sock_live x all t \<and> sock_work x all t < sock_work x all s"
proof -
  from live have inv: "sock_inv x s" by (simp add: sock_live_def)
  note inv' = sock_client_inv [OF inv st]
  show ?thesis
  proof (cases "cpc s")
    case C_get
    from inv have z: "memset_zero (buffer s) 20 = replicate 20 NUL @ [x]" by (simp add: memset_zero_def overwrite_def sock_inv_def)
    from read_message_tail [of "replicate 20 NUL @ [x]" "cinp s"] obtain b rest where
      b: "read_message 20 (replicate 20 NUL @ [x]) (cinp s) = Some (b, rest)" "length b = 21" by auto
    with C_get st z have t: "t = s\<lparr>buffer := b, cinp := rest, cpc := C_write\<rparr>" by (simp add: client_step_def)
    from live C_get have "says_done (sock_typed x (cinp s))" by (simp add: sock_live_def)
    from sock_typed_step [OF this b] t C_get live inv' show ?thesis
      by (auto simp: sock_live_def sock_work_def split: if_splits)
  next
    case C_write
    from sock_server_open [OF inv] C_write st have
      "t = s\<lparr>c2s := c2s s @ take 20 (buffer s), sent := sent s @ [take 20 (buffer s)], cpc := C_read\<rparr>"
      by (simp add: client_step_def sock_write_def Let_def)
    with C_write live inv' show ?thesis by (auto simp: sock_live_def sock_work_def split: if_splits)
  next
    case C_read
    from sock_server_open [OF inv] C_read st obtain m bs where
      "t = s\<lparr>s2c := bs, received := overwrite m (received s), returned := returned s @ [m], cpc := C_show\<rparr>"
      by (auto simp: client_step_def sock_read_def split: if_splits)
    with C_read live inv' show ?thesis by (auto simp: sock_live_def sock_work_def split: if_splits)
  next
    case C_show
    from inv C_show obtain ns where ns: "returned s = ns @ [take 20 (received s)]" and r: "length (received s) = 21"
      by (auto simp: sock_inv_def)
    from ns sock_all_back [OF inv] C_show have "last (sent s) = take 20 (received s)" by (metis c_due.simps(4) last_snoc)
    then have d: "is_done (last (sent s)) = is_done (received s)" using is_done_take [OF r] by simp
    from C_show st inv' obtain u where
      "t = s\<lparr>cshown := cshown s @ [u], cpc := (if is_done (received s) then C_close else C_get)\<rparr>"
      by (auto simp: client_step_def sock_inv_def split: option.splits)
    with C_show live inv' d show ?thesis
      by (cases "is_done (received s)") (auto simp: sock_live_def sock_work_def)
  next
    case C_close
    with st live inv' show ?thesis by (auto simp: client_step_def sock_live_def sock_work_def)
  qed (use st in \<open>simp_all add: client_step_def\<close>)
qed

lemma sock_live_sent: "sock_live x all s \<Longrightarrow> length (sent s) \<le> length all"
  by (cases "cpc s") (auto simp: sock_live_def split: if_splits)

lemma sock_live_server:
  assumes live: "sock_live x all s" and st: "server_step 20 s = Some t"
  shows "sock_live x all t \<and> sock_work x all t < sock_work x all s"
proof -
  from live have inv: "sock_inv x s" by (simp add: sock_live_def)
  note inv' = sock_server_inv [OF inv st]
  have same: "cpc t = cpc s \<and> buffer t = buffer s \<and> cinp t = cinp s \<and> sent t = sent s"
    using st by (auto simp: server_step_def Let_def split: sock_spc.splits option.splits if_splits prod.splits)
  have live': "sock_live x all t" using live inv' same by (simp add: sock_live_def)
  have len: "length (got t) \<le> length all" using sock_counts(1) [OF inv'] sock_live_sent [OF live'] by simp
  have "server_work (spc t) (length all - length (got t)) < server_work (spc s) (length all - length (got s))"
  proof (cases "spc s")
    case S_read
    with st sock_client_open [OF inv] have "spc t = S_echo" "length (got t) = Suc (length (got s))"
      by (auto simp: server_step_def split: option.splits if_splits)
    with S_read len show ?thesis by simp
  next
    case S_echo
    with st inv' show ?thesis by (auto simp: server_step_def sock_inv_def Let_def split: option.splits if_splits)
  qed (use st in \<open>auto simp: server_step_def\<close>)
  with live' same show ?thesis by (simp add: sock_work_def)
qed

definition sock_over :: "sock_state \<Rightarrow> bool" where
  "sock_over s \<longleftrightarrow> cpc s = C_done \<and> spc s = S_done"

lemma sock_stuck:
  assumes inv: "sock_inv x s" and stuck: "\<And>a. sock_step a s = None"
  shows "sock_over s"
proof -
  from stuck [of Client] stuck [of Server] have st: "client_step 20 s = None" "server_step 20 s = None" by (simp_all add: sock_step_def)
  have c: "cpc s = C_done \<or> cpc s = C_read \<and> s2c s = []"
    using st(1) inv by (cases "cpc s") (auto simp: client_step_def sock_read_def sock_write_def sock_inv_def Let_def split: option.splits if_splits)
  have d: "spc s = S_done \<or> spc s = S_read \<and> c2s s = []"
    using st(2) inv by (cases "spc s") (auto simp: server_step_def sock_read_def sock_write_def sock_inv_def Let_def split: option.splits if_splits)
  have "\<not> (cpc s = C_read \<and> s2c s = [] \<and> spc s = S_read \<and> c2s s = [])"
  proof
    assume a: "cpc s = C_read \<and> s2c s = [] \<and> spc s = S_read \<and> c2s s = []"
    with inv have "sent s = got s" "echoed s = returned s" by (auto simp: sock_inv_def intro: st.track_empty)
    with sock_counts [OF inv] a show False by simp
  qed
  with c d sock_server_open [OF inv] sock_client_open [OF inv] show ?thesis by (auto simp: sock_over_def)
qed

lemma sock_terminating:
  assumes "length sb = 21" and "says_done (sock_typed x inp)"
  shows "terminating_system sock_step (sock_start x y sb inp) (sock_live x (sock_typed x inp)) (sock_work x (sock_typed x inp)) sock_over"
proof
  show "sock_live x (sock_typed x inp) (sock_start x y sb inp)"
    using sock_start_inv [OF assms(1), of x y inp] assms(2) by (simp add: sock_live_def) (simp add: sock_start_def)
next
  fix s a t
  assume live: "sock_live x (sock_typed x inp) s" and st: "sock_step a s = Some t"
  have "sock_live x (sock_typed x inp) t \<and> sock_work x (sock_typed x inp) t < sock_work x (sock_typed x inp) s"
  proof (cases a)
    case Client
    with st show ?thesis by (intro sock_live_client [OF live]) (simp add: sock_step_def)
  next
    case Server
    with st show ?thesis by (intro sock_live_server [OF live]) (simp add: sock_step_def)
  qed
  then show "sock_live x (sock_typed x inp) t" "sock_work x (sock_typed x inp) t < sock_work x (sock_typed x inp) s" by simp_all
qed (auto simp: sock_live_def intro: sock_stuck)

lemma sock_move_whole: "20 \<le> snd a \<Longrightarrow> sock_move a s = sock_step (fst a) s"
proof -
  assume "20 \<le> snd a"
  then obtain p n where a: "a = (p, n)" and n: "n \<noteq> 0" "min n 20 = 20" by (cases a) auto
  from n(2) have "client_step n s = client_step 20 s" "server_step n s = server_step 20 s"
    unfolding client_step_def server_step_def by (simp_all only: min.idem)
  with n(1) show ?thesis unfolding a sock_step_def by (cases p) simp_all
qed

lemma sock_whole_run:
  "run sock_move sch s = Some t \<Longrightarrow> \<forall>a \<in> set sch. 20 \<le> snd a \<Longrightarrow> run sock_step (map fst sch) s = Some t"
  by (induction sch arbitrary: s) (auto simp: sock_move_whole split: option.splits)

lemma sock_move_stuck: "\<forall>a. sock_move a s = None \<Longrightarrow> \<forall>p. sock_step p s = None"
  by (simp add: sock_step_def)

lemma sock_complete:
  assumes "length sb = 21" and "says_done (sock_typed x inp)" and "run sock_step sch (sock_start x y sb inp) = Some s"
  shows "length sch \<le> 7 * length (sock_typed x inp) + 3"
    and "\<forall>a. sock_step a s = None \<Longrightarrow>
      sock_over s \<and> cshown s = texts (sock_typed x inp) \<and> sshown s = texts (sock_typed x inp)"
proof -
  note sys = sock_terminating [OF assms(1,2)]
  show "length sch \<le> 7 * length (sock_typed x inp) + 3"
    using terminating_system.run_bounded [OF sys assms(3)] by (simp add: sock_work_def sock_start_def)
  assume "\<forall>a. sock_step a s = None"
  with terminating_system.maximal_final [OF sys assms(3)] have over: "sock_over s" by simp
  from invariant_system.run_inv [OF terminating_system.axioms(1) [OF sys] assms(3)] have live: "sock_live x (sock_typed x inp) s" .
  then have inv: "sock_inv x s" and "sent s = sock_typed x inp" using over by (simp_all add: sock_live_def sock_over_def)
  with sock_all_back [OF inv] over have "returned s = sock_typed x inp" "echoed s = sock_typed x inp" by (simp_all add: sock_over_def)
  then show "sock_over s \<and> cshown s = texts (sock_typed x inp) \<and> sshown s = texts (sock_typed x inp)"
    using inv over by (simp add: sock_inv_def sock_over_def c_out_def)
qed

text \<open>Plain lines: not empty, short enough for the array, and not starting with done.\<close>

definition plain :: "string \<Rightarrow> bool" where
  "plain w \<longleftrightarrow> w \<noteq> [] \<and> NEWLINE \<notin> set w \<and> NUL \<notin> set w \<and> length w \<le> 18"

definition as_input :: "string list \<Rightarrow> char list" where
  "as_input ws = concat (map (\<lambda>w. w @ [NEWLINE]) ws)"

definition line_done :: "string \<Rightarrow> bool" where
  "line_done w = is_done (w @ [NUL])"

lemma str_eq_n_nul: "str_eq_n lower n (w @ NUL # r) ys = str_eq_n lower n (w @ [NUL]) ys"
proof (induction n arbitrary: w ys)
  case (Suc n)
  then show ?case by (cases w; cases ys) auto
qed simp

lemma is_done_c_str: "c_str b = Some w \<Longrightarrow> is_done b = line_done w"
proof -
  assume a: "c_str b = Some w"
  from c_str_SomeD [OF a] have "b = w @ NUL # drop (Suc (length w)) b"
    by (metis id_take_nth_drop)
  then show ?thesis using str_eq_n_nul [of 4 w "drop (Suc (length w)) b"]
    by (metis is_done_def line_done_def strncasecmp_eq_def)
qed

lemma sock_typed_lines:
  assumes "\<forall>w \<in> set ws. plain w \<and> \<not> line_done w" and "plain v" and "line_done v"
  shows "texts (sock_typed x (as_input (ws @ [v]))) = ws @ [v] \<and> says_done (sock_typed x (as_input (ws @ [v])))"
  using assms(1)
proof (induction ws)
  have one: "\<exists>b. read_message 20 (replicate 20 NUL @ [x]) (w @ NEWLINE # rest) = Some (b, rest) \<and> length b = 21 \<and>
      c_str (take 20 b) = Some w \<and> is_done b = line_done w" if "plain w" for w rest
  proof -
    from read_message_line [of w 20 "replicate 20 NUL @ [x]" rest] that obtain b where
      b: "read_message 20 (replicate 20 NUL @ [x]) (w @ NEWLINE # rest) = Some (b, rest)" "c_str b = Some w" by (auto simp: plain_def)
    from read_message_tail [of "replicate 20 NUL @ [x]" "w @ NEWLINE # rest"] b(1) have "length b = 21" "full (take 20 b)" by auto
    with b c_str_take [of b] is_done_c_str [OF b(2)] show ?thesis by (auto simp: full_def)
  qed
  {
    case Nil
    from one [OF assms(2), of "[]"] assms(3) obtain b where
      "read_message 20 (replicate 20 NUL @ [x]) (v @ [NEWLINE]) = Some (b, [])" "length b = 21" "c_str (take 20 b) = Some v" "is_done b" by auto
    then show ?case using is_done_take [of b] by (simp add: as_input_def sock_typed.simps [of x "v @ [NEWLINE]"] texts_def says_done_def)
  next
    case (Cons w ws)
    from one [of w "as_input (ws @ [v])"] Cons.prems obtain b where
      b: "read_message 20 (replicate 20 NUL @ [x]) (w @ NEWLINE # as_input (ws @ [v])) = Some (b, as_input (ws @ [v]))"
        "c_str (take 20 b) = Some w" "\<not> is_done b" by auto
    have "as_input ((w # ws) @ [v]) = w @ NEWLINE # as_input (ws @ [v])" by (simp add: as_input_def)
    then have "sock_typed x (as_input ((w # ws) @ [v])) = take 20 b # sock_typed x (as_input (ws @ [v]))"
      using b by (subst sock_typed.simps) simp
    with Cons b show ?case by (simp add: texts_def says_done_def)
  }
qed

text \<open>
  C39. The echo round trip: when the user types lines of 1 to 18 characters, and the first
  that starts with done (in any mixture of cases) is the last, then under every schedule in
  which each read finds a whole message if there is one, no run has more than seven steps per line and
  three, and a run that cannot be continued has ended both programs, and both have printed
  exactly the lines typed, in order. TCP does not promise whole messages; what a shorter read
  does is the next theorem.
\<close>

theorem echo_round_trip:
  assumes "length sb = 21" and "\<forall>w \<in> set ws. plain w \<and> \<not> line_done w" and "plain v" and "line_done v"
    and "run sock_move sch (sock_start x y sb (as_input (ws @ [v]))) = Some s" and "\<forall>a \<in> set sch. 20 \<le> snd a"
  shows "length sch \<le> 7 * length (ws @ [v]) + 3 \<and>
    ((\<forall>a. sock_move a s = None) \<longrightarrow> cpc s = C_done \<and> spc s = S_done \<and> cshown s = ws @ [v] \<and> sshown s = ws @ [v])"
proof -
  note typed = sock_typed_lines [OF assms(2-4), of x]
  then have "length (sock_typed x (as_input (ws @ [v]))) = length (ws @ [v])" by (metis length_map texts_def)
  with sock_complete [OF assms(1) conjunct2 [OF typed] sock_whole_run [OF assms(5,6)]] typed sock_move_stuck [of s]
  show ?thesis by (auto simp: sock_over_def)
qed

section \<open>What the code does not handle\<close>

text \<open>
  A short read breaks the echo. When the server's read finds only the first \<open>k\<close> of the
  20 bytes of a message, it still echoes 20 bytes: these \<open>k\<close> and what its array held
  before. The rest of the message stays in the connection and is answered with another
  20 bytes, so the client, which reads once per message, is from then on behind.
\<close>

theorem echo_short_read:
  assumes "spc s = S_read" and "cpc s \<noteq> C_done" and "length (c2s s) = 20" and "0 < k" and "k < 20"
    and "length (sbuffer s) = 21" and "NUL \<in> set (drop k (take 20 (sbuffer s)))"
  shows "\<exists>t. run sock_move [(Server, k), (Server, 20)] s = Some t \<and> spc t = S_test \<and>
    s2c t = s2c s @ take k (c2s s) @ drop k (take 20 (sbuffer s)) \<and> c2s t = drop k (c2s s) \<and> length (c2s t) = 20 - k"
proof -
  let ?b = "overwrite (take k (c2s s)) (sbuffer s)"
  have m: "sock_read (min k 20) (c2s s) = Some (take k (c2s s), drop k (c2s s))"
    using assms(3,5) by (auto simp: sock_read_def min_def)
  have b: "take 20 ?b = take k (c2s s) @ drop k (take 20 (sbuffer s))"
    using assms(3,5,6) by (simp add: overwrite_def min_def drop_take)
  then have "NUL \<in> set (take 20 ?b)" using assms(7) by simp
  then obtain u where "c_str ?b = Some u" by (auto simp: c_str_def dest: in_set_takeD)
  with assms m b show ?thesis by (simp add: server_step_def sock_write_def Let_def)
qed

text \<open>The server does not notice that the client is gone: it asks again for ever.\<close>

lemma server_spins:
  assumes "spc s = S_read" and "c2s s = []" and "cpc s = C_done" and "\<not> is_done (sbuffer s)"
  shows "run sock_step [Server, Server] s = Some s"
  using assms by (simp add: sock_step_def server_step_def sock_read_def)

section \<open>A conversation\<close>

definition echo_start :: sock_state where
  "echo_start = sock_start NUL NUL (replicate 21 NUL) (as_input [''hi'', ''Done''])"

definition echo_schedule :: "party list" where
  "echo_schedule =
     [Client, Client, Server, Server, Server, Client, Client, Client, Client, Server, Server, Server, Client, Client, Server, Client]"

definition echo_end :: sock_state where
  "echo_end = the (run sock_step echo_schedule echo_start)"

lemma echo_end_run: "run sock_step echo_schedule echo_start = Some echo_end"
  by code_simp

definition whole_reads :: "party list \<Rightarrow> (party \<times> nat) list" where
  "whole_reads ps = map (\<lambda>p. (p, 20)) ps"

lemma run_whole_reads: "run sock_move (whole_reads ps) s = run sock_step ps s"
  by (induction ps arbitrary: s) (auto simp: whole_reads_def sock_step_def split: option.splits)

lemma echo_end_moves: "run sock_move (whole_reads echo_schedule) echo_start = Some echo_end"
  by (simp add: run_whole_reads echo_end_run)

lemma echo_end_stuck: "\<forall>a. sock_move a echo_end = None"
proof
  fix a
  have "cpc echo_end = C_done" "spc echo_end = S_done" by code_simp+
  then show "sock_move a echo_end = None" by (cases a; cases "fst a") (auto simp: client_step_def server_step_def)
qed

theorem echo_faithful_witness: "cshown echo_end = map (\<lambda>m. the (c_str m)) (returned echo_end) \<and> prefix (returned echo_end) (sent echo_end)"
proof -
  have "reach sock_step (sock_start NUL NUL (replicate 21 NUL) (as_input [''hi'', ''Done''])) echo_end"
    using echo_end_run reach_iff_run unfolding echo_start_def by fast
  from echo_faithful [OF _ this] have "prefix (returned echo_end) (sent echo_end)"
    "cshown echo_end = map (\<lambda>m. the (c_str m)) (if cpc echo_end = C_show then butlast (returned echo_end) else returned echo_end)" by simp_all
  moreover have "cpc echo_end = C_done" by code_simp
  ultimately show ?thesis by simp
qed

theorem echo_round_trip_witness: "cshown echo_end = [''hi'', ''Done''] \<and> sshown echo_end = [''hi'', ''Done'']"
proof -
  have "\<forall>w \<in> set [''hi'']. plain w \<and> \<not> line_done w" "plain ''Done''" "line_done ''Done''" by code_simp+
  from echo_round_trip [OF _ this, of "replicate 21 NUL" "whole_reads echo_schedule" NUL NUL echo_end] echo_end_moves echo_end_stuck
  show ?thesis by (simp add: echo_start_def whole_reads_def)
qed

theorem echo_short_read_witness:
  "\<exists>t. run sock_move [(Server, 5), (Server, 20)] ((sock_start NUL NUL (replicate 21 NUL) [])\<lparr>c2s := replicate 20 CHR ''a''\<rparr>) = Some t \<and>
     s2c t = replicate 5 CHR ''a'' @ replicate 15 NUL \<and> c2s t = replicate 15 CHR ''a''"
  using echo_short_read [of "(sock_start NUL NUL (replicate 21 NUL) [])\<lparr>c2s := replicate 20 CHR ''a''\<rparr>" 5]
  by (auto simp: sock_start_def)

end
