(* ===== verification/Cpp_Socket.thy ===== *)
theory Cpp_Socket
  imports Socket_Echo Cin
begin

text \<open>
  \<^verbatim>\<open>cpp/ipc/message_passing/socket\<close>: the classes \<open>Client\<close> and \<open>Server\<close> of \<^verbatim>\<open>sockets.hh\<close> and their
  programs, over the two streams of bytes of theory \<open>Socket_Echo\<close>. Other than in C a failure while
  the connection is set up is an exception, the arrays have 20 bytes and are zeroed, a line comes
  from \<open>std::cin.getline\<close>, and the client stops after the message it has typed, not after the one
  it has received. What a read finds is part of the schedule, as in C.
\<close>

section \<open>Setting up\<close>

datatype sock_exc = Socket_exc | Connection | Bind | Listen | Host | BadAddress | Accept

fun sock_what :: "sock_exc \<Rightarrow> string" where
  "sock_what Socket_exc = ''Cannot connect to socket''"
| "sock_what Connection = ''Cannot connect''"
| "sock_what Bind = ''Cannot bind''"
| "sock_what Listen = ''Cannot Listen''"
| "sock_what Host = ''Cannot get host by name''"
| "sock_what BadAddress = ''Cannot get host by name''"
| "sock_what Accept = ''Cannot accept''"

definition Common_create_socket :: "i32 \<Rightarrow> sock_exc + i32" where
  "Common_create_socket fd = (if fd < 0 then Inl Socket_exc else Inr fd)"

definition Client_get_address :: "i32 option \<Rightarrow> sock_exc + i32" where
  "Client_get_address host =
     (case host of None \<Rightarrow> Inl Host | Some t \<Rightarrow> if t \<noteq> AF_INET then Inl BadAddress else Inr t)"

definition Client_connect :: "i32 \<Rightarrow> sock_exc + unit" where
  "Client_connect r = (if r < 0 then Inl Connection else Inr ())"

definition Server_bind :: "i32 \<Rightarrow> i32 \<Rightarrow> sock_exc + unit" where
  "Server_bind bound listening = (if bound < 0 then Inl Bind else if listening < 0 then Inl Listen else Inr ())"

fun bind_exc :: "'e + 'a \<Rightarrow> ('a \<Rightarrow> 'e + 'b) \<Rightarrow> 'e + 'b" where
  "bind_exc (Inl e) f = Inl e"
| "bind_exc (Inr x) f = f x"

text \<open>The constructor of the client and the first call in its \<open>run\<close>; the constructor of the server.\<close>

definition Client_setup :: "i32 \<Rightarrow> i32 option \<Rightarrow> i32 \<Rightarrow> sock_exc + i32" where
  "Client_setup fd host conn =
     bind_exc (Common_create_socket fd)
       (\<lambda>c. bind_exc (Client_get_address host) (\<lambda>_. bind_exc (Client_connect conn) (\<lambda>_. Inr c)))"

definition Server_setup :: "i32 \<Rightarrow> i32 \<Rightarrow> i32 \<Rightarrow> i32 \<Rightarrow> sock_exc + i32" where
  "Server_setup fd bound listening client =
     bind_exc (Common_create_socket fd)
       (\<lambda>_. bind_exc (Server_bind bound listening) (\<lambda>_. if client < 0 then Inl Accept else Inr client))"

text \<open>What the programs print to stderr when the set-up throws.\<close>

definition sock_catch :: "sock_exc + 'a \<Rightarrow> string list" where
  "sock_catch r = (case r of Inl e \<Rightarrow> [sock_what e] | Inr _ \<Rightarrow> [])"

section \<open>The loops\<close>

datatype cs_cpc = X_get | X_write | X_read | X_show | X_test | X_close | X_done | X_undefined

record cs_state =
  xc2s :: "char list"
  xs2c :: "char list"
  xcpc :: cs_cpc
  xmsg :: cbuf
  xreceived :: cbuf
  xcinp :: istream
  xshown :: "string list"
  xcerr :: "string list"
  xspc :: sock_spc
  xsmsg :: cbuf
  xsshown :: "string list"
  xsent :: "cbuf list"
  xgot :: "cbuf list"
  xechoed :: "cbuf list"
  xreturned :: "cbuf list"

abbreviation (input) sock_buffer :: nat where "sock_buffer \<equiv> 20"

text \<open>
  \<open>Client::run\<close> after the connection, and the destructor. A \<open>write\<close> of 20 bytes does not return
  zero; what is written after the server has closed is lost. In a \<open>do\<close> loop, \<open>continue\<close> goes on with the test.
\<close>

definition client_run :: "nat \<Rightarrow> cs_state \<Rightarrow> cs_state option" where
  "client_run n s =
     (case xcpc s of
        X_get \<Rightarrow> (case getline sock_buffer (xmsg s) (xcinp s) of (b, st) \<Rightarrow> Some (s\<lparr>xmsg := b, xcinp := st, xcpc := X_write\<rparr>))
      | X_write \<Rightarrow>
          if xspc s = S_done then Some (s\<lparr>xcpc := X_read\<rparr>)
          else map_option (\<lambda>bs. s\<lparr>xc2s := bs, xsent := xsent s @ [xmsg s], xcpc := X_read\<rparr>) (sock_write (xmsg s) (xc2s s))
      | X_read \<Rightarrow>
          (case sock_read (min n sock_buffer) (xs2c s) of
             None \<Rightarrow>
               if xspc s = S_done then Some (s\<lparr>xcerr := xcerr s @ [''Message failed reading''], xcpc := X_test\<rparr>) else None
           | Some (m, bs) \<Rightarrow>
               Some (s\<lparr>xs2c := bs, xreceived := overwrite m (xreceived s), xreturned := xreturned s @ [m], xcpc := X_show\<rparr>))
      | X_show \<Rightarrow>
          (case c_str (xreceived s) of
             None \<Rightarrow> Some (s\<lparr>xcpc := X_undefined\<rparr>)
           | Some t \<Rightarrow> Some (s\<lparr>xshown := xshown s @ [t], xcpc := X_test\<rparr>))
      | X_test \<Rightarrow> Some (s\<lparr>xcpc := (if \<not> is_done (xmsg s) then X_get else X_close)\<rparr>)
      | X_close \<Rightarrow> Some (s\<lparr>xcpc := X_done\<rparr>)
      | _ \<Rightarrow> None)"

definition server_run :: "nat \<Rightarrow> cs_state \<Rightarrow> cs_state option" where
  "server_run n s =
     (case xspc s of
        S_read \<Rightarrow>
          (case sock_read (min n sock_buffer) (xc2s s) of
             None \<Rightarrow> if xcpc s = X_done then Some (s\<lparr>xspc := S_test\<rparr>) else None
           | Some (m, bs) \<Rightarrow> Some (s\<lparr>xc2s := bs, xsmsg := overwrite m (xsmsg s), xgot := xgot s @ [m], xspc := S_echo\<rparr>))
      | S_echo \<Rightarrow>
          (case c_str (xsmsg s) of
             None \<Rightarrow> Some (s\<lparr>xspc := S_undefined\<rparr>)
           | Some t \<Rightarrow>
               (let s' = s\<lparr>xsshown := xsshown s @ [t], xspc := S_test\<rparr> in
                if xcpc s = X_done then Some s'
                else map_option (\<lambda>bs. s'\<lparr>xs2c := bs, xechoed := xechoed s @ [xsmsg s]\<rparr>) (sock_write (xsmsg s) (xs2c s))))
      | S_test \<Rightarrow> Some (s\<lparr>xspc := (if \<not> is_done (xsmsg s) then S_read else S_close)\<rparr>)
      | S_close \<Rightarrow> Some (s\<lparr>xspc := S_done\<rparr>)
      | _ \<Rightarrow> None)"

fun cs_move :: "party \<times> nat \<Rightarrow> cs_state \<Rightarrow> cs_state option" where
  "cs_move (Client, n) s = (if n = 0 then None else client_run n s)"
| "cs_move (Server, n) s = (if n = 0 then None else server_run n s)"

text \<open>What happens when each read finds a whole message; as in C, this is an assumption about the schedule.\<close>

definition cs_step :: "party \<Rightarrow> cs_state \<Rightarrow> cs_state option" where
  "cs_step x s = cs_move (x, sock_buffer) s"

definition cs_start :: "istream \<Rightarrow> cs_state" where
  "cs_start inp =
     \<lparr>xc2s = [], xs2c = [], xcpc = X_get, xmsg = replicate 20 NUL, xreceived = replicate 20 NUL, xcinp = inp, xshown = [], xcerr = [],
      xspc = S_read, xsmsg = replicate 20 NUL, xsshown = [], xsent = [], xgot = [], xechoed = [], xreturned = []\<rparr>"

section \<open>The invariant\<close>

fun cs_due :: "cs_cpc \<Rightarrow> nat" where "cs_due X_read = 1" | "cs_due _ = 0"

fun cs_client :: "cs_cpc \<Rightarrow> cbuf \<Rightarrow> cbuf list \<Rightarrow> bool" where
  "cs_client X_get b ss \<longleftrightarrow> \<not> any_done ss"
| "cs_client X_write b ss \<longleftrightarrow> \<not> any_done ss"
| "cs_client X_close b ss \<longleftrightarrow> any_done ss"
| "cs_client X_done b ss \<longleftrightarrow> any_done ss"
| "cs_client X_undefined b ss \<longleftrightarrow> False"
| "cs_client _ b ss \<longleftrightarrow> (\<exists>rs. ss = rs @ [b] \<and> \<not> any_done rs)"

fun cs_server :: "sock_spc \<Rightarrow> cbuf \<Rightarrow> cbuf list \<Rightarrow> bool" where
  "cs_server S_read b ms \<longleftrightarrow> \<not> any_done ms"
| "cs_server S_close b ms \<longleftrightarrow> any_done ms"
| "cs_server S_done b ms \<longleftrightarrow> any_done ms"
| "cs_server S_undefined b ms \<longleftrightarrow> False"
| "cs_server _ b ms \<longleftrightarrow> (\<exists>ns. ms = ns @ [b] \<and> \<not> any_done ns)"

definition cs_inv :: "cs_state \<Rightarrow> bool" where
  "cs_inv s \<longleftrightarrow>
     st.track (xc2s s) (xsent s) (xgot s) \<and> st.track (xs2c s) (xechoed s) (xreturned s) \<and>
     length (xsent s) = length (xreturned s) + cs_due (xcpc s) \<and> length (xgot s) = length (xechoed s) + s_due (xspc s) \<and>
     prefix (xechoed s) (xgot s) \<and> full (xmsg s) \<and> full (xreceived s) \<and> full (xsmsg s) \<and>
     cs_client (xcpc s) (xmsg s) (xsent s) \<and> cs_server (xspc s) (xsmsg s) (xgot s) \<and>
     (xcpc s = X_show \<longrightarrow> (\<exists>rs. xreturned s = rs @ [xreceived s])) \<and>
     xshown s = texts (if xcpc s = X_show then butlast (xreturned s) else xreturned s) \<and> xsshown s = texts (xechoed s) \<and>
     xcerr s = []"

lemma cs_tracks:
  assumes "cs_inv s"
  shows "st.track (xc2s s) (xsent s) (xgot s)" "st.track (xs2c s) (xechoed s) (xreturned s)" "prefix (xechoed s) (xgot s)"
  using assms by (simp_all add: cs_inv_def)

lemma cs_counts:
  assumes "cs_inv s"
  shows "length (xgot s) \<le> length (xsent s)" "length (xreturned s) \<le> length (xechoed s)"
    "length (xsent s) = length (xreturned s) + cs_due (xcpc s)" "length (xgot s) = length (xechoed s) + s_due (xspc s)"
    "length (xechoed s) \<le> length (xgot s)"
  using assms by (auto simp: cs_inv_def dest: st.track_le)

lemma full_overwrite: "full m \<Longrightarrow> full b \<Longrightarrow> overwrite m b = m"
  by (simp add: full_def overwrite_def)

lemma full_getline: "full b \<Longrightarrow> getline 20 b st = (b', st') \<Longrightarrow> full b'"
  using getline_length [of 20 b st b' st'] getline_nul [of 20 b st b' st'] by (simp add: full_def)

text \<open>Nobody meets a closed connection.\<close>

lemma cs_server_open:
  assumes inv: "cs_inv s" and "xcpc s = X_write \<or> xcpc s = X_read \<and> xs2c s = []"
  shows "xspc s \<noteq> S_done"
proof
  assume d: "xspc s = S_done"
  note c = cs_counts [OF inv] and t = cs_tracks [OF inv]
  from inv d have got: "any_done (xgot s)" by (simp add: cs_inv_def)
  show False
  proof (cases "xcpc s = X_write")
    case True
    with inv have "\<not> any_done (xsent s)" by (simp add: cs_inv_def)
    with got st.track_prefix [OF t(1)] sock_prefix_done show False by blast
  next
    case False
    with assms(2) have "xechoed s = xreturned s" "xcpc s = X_read" using st.track_empty [OF t(2)] by auto
    with c d have "length (xgot s) + 1 = length (xsent s)" by simp
    moreover from \<open>xcpc s = X_read\<close> inv obtain rs where "xsent s = rs @ [xmsg s]" "\<not> any_done rs" by (auto simp: cs_inv_def)
    ultimately have "prefix (xgot s) rs" using st.track_prefix [OF t(1)] by auto
    with got \<open>\<not> any_done rs\<close> sock_prefix_done show False by blast
  qed
qed

lemma cs_client_open:
  assumes inv: "cs_inv s" and "xspc s = S_echo \<or> xspc s = S_read"
  shows "xcpc s \<noteq> X_done"
proof
  assume d: "xcpc s = X_done"
  note c = cs_counts [OF inv] and t = cs_tracks [OF inv]
  from c d assms(2) have "xspc s = S_read" "length (xsent s) \<le> length (xgot s)" by auto
  with st.track_all [OF t(1)] inv d show False by (auto simp: cs_inv_def)
qed

lemma cs_client_inv:
  assumes inv: "cs_inv s" and st: "client_run 20 s = Some t"
  shows "cs_inv t"
proof (cases "xcpc s")
  case X_get
  obtain b st' where g: "getline 20 (xmsg s) (xcinp s) = (b, st')" by fastforce
  with X_get st have "t = s\<lparr>xmsg := b, xcinp := st', xcpc := X_write\<rparr>" by (simp add: client_run_def)
  moreover have "full b" using inv full_getline [OF _ g] by (simp add: cs_inv_def)
  ultimately show ?thesis using X_get inv by (simp add: cs_inv_def)
next
  case X_write
  from cs_server_open [OF inv] X_write st have t: "t = s\<lparr>xc2s := xc2s s @ xmsg s, xsent := xsent s @ [xmsg s], xcpc := X_read\<rparr>"
    by (simp add: client_run_def sock_write_def)
  from inv st.track_send [of "xc2s s" "xsent s" "xgot s" "xmsg s" "xc2s s @ xmsg s"]
  have "st.track (xc2s s @ xmsg s) (xsent s @ [xmsg s]) (xgot s)" by (simp add: cs_inv_def sock_write_def)
  with X_write inv t show ?thesis by (simp add: cs_inv_def)
next
  case X_read
  from cs_server_open [OF inv] X_read st obtain m bs where m: "sock_read 20 (xs2c s) = Some (m, bs)"
    by (auto simp: client_run_def sock_read_def split: if_splits)
  from inv st.track_recv [OF cs_tracks(2) [OF inv] m] have tr: "st.track bs (xechoed s) (xreturned s @ [m])" "full m" by auto
  with inv have "overwrite m (xreceived s) = m" by (simp add: full_overwrite cs_inv_def)
  with m X_read st have "t = s\<lparr>xs2c := bs, xreceived := m, xreturned := xreturned s @ [m], xcpc := X_show\<rparr>"
    by (simp add: client_run_def)
  with X_read inv tr show ?thesis by (simp add: cs_inv_def)
next
  case X_show
  with inv obtain rs where r: "xreturned s = rs @ [xreceived s]" by (auto simp: cs_inv_def)
  from inv full_c_str obtain u where u: "c_str (xreceived s) = Some u" by (auto simp: cs_inv_def)
  with X_show st have t: "t = s\<lparr>xshown := xshown s @ [u], xcpc := X_test\<rparr>" by (simp add: client_run_def)
  from r u have "texts (xreturned s) = texts (butlast (xreturned s)) @ [u]" by (simp add: texts_def)
  with X_show inv t show ?thesis by (simp add: cs_inv_def)
next
  case X_test
  with st have t: "t = s\<lparr>xcpc := (if \<not> is_done (xmsg s) then X_get else X_close)\<rparr>" by (simp add: client_run_def)
  with X_test inv show ?thesis by (cases "is_done (xmsg s)") (auto simp: cs_inv_def)
next
  case X_close
  with inv st show ?thesis by (auto simp: client_run_def cs_inv_def)
qed (use st in \<open>simp_all add: client_run_def\<close>)

lemma cs_server_inv:
  assumes inv: "cs_inv s" and st: "server_run 20 s = Some t"
  shows "cs_inv t"
proof (cases "xspc s")
  case S_read
  from cs_client_open [OF inv] S_read st obtain m bs where m: "sock_read 20 (xc2s s) = Some (m, bs)"
    by (auto simp: server_run_def sock_read_def split: if_splits)
  from st.track_recv [OF cs_tracks(1) [OF inv] m] have tr: "st.track bs (xsent s) (xgot s @ [m])" "full m" by auto
  with inv have "overwrite m (xsmsg s) = m" by (simp add: full_overwrite cs_inv_def)
  with m S_read st have "t = s\<lparr>xc2s := bs, xsmsg := m, xgot := xgot s @ [m], xspc := S_echo\<rparr>" by (simp add: server_run_def)
  with S_read inv tr show ?thesis by (simp add: cs_inv_def)
next
  case S_echo
  with inv obtain ns where ns: "xgot s = ns @ [xsmsg s]" "\<not> any_done ns" by (auto simp: cs_inv_def)
  from inv full_c_str obtain u where u: "c_str (xsmsg s) = Some u" by (auto simp: cs_inv_def)
  with S_echo st cs_client_open [OF inv] have t: "t = s\<lparr>xsshown := xsshown s @ [u], xspc := S_test, xs2c := xs2c s @ xsmsg s, xechoed := xechoed s @ [xsmsg s]\<rparr>"
    by (simp add: server_run_def sock_write_def Let_def)
  from inv st.track_send [of "xs2c s" "xechoed s" "xreturned s" "xsmsg s" "xs2c s @ xsmsg s"]
  have tr: "st.track (xs2c s @ xsmsg s) (xechoed s @ [xsmsg s]) (xreturned s)" by (simp add: cs_inv_def sock_write_def)
  from cs_tracks(3) [OF inv] cs_counts(4) [OF inv] S_echo ns have "prefix (xechoed s) (ns @ [xsmsg s])" "length (xechoed s) = length ns"
    by simp_all
  then have "xechoed s = ns" by (auto simp: prefix_def)
  with S_echo inv t ns tr u show ?thesis by (simp add: cs_inv_def texts_def)
next
  case S_test
  with st have t: "t = s\<lparr>xspc := (if \<not> is_done (xsmsg s) then S_read else S_close)\<rparr>" by (simp add: server_run_def)
  with S_test inv show ?thesis by (cases "is_done (xsmsg s)") (auto simp: cs_inv_def)
next
  case S_close
  with inv st show ?thesis by (auto simp: server_run_def cs_inv_def)
qed (use st in \<open>simp_all add: server_run_def\<close>)

lemma cs_step_inv: "cs_inv s \<Longrightarrow> cs_step a s = Some t \<Longrightarrow> cs_inv t"
  by (cases a) (auto simp: cs_step_def intro: cs_client_inv cs_server_inv)

lemma cs_start_inv: "cs_inv (cs_start inp)"
  by (simp add: cs_inv_def cs_start_def st.track_start stream_holds_def texts_def full_def)

interpretation cs: invariant_system cs_step "cs_start inp" cs_inv for inp
  by unfold_locales (auto intro: cs_step_inv cs_start_inv)

text \<open>Where nobody can move, both have ended.\<close>

definition cs_over :: "cs_state \<Rightarrow> bool" where
  "cs_over s \<longleftrightarrow> xcpc s = X_done \<and> xspc s = S_done"

lemma cs_stuck:
  assumes inv: "cs_inv s" and stuck: "\<And>a. cs_step a s = None"
  shows "cs_over s"
proof -
  from stuck [of Client] stuck [of Server] have st: "client_run 20 s = None" "server_run 20 s = None" by (simp_all add: cs_step_def)
  from inv full_c_str obtain u v where "c_str (xreceived s) = Some u" "c_str (xsmsg s) = Some v" unfolding cs_inv_def by metis
  with st inv have c: "xcpc s = X_done \<or> xcpc s = X_read \<and> xs2c s = []"
    by (cases "xcpc s") (auto simp: client_run_def sock_read_def sock_write_def cs_inv_def split: option.splits if_splits prod.splits)
  from \<open>c_str (xsmsg s) = Some v\<close> st inv have d: "xspc s = S_done \<or> xspc s = S_read \<and> xc2s s = []"
    by (cases "xspc s") (auto simp: server_run_def sock_read_def sock_write_def cs_inv_def Let_def split: option.splits if_splits)
  have "\<not> (xcpc s = X_read \<and> xs2c s = [] \<and> xspc s = S_read \<and> xc2s s = [])"
  proof
    assume a: "xcpc s = X_read \<and> xs2c s = [] \<and> xspc s = S_read \<and> xc2s s = []"
    with st.track_empty [OF cs_tracks(1) [OF inv]] st.track_empty [OF cs_tracks(2) [OF inv]] cs_counts [OF inv]
    show False by simp
  qed
  with c d cs_server_open [OF inv] cs_client_open [OF inv] show ?thesis by (auto simp: cs_over_def)
qed

section \<open>The echo\<close>

text \<open>
  The C++ echo is faithful: whatever the user types, as long as every read finds a whole
  message no program runs over the end of a string, what has come back is a prefix of what
  was sent and at most one message behind, both programs print exactly the messages they received,
  and the client never finds the connection closed.
\<close>

theorem cpp_echo_faithful:
  assumes "reach cs_step (cs_start inp) s"
  shows "xcpc s \<noteq> X_undefined \<and> xspc s \<noteq> S_undefined \<and> prefix (xreturned s) (xsent s) \<and>
    length (xsent s) \<le> length (xreturned s) + 1 \<and> xcerr s = [] \<and>
    xshown s = map (\<lambda>m. the (c_str m)) (if xcpc s = X_show then butlast (xreturned s) else xreturned s) \<and>
    xsshown s = map (\<lambda>m. the (c_str m)) (xechoed s) \<and> ((\<forall>a. cs_step a s = None) \<longrightarrow> cs_over s)"
proof -
  have inv: "cs_inv s" by (rule cs.reach_inv [OF assms])
  note t = cs_tracks [OF inv]
  from st.track_prefix [OF t(2)] t(3) st.track_prefix [OF t(1)] have "prefix (xreturned s) (xsent s)"
    by (meson prefix_order.trans)
  moreover have "length (xsent s) \<le> length (xreturned s) + 1" using cs_counts(3) [OF inv] by (cases "xcpc s") auto
  moreover have "cs_over s" if "\<forall>a. cs_step a s = None" using cs_stuck [OF inv] that by blast
  moreover have "xcpc s \<noteq> X_undefined" "xspc s \<noteq> S_undefined" "xcerr s = []" "xsshown s = texts (xechoed s)"
    "xshown s = texts (if xcpc s = X_show then butlast (xreturned s) else xreturned s)"
    using inv by (auto simp: cs_inv_def)
  ultimately show ?thesis unfolding texts_def by blast
qed

section \<open>Both programs finish\<close>

lemma cs_move_whole: "20 \<le> snd a \<Longrightarrow> cs_move a s = cs_step (fst a) s"
proof -
  assume "20 \<le> snd a"
  then obtain p n where a: "a = (p, n)" and n: "n \<noteq> 0" "min n 20 = 20" by (cases a) auto
  from n(2) have "client_run n s = client_run 20 s" "server_run n s = server_run 20 s"
    unfolding client_run_def server_run_def by (simp_all only: min.idem)
  with n(1) show ?thesis unfolding a cs_step_def by (cases p) simp_all
qed

lemma cs_whole_run:
  "run cs_move sch s = Some t \<Longrightarrow> \<forall>a \<in> set sch. 20 \<le> snd a \<Longrightarrow> run cs_step (map fst sch) s = Some t"
  by (induction sch arbitrary: s) (auto simp: cs_move_whole split: option.splits)

lemma is_done_line: "is_done (overwrite (l @ [NUL]) buf) \<longleftrightarrow> line_done l"
  using str_eq_n_nul [of 4 l "drop (length (l @ [NUL])) buf" "''done'' @ [NUL]"]
  by (simp add: is_done_def line_done_def strncasecmp_eq_def overwrite_def)

definition cs_wrote :: "string list \<Rightarrow> cbuf list \<Rightarrow> istream \<Rightarrow> bool" where
  "cs_wrote ws bs st \<longleftrightarrow> (if bs \<noteq> [] \<and> is_done (last bs) then texts bs = ws else pending line_done 20 ws (texts bs) st)"

fun cs_told :: "string list \<Rightarrow> cs_cpc \<Rightarrow> cbuf \<Rightarrow> cbuf list \<Rightarrow> istream \<Rightarrow> bool" where
  "cs_told ws X_get b ss st \<longleftrightarrow> pending line_done 20 ws (texts ss) st"
| "cs_told ws X_write b ss st \<longleftrightarrow> cs_wrote ws (ss @ [b]) st"
| "cs_told ws X_close b ss st \<longleftrightarrow> texts ss = ws"
| "cs_told ws X_done b ss st \<longleftrightarrow> texts ss = ws"
| "cs_told ws _ b ss st \<longleftrightarrow> cs_wrote ws ss st"

definition cs_live :: "string list \<Rightarrow> cs_state \<Rightarrow> bool" where
  "cs_live ws s \<longleftrightarrow> cs_inv s \<and> cs_told ws (xcpc s) (xmsg s) (xsent s) (xcinp s)"

fun cs_client_work :: "cs_cpc \<Rightarrow> cbuf \<Rightarrow> nat \<Rightarrow> nat" where
  "cs_client_work X_get b k = 5 * k + 1"
| "cs_client_work X_write b k = (if is_done b then 5 else 5 * k + 5)"
| "cs_client_work X_read b k = (if is_done b then 4 else 5 * k + 4)"
| "cs_client_work X_show b k = (if is_done b then 3 else 5 * k + 3)"
| "cs_client_work X_test b k = (if is_done b then 2 else 5 * k + 2)"
| "cs_client_work X_close b k = 1"
| "cs_client_work _ b k = 0"

fun cs_server_work :: "sock_spc \<Rightarrow> nat \<Rightarrow> nat" where
  "cs_server_work S_read k = 3 * k + 2" | "cs_server_work S_echo k = 3 * k + 4" | "cs_server_work S_test k = 3 * k + 3"
| "cs_server_work S_close k = 1" | "cs_server_work _ k = 0"

definition cs_work :: "string list \<Rightarrow> cs_state \<Rightarrow> nat" where
  "cs_work ws s =
     cs_client_work (xcpc s) (xmsg s) (length (cin_lines line_done 20 (xcinp s))) + cs_server_work (xspc s) (length ws - length (xgot s))"

lemma cs_wrote_prefix: "cs_wrote ws bs st \<Longrightarrow> prefix (texts bs) ws"
  by (auto simp: cs_wrote_def pending_prefix split: if_splits)

lemma cs_told_prefix: "cs_told ws pc b ss st \<Longrightarrow> prefix (texts ss) ws"
  by (cases pc) (auto simp: texts_def dest!: cs_wrote_prefix pending_prefix dest: append_prefixD)

lemma cs_live_client:
  assumes live: "cs_live ws s" and st: "client_run 20 s = Some t"
  shows "cs_live ws t \<and> cs_work ws t < cs_work ws s"
proof -
  from live have inv: "cs_inv s" by (simp add: cs_live_def)
  note inv' = cs_client_inv [OF inv st]
  show ?thesis
  proof (cases "xcpc s")
    case X_get
    obtain b st' where g: "getline 20 (xmsg s) (xcinp s) = (b, st')" by fastforce
    with X_get st have t: "t = s\<lparr>xmsg := b, xcinp := st', xcpc := X_write\<rparr>" by (simp add: client_run_def)
    from X_get live have p: "pending line_done 20 ws (texts (xsent s)) (xcinp s)" by (simp add: cs_live_def)
    show ?thesis
      by (rule pending_next [OF p g])
        (use X_get t inv' in \<open>auto simp: cs_live_def cs_work_def cs_wrote_def texts_def is_done_line split: if_splits\<close>)
  next
    case X_write
    from cs_server_open [OF inv] X_write st have "t = s\<lparr>xc2s := xc2s s @ xmsg s, xsent := xsent s @ [xmsg s], xcpc := X_read\<rparr>"
      by (simp add: client_run_def sock_write_def)
    with X_write live inv' show ?thesis by (simp add: cs_live_def cs_work_def)
  next
    case X_read
    from cs_server_open [OF inv] X_read st obtain m bs where
      "t = s\<lparr>xs2c := bs, xreceived := overwrite m (xreceived s), xreturned := xreturned s @ [m], xcpc := X_show\<rparr>"
      by (auto simp: client_run_def sock_read_def split: if_splits)
    with X_read live inv' show ?thesis by (simp add: cs_live_def cs_work_def)
  next
    case X_show
    with st inv' obtain u where "t = s\<lparr>xshown := xshown s @ [u], xcpc := X_test\<rparr>"
      by (auto simp: client_run_def cs_inv_def split: option.splits)
    with X_show live inv' show ?thesis by (simp add: cs_live_def cs_work_def)
  next
    case X_test
    with st have t: "t = s\<lparr>xcpc := (if \<not> is_done (xmsg s) then X_get else X_close)\<rparr>" by (simp add: client_run_def)
    from X_test inv obtain rs where "xsent s = rs @ [xmsg s]" by (auto simp: cs_inv_def)
    with X_test live inv' t show ?thesis
      by (cases "is_done (xmsg s)") (auto simp: cs_live_def cs_work_def cs_wrote_def)
  next
    case X_close
    with st live inv' show ?thesis by (auto simp: client_run_def cs_live_def cs_work_def)
  qed (use st in \<open>simp_all add: client_run_def\<close>)
qed

lemma cs_live_server:
  assumes live: "cs_live ws s" and st: "server_run 20 s = Some t"
  shows "cs_live ws t \<and> cs_work ws t < cs_work ws s"
proof -
  from live have inv: "cs_inv s" by (simp add: cs_live_def)
  note inv' = cs_server_inv [OF inv st]
  have same: "xcpc t = xcpc s \<and> xmsg t = xmsg s \<and> xcinp t = xcinp s \<and> xsent t = xsent s"
    using st by (auto simp: server_run_def Let_def split: sock_spc.splits option.splits if_splits prod.splits)
  have live': "cs_live ws t" using live inv' same by (simp add: cs_live_def)
  then have "prefix (texts (xsent t)) ws" by (auto simp: cs_live_def intro: cs_told_prefix)
  then have "length (texts (xsent t)) \<le> length ws" by (rule prefix_length_le)
  with cs_counts(1) [OF inv'] have len: "length (xgot t) \<le> length ws" by (simp add: texts_def)
  have "cs_server_work (xspc t) (length ws - length (xgot t)) < cs_server_work (xspc s) (length ws - length (xgot s))"
  proof (cases "xspc s")
    case S_read
    with st cs_client_open [OF inv] have "xspc t = S_echo" "length (xgot t) = Suc (length (xgot s))"
      by (auto simp: server_run_def split: option.splits if_splits)
    with S_read len show ?thesis by simp
  next
    case S_echo
    with st inv' show ?thesis by (auto simp: server_run_def cs_inv_def Let_def split: option.splits if_splits)
  qed (use st in \<open>auto simp: server_run_def\<close>)
  with live' same show ?thesis by (simp add: cs_work_def)
qed

lemma cs_step_live: "cs_live ws s \<Longrightarrow> cs_step a s = Some t \<Longrightarrow> cs_live ws t \<and> cs_work ws t < cs_work ws s"
  using cs_live_client [of ws s t] cs_live_server [of ws s t] by (cases a) (simp_all add: cs_step_def)

lemma cs_terminating:
  assumes "stops line_done 20 inp"
  shows "terminating_system cs_step (cs_start inp) (cs_live (map until_nul (cin_lines line_done 20 inp)))
    (cs_work (map until_nul (cin_lines line_done 20 inp))) cs_over"
proof
  show "cs_live (map until_nul (cin_lines line_done 20 inp)) (cs_start inp)"
    using cs_start_inv [of inp] pending_start [OF assms] by (simp add: cs_live_def) (simp add: cs_start_def texts_def)
next
  fix s
  assume "cs_live (map until_nul (cin_lines line_done 20 inp)) s" and stuck: "\<And>a. cs_step a s = None"
  then have "cs_inv s" by (simp add: cs_live_def)
  from cs_stuck [OF this stuck] show "cs_over s" .
qed (use cs_step_live in blast)+

text \<open>
  C16. The echo round trip of the C++ programs: when the user types lines of at most 19 characters,
  the first of which that starts with done (in any mixture of cases) is the last, then under every
  schedule in which each read finds a whole message if there is one, no run has more than eight steps
  per line and three, and a run that cannot be continued has ended both programs, and both have
  printed exactly these lines, in order. TCP does not promise whole messages: with shorter reads
  the server answers twice, as \<open>echo_short_read\<close> shows for the programs in C.
\<close>

theorem cpp_echo_round_trip:
  assumes "\<forall>w \<in> set ws. short 20 w \<and> \<not> line_done w" and "short 20 v" and "line_done v"
    and "run cs_move sch (cs_start \<lparr>good = True, chars = typed_lines (ws @ [v]) @ rest\<rparr>) = Some s" and "\<forall>a \<in> set sch. 20 \<le> snd a"
  shows "length sch \<le> 8 * length (ws @ [v]) + 3 \<and>
    ((\<forall>a. cs_move a s = None) \<longrightarrow> xcpc s = X_done \<and> xspc s = S_done \<and> xshown s = ws @ [v] \<and> xsshown s = ws @ [v])"
proof (intro conjI impI)
  note r = cs_whole_run [OF assms(4,5)]
  note lines = cin_lines_short [where stop = line_done, OF assms(1-3), of rest]
  have nul: "map until_nul (ws @ [v]) = ws @ [v]" using assms(1,2) by (intro map_until_nul [of _ 20]) auto
  have "stops line_done 20 \<lparr>good = True, chars = typed_lines (ws @ [v]) @ rest\<rparr>" using assms(3) by (simp add: stops_def lines)
  note sys = cs_terminating [OF this, unfolded lines nul]
  show "length sch \<le> 8 * length (ws @ [v]) + 3"
    using terminating_system.run_bounded [OF sys r] lines by (simp add: cs_work_def cs_start_def)
  assume "\<forall>a. cs_move a s = None"
  then have "\<forall>p. cs_step p s = None" by (simp add: cs_step_def)
  with terminating_system.maximal_final [OF sys r] have over: "xcpc s = X_done" "xspc s = S_done"
    by (auto simp: cs_over_def)
  from invariant_system.run_inv [OF terminating_system.axioms(1) [OF sys] r] have live: "cs_live (ws @ [v]) s" .
  then have inv: "cs_inv s" and sent: "texts (xsent s) = ws @ [v]" using over by (simp_all add: cs_live_def)
  note c = cs_counts [OF inv] and t = cs_tracks [OF inv]
  from c over have "xsent s = xgot s" "xechoed s = xreturned s" "length (xechoed s) = length (xgot s)"
    by (auto intro: st.track_all [OF t(1)] st.track_all [OF t(2)])
  moreover from this(3) t(3) have "xechoed s = xgot s" by (auto simp: prefix_def)
  ultimately show "xcpc s = X_done" "xspc s = S_done" "xshown s = ws @ [v]" "xsshown s = ws @ [v]"
    using inv over sent by (simp_all add: cs_inv_def)
qed

section \<open>A long line\<close>

definition cs_mute :: "cs_state \<Rightarrow> bool" where
  "cs_mute s \<longleftrightarrow> cs_inv s \<and> \<not> stops line_done 20 (xcinp s) \<and> \<not> any_done (xsent s) \<and> (xcpc s \<noteq> X_get \<longrightarrow> \<not> is_done (xmsg s))"

lemma is_done_NUL: "\<not> line_done []"
  by code_simp

lemma getline_not_done:
  assumes "\<not> stops line_done 20 st" and "getline 20 buf st = (b, st')"
  shows "\<not> is_done b \<and> \<not> stops line_done 20 st'"
proof (cases "good st")
  case True
  from getline_lines [OF assms(2) True] assms(1) obtain l where "b = overwrite (l @ [NUL]) buf" "\<not> line_done l" "\<not> stops line_done 20 st'"
    by metis
  then show ?thesis by (simp add: is_done_line)
next
  case False
  with assms have "b = overwrite ([] @ [NUL]) buf" "st' = st" by (simp_all add: getline_def)
  with assms(1) show ?thesis unfolding is_done_line [symmetric] using is_done_NUL by (metis is_done_line)
qed

lemma cs_mute_step:
  assumes m: "cs_mute s" and st: "cs_step a s = Some t"
  shows "cs_mute t"
proof -
  from m have inv: "cs_inv s" by (simp add: cs_mute_def)
  note inv' = cs_step_inv [OF inv st]
  show ?thesis
  proof (cases a)
    case Client
    with st have c: "client_run 20 s = Some t" by (simp add: cs_step_def)
    show ?thesis
    proof (cases "xcpc s")
      case X_get
      obtain b st' where g: "getline 20 (xmsg s) (xcinp s) = (b, st')" by fastforce
      with X_get c have "t = s\<lparr>xmsg := b, xcinp := st', xcpc := X_write\<rparr>" by (simp add: client_run_def)
      with getline_not_done [OF _ g] m inv' show ?thesis by (simp add: cs_mute_def)
    next
      case X_write
      with c m inv' show ?thesis by (auto simp: client_run_def cs_mute_def sock_write_def split: if_splits)
    qed (use c m inv' in \<open>auto simp: client_run_def cs_mute_def split: option.splits if_splits\<close>)
  next
    case Server
    with st have "server_run 20 s = Some t" by (simp add: cs_step_def)
    then have "xcpc t = xcpc s \<and> xmsg t = xmsg s \<and> xcinp t = xcinp s \<and> xsent t = xsent s"
      by (auto simp: server_run_def Let_def split: sock_spc.splits option.splits if_splits prod.splits)
    with m inv' show ?thesis by (simp add: cs_mute_def)
  qed
qed

text \<open>
  C17. When \<open>std::cin\<close> fails before any line that starts with done was read, the C++ client and
  server run for ever: under every schedule in which each read finds a whole message if there is one,
  one of the programs can move and neither has ended. The stream fails at the end of the input and at a
  line of 20 or more characters; of the long line the first 19 characters are still read, so it
  is among the lines that must not start with done.
\<close>

theorem cpp_echo_never_ends:
  assumes "\<not> stops line_done 20 inp" and "run cs_move sch (cs_start inp) = Some s" and "\<forall>a \<in> set sch. 20 \<le> snd a"
  shows "(\<exists>p. cs_move (p, 20) s \<noteq> None) \<and> xcpc s \<noteq> X_done \<and> xspc s \<noteq> S_done"
proof -
  from cs_whole_run [OF assms(2,3)] have reach: "reach cs_step (cs_start inp) s" using reach_iff_run by fast
  have "invariant_system cs_step (cs_start inp) cs_mute"
  proof
    show "cs_mute (cs_start inp)"
      using cs_start_inv [of inp] assms(1) by (simp add: cs_mute_def) (simp add: cs_start_def)
  qed (rule cs_mute_step)
  from invariant_system.reach_inv [OF this reach] have m: "cs_mute s" .
  then have inv: "cs_inv s" and n: "\<not> any_done (xsent s)" by (simp_all add: cs_mute_def)
  from st.track_prefix [OF cs_tracks(1) [OF inv]] n sock_prefix_done have "\<not> any_done (xgot s)" by blast
  with inv n have over: "xcpc s \<noteq> X_done" "xspc s \<noteq> S_done" by (auto simp: cs_inv_def)
  then have "\<not> (\<forall>a. cs_step a s = None)" using cs_stuck [OF inv] unfolding cs_over_def by blast
  with over show ?thesis unfolding cs_step_def by blast
qed

section \<open>The two versions\<close>

text \<open>
  For all results of the calls, setting up fails in the C++ programs exactly if it fails in the
  C programs, and otherwise both have the same descriptor.
\<close>

theorem cpp_setup_as_in_c:
  "(\<exists>e. Client_setup fd host conn = Inl e) = (\<exists>m. client_setup fd host conn = Exit m) \<and>
   (\<exists>e. Server_setup fd bound listening client = Inl e) = (\<exists>m. server_setup fd bound listening client = Exit m) \<and>
   (Client_setup fd host conn = Inr c) = (client_setup fd host conn = Go c) \<and>
   (Server_setup fd bound listening client = Inr c) = (server_setup fd bound listening client = Go c)"
  by (simp add: Client_setup_def client_setup_def Server_setup_def server_setup_def Common_create_socket_def create_socket_def
      Client_get_address_def get_address_def Client_connect_def connect_to_server_def Server_bind_def bind_to_server_def report_def
      split: option.splits)

section \<open>A conversation\<close>

definition cs_schedule :: "party list" where
  "cs_schedule =
     [Client, Client, Server, Server, Server, Client, Client, Client, Client, Client, Server, Server, Server, Client, Client, Client,
      Server, Client]"

definition cs_end :: cs_state where
  "cs_end = the (run cs_step cs_schedule (cs_start (cin [''hi'', ''Done''])))"

lemma cs_end_run: "run cs_step cs_schedule (cs_start (cin [''hi'', ''Done''])) = Some cs_end"
  by code_simp

lemma cs_end_points: "xcpc cs_end = X_done" "xspc cs_end = S_done"
  by code_simp+

lemma cs_run_whole: "run cs_move (whole_reads ps) s = run cs_step ps s"
  by (induction ps arbitrary: s) (auto simp: whole_reads_def cs_step_def split: option.splits)

lemma cs_end_moves: "run cs_move (whole_reads cs_schedule) (cs_start (cin [''hi'', ''Done''])) = Some cs_end"
  by (simp add: cs_run_whole cs_end_run)

lemma cs_end_stuck: "cs_move a cs_end = None"
  using cs_end_points by (cases a; cases "fst a") (auto simp: client_run_def server_run_def)

theorem cpp_echo_faithful_witness: "prefix (xreturned cs_end) (xsent cs_end) \<and> cs_over cs_end"
proof -
  have "reach cs_step (cs_start (cin [''hi'', ''Done''])) cs_end" using cs_end_run reach_iff_run by fast
  from cpp_echo_faithful [OF this] cs_end_stuck show ?thesis by (simp add: cs_step_def)
qed

theorem cpp_echo_round_trip_witness: "xshown cs_end = [''hi'', ''Done''] \<and> xsshown cs_end = [''hi'', ''Done'']"
proof -
  have a: "\<forall>w \<in> set [''hi'']. short 20 w \<and> \<not> line_done w" "short 20 ''Done''" "line_done ''Done''"
    by (auto simp: short_def) code_simp+
  from cpp_echo_round_trip [OF a, of "whole_reads cs_schedule" "[]" cs_end] cs_end_moves cs_end_stuck
  show ?thesis by (simp add: cin_def whole_reads_def)
qed

theorem cpp_echo_never_ends_witness: "\<exists>p. cs_move (p, 20) (cs_start (cin [''twenty characters!!!'', ''done''])) \<noteq> None"
proof -
  have "\<not> stops line_done 20 (cin [''twenty characters!!!'', ''done''])" by (simp add: stops_def) code_simp
  from cpp_echo_never_ends [OF this, of "[]"] show ?thesis by simp
qed

end
