(* ===== verification/Shared_Memory.thy ===== *)
theory Shared_Memory
  imports Cstring Posix_Semaphore
begin

text \<open>
  \<^verbatim>\<open>c/ipc/include/shm_type.h\<close> and \<^verbatim>\<open>c/ipc/memory_based/shared_memory/{write,read}.c\<close>: a
  writer that stores the characters of its input one after the other in a mapped file,
  and a reader that prints them from its own mapping of that file, in step by means of
  two named semaphores, until the character 0.

  Names of semaphores and files belong to the kernel and survive a process: a semaphore
  is an object that may have a name, a file has a size and a first page. Access to the
  mapping beyond its bytes (1024 in the C programs), through a failed mapping or of an empty file is the
  fault. Whether the calls for setting up succeed, the working directories and what the
  arrays for the path hold before they are written are parameters (\<open>shm_env\<close>).

  SIGINT may arrive in the writer at any time after its handler is installed, and may
  or may not find it asleep in \<open>sem_wait\<close> or \<open>fgetc\<close>. The fixed messages of the two
  processes are not recorded, except the one with which a process exits.
\<close>

section \<open>The kernel's objects\<close>

record named_sem =
  named :: bool
  obj :: sem_t

datatype which = One | Two

text \<open>A file: its size and the bytes of the page that the first 1024 bytes of it are on. A mapping: the file and how many bytes of it.\<close>

type_synonym shm_file = "nat \<times> cbuf"
type_synonym mapping = "string \<times> nat"

record shm_env =
  sigaction_ok :: bool
  sem_open_ok :: "which \<Rightarrow> bool"
  sem_close_ok :: bool
  cwd_w :: string
  cwd_r :: string
  junk_w :: cbuf
  junk_r :: cbuf
  open_ok :: bool
  mmap_ok_w :: bool
  mmap_ok_r :: bool

datatype 'a call = Undefined | Exits string | Returns 'a

datatype shm_wpc = W_handler | W_one | W_two | W_map | W_hello | W_ready | W_wait | W_store | W_post | W_test
  | W_close | W_done | W_exit string | W_fault

datatype shm_rpc = R_one | R_two | R_map | R_hello | R_wait | R_put | R_post | R_test | R_close | R_done
  | R_exit string | R_fault

text \<open>
  The pointers into the mappings are indices; \<open>wmap\<close> and \<open>rmap\<close> are the files mapped,
  \<open>None\<close> for \<open>MAP_FAILED\<close>. \<open>stored\<close> records what the writer has stored.
\<close>

record shm_state =
  one :: named_sem
  two :: named_sem
  files :: "string \<Rightarrow> shm_file option"
  wpc :: shm_wpc
  wmap :: "mapping option"
  wi :: nat
  running :: bool
  winp :: "char list"
  stored :: "char list"
  rpc :: shm_rpc
  rmap :: "mapping option"
  ri :: nat
  printed :: "char list"

section \<open>Semaphores\<close>

text \<open>\<open>sem_open\<close> with \<open>O_CREAT\<close>: an existing semaphore keeps its value, a new one has the value given.\<close>

definition sem_open_create :: "bool \<Rightarrow> nat \<Rightarrow> named_sem \<Rightarrow> named_sem option" where
  "sem_open_create ok v x =
     (if \<not> ok then None else if named x then Some x else Some \<lparr>named = True, obj = \<lparr>valid = True, val = v\<rparr>\<rparr>)"

fun init_semaphores :: "'b shm_env_scheme \<Rightarrow> which \<Rightarrow> 'a shm_state_scheme \<Rightarrow> ('a shm_state_scheme) call" where
  "init_semaphores e One s =
     (case sem_open_create (sem_open_ok e One) 0 (one s) of
        None \<Rightarrow> Exits ''Error init semaphore one''
      | Some x \<Rightarrow> Returns (s\<lparr>one := x\<rparr>))"
| "init_semaphores e Two s =
     (case sem_open_create (sem_open_ok e Two) 0 (two s) of
        None \<Rightarrow> Exits ''Error init semaphore two''
      | Some x \<Rightarrow> Returns (s\<lparr>two := x\<rparr>))"

fun open_semaphores :: "which \<Rightarrow> 'a shm_state_scheme \<Rightarrow> ('a shm_state_scheme) call" where
  "open_semaphores One s =
     (if named (one s) then Returns s else Exits ''Run ./c_lab07_w first, missing[sem_one]'')"
| "open_semaphores Two s =
     (if named (two s) then Returns s else Exits ''Run ./c_lab07_w first, missing[sem_two]'')"

text \<open>\<open>sem_close\<close> concerns the calling process only; \<open>sem_unlink\<close> takes the names away.\<close>

definition close_semaphores :: "'b shm_env_scheme \<Rightarrow> bool \<Rightarrow> 'a shm_state_scheme \<Rightarrow> ('a shm_state_scheme) call" where
  "close_semaphores e unlink s =
     (if \<not> sem_close_ok e then Exits ''Error closing Semaphore one''
      else if unlink then Returns (s\<lparr>one := (one s)\<lparr>named := False\<rparr>, two := (two s)\<lparr>named := False\<rparr>\<rparr>)
      else Returns s)"

text \<open>The results of \<open>sem_wait\<close> and \<open>sem_post\<close> are ignored.\<close>

definition wait_sem :: "bool \<Rightarrow> named_sem \<Rightarrow> named_sem option" where
  "wait_sem interrupted x = (case sem_wait interrupted (obj x) of None \<Rightarrow> None | Some (r, er, m) \<Rightarrow> Some (x\<lparr>obj := m\<rparr>))"

definition post_sem :: "named_sem \<Rightarrow> named_sem" where
  "post_sem x = (case sem_post (obj x) of (r, er, m) \<Rightarrow> x\<lparr>obj := m\<rparr>)"

section \<open>Mappings\<close>

definition FILENAME :: string where
  "FILENAME = ''/shared_object.txt''"

abbreviation (input) STR_BUF :: nat where "STR_BUF \<equiv> 256"
abbreviation (input) FILE_LEN :: nat where "FILE_LEN \<equiv> 1024"
abbreviation (input) END_CHAR :: char where "END_CHAR \<equiv> CHR ''0''"

definition getcwd :: "cbuf \<Rightarrow> string \<Rightarrow> cbuf" where
  "getcwd buf cwd = (if length cwd < length buf then overwrite (cwd @ [NUL]) buf else buf)"

text \<open>The path both mappings are opened with; \<open>None\<close> if the array does not hold it.\<close>

definition filepath :: "cbuf \<Rightarrow> string \<Rightarrow> cbuf option" where
  "filepath junk cwd = strncat (getcwd junk cwd) FILENAME STR_BUF"

definition create_mapping :: "'b shm_env_scheme \<Rightarrow> 'a shm_state_scheme \<Rightarrow> ('a shm_state_scheme) call" where
  "create_mapping e s =
     (case filepath (junk_w e) (cwd_w e) of
        None \<Rightarrow> Undefined
      | Some b \<Rightarrow>
          (let p = the (c_str b) in
           if \<not> open_ok e then Exits ''Missing File''
           else
             (let fs = (if files s p = None then (files s)(p \<mapsto> (0, replicate FILE_LEN NUL)) else files s)
              in Returns (s\<lparr>files := fs, wmap := (if mmap_ok_w e then Some (p, FILE_LEN) else None)\<rparr>))))"

definition open_mapping :: "'b shm_env_scheme \<Rightarrow> 'a shm_state_scheme \<Rightarrow> ('a shm_state_scheme) call" where
  "open_mapping e s =
     (case filepath (junk_r e) (cwd_r e) of
        None \<Rightarrow> Undefined
      | Some b \<Rightarrow>
          (let p = the (c_str b) in
           if files s p = None then Exits ''Missing file''
           else Returns (s\<lparr>rmap := (if mmap_ok_r e then Some (p, FILE_LEN) else None)\<rparr>)))"

definition mapped :: "mapping option \<Rightarrow> nat \<Rightarrow> (string \<Rightarrow> shm_file option) \<Rightarrow> (string \<times> shm_file) option" where
  "mapped m i fs =
     (case m of
        None \<Rightarrow> None
      | Some (p, l) \<Rightarrow> (case fs p of None \<Rightarrow> None | Some (n, page) \<Rightarrow> if 0 < n \<and> i < l then Some (p, n, page) else None))"

definition load :: "mapping option \<Rightarrow> nat \<Rightarrow> (string \<Rightarrow> shm_file option) \<Rightarrow> char option" where
  "load m i fs = (case mapped m i fs of None \<Rightarrow> None | Some (p, n, page) \<Rightarrow> Some (page ! i))"

definition store :: "mapping option \<Rightarrow> nat \<Rightarrow> char \<Rightarrow> (string \<Rightarrow> shm_file option) \<Rightarrow> (string \<Rightarrow> shm_file option) option" where
  "store m i c fs = (case mapped m i fs of None \<Rightarrow> None | Some (p, n, page) \<Rightarrow> Some (fs(p \<mapsto> (n, page[i := c]))))"

section \<open>The loops\<close>

text \<open>\<open>fgetc\<close> returns -1 at the end of the input, which is stored as the byte 255.\<close>

definition fgetc :: "char list \<Rightarrow> char \<times> char list" where
  "fgetc inp = (case inp of [] \<Rightarrow> (CHR 0xFF, []) | c # cs \<Rightarrow> (c, cs))"

text \<open>The body of \<open>write_shared\<close>; the argument of the second says that \<open>fgetc\<close> is interrupted.\<close>

definition store_char :: "bool \<Rightarrow> 'a shm_state_scheme \<Rightarrow> 'a shm_state_scheme" where
  "store_char interrupted s =
     (let (k, rest) = (if interrupted then (CHR 0xFF, winp s) else fgetc (winp s));
          c = (if running s then k else END_CHAR)
      in case store (wmap s) (wi s) c (files s) of
           None \<Rightarrow> s\<lparr>wpc := W_fault\<rparr>
         | Some fs \<Rightarrow> s\<lparr>files := fs, winp := rest, stored := stored s @ [c], wpc := W_post\<rparr>)"

definition write_shared :: "'a shm_state_scheme \<Rightarrow> ('a shm_state_scheme) option" where
  "write_shared s =
     (case wpc s of
        W_wait \<Rightarrow> (case wait_sem False (one s) of None \<Rightarrow> None | Some x \<Rightarrow> Some (s\<lparr>one := x, wpc := W_store\<rparr>))
      | W_store \<Rightarrow> Some (store_char False s)
      | W_post \<Rightarrow> Some (s\<lparr>two := post_sem (two s), wpc := W_test\<rparr>)
      | W_test \<Rightarrow>
          (case load (wmap s) (wi s) (files s) of
             None \<Rightarrow> Some (s\<lparr>wpc := W_fault\<rparr>)
           | Some c \<Rightarrow> Some (s\<lparr>wi := Suc (wi s), wpc := (if c \<noteq> END_CHAR then W_wait else W_close)\<rparr>))
      | _ \<Rightarrow> None)"

definition print_shared :: "'a shm_state_scheme \<Rightarrow> ('a shm_state_scheme) option" where
  "print_shared s =
     (case rpc s of
        R_wait \<Rightarrow> (case wait_sem False (two s) of None \<Rightarrow> None | Some x \<Rightarrow> Some (s\<lparr>two := x, rpc := R_put\<rparr>))
      | R_put \<Rightarrow>
          (case load (rmap s) (ri s) (files s) of
             None \<Rightarrow> Some (s\<lparr>rpc := R_fault\<rparr>)
           | Some c \<Rightarrow> Some (s\<lparr>printed := printed s @ [c], rpc := R_post\<rparr>))
      | R_post \<Rightarrow> Some (s\<lparr>one := post_sem (one s), rpc := R_test\<rparr>)
      | R_test \<Rightarrow>
          (case load (rmap s) (ri s) (files s) of
             None \<Rightarrow> Some (s\<lparr>rpc := R_fault\<rparr>)
           | Some c \<Rightarrow> Some (s\<lparr>ri := Suc (ri s), rpc := (if c \<noteq> END_CHAR then R_wait else R_close)\<rparr>))
      | _ \<Rightarrow> None)"

section \<open>The processes\<close>

definition w_call :: "shm_wpc \<Rightarrow> 'a shm_state_scheme \<Rightarrow> ('a shm_state_scheme) call \<Rightarrow> ('a shm_state_scheme) option" where
  "w_call next s r =
     (case r of
        Undefined \<Rightarrow> Some (s\<lparr>wpc := W_fault\<rparr>)
      | Exits m \<Rightarrow> Some (s\<lparr>wpc := W_exit m\<rparr>)
      | Returns t \<Rightarrow> Some (t\<lparr>wpc := next\<rparr>))"

definition r_call :: "shm_rpc \<Rightarrow> 'a shm_state_scheme \<Rightarrow> ('a shm_state_scheme) call \<Rightarrow> ('a shm_state_scheme) option" where
  "r_call next s r =
     (case r of
        Undefined \<Rightarrow> Some (s\<lparr>rpc := R_fault\<rparr>)
      | Exits m \<Rightarrow> Some (s\<lparr>rpc := R_exit m\<rparr>)
      | Returns t \<Rightarrow> Some (t\<lparr>rpc := next\<rparr>))"

definition shm_write_main :: "'b shm_env_scheme \<Rightarrow> 'a shm_state_scheme \<Rightarrow> ('a shm_state_scheme) option" where
  "shm_write_main e s =
     (case wpc s of
        W_handler \<Rightarrow> w_call W_one s (if sigaction_ok e then Returns s else Exits ''Can't map the handler'')
      | W_one \<Rightarrow> w_call W_two s (init_semaphores e One s)
      | W_two \<Rightarrow> w_call W_map s (init_semaphores e Two s)
      | W_map \<Rightarrow> w_call W_hello s (create_mapping e s)
      | W_hello \<Rightarrow> (case wait_sem False (one s) of None \<Rightarrow> None | Some x \<Rightarrow> Some (s\<lparr>one := x, wpc := W_ready\<rparr>))
      | W_ready \<Rightarrow> Some (s\<lparr>one := post_sem (one s), wpc := W_wait\<rparr>)
      | W_close \<Rightarrow> w_call W_done s (close_semaphores e True s)
      | _ \<Rightarrow> write_shared s)"

definition shm_read_main :: "'b shm_env_scheme \<Rightarrow> 'a shm_state_scheme \<Rightarrow> ('a shm_state_scheme) option" where
  "shm_read_main e s =
     (case rpc s of
        R_one \<Rightarrow> r_call R_two s (open_semaphores One s)
      | R_two \<Rightarrow> r_call R_map s (open_semaphores Two s)
      | R_map \<Rightarrow> r_call R_hello s (open_mapping e s)
      | R_hello \<Rightarrow> Some (s\<lparr>one := post_sem (one s), rpc := R_wait\<rparr>)
      | R_close \<Rightarrow> r_call R_done s (close_semaphores e False s)
      | _ \<Rightarrow> print_shared s)"

text \<open>
  The handler clears \<open>running\<close>. When the signal finds the writer asleep, the call
  returns: \<open>sem_wait\<close> without having taken a unit, \<open>fgetc\<close> with -1.
\<close>

definition close_write :: "shm_state \<Rightarrow> shm_state option" where
  "close_write s =
     (case wpc s of
        W_handler \<Rightarrow> None | W_done \<Rightarrow> None | W_exit m \<Rightarrow> None | W_fault \<Rightarrow> None
      | _ \<Rightarrow> Some (s\<lparr>running := False\<rparr>))"

definition interrupt_call :: "shm_state \<Rightarrow> shm_state option" where
  "interrupt_call s =
     (case (wpc s, close_write s) of
        (W_hello, Some t) \<Rightarrow> map_option (\<lambda>x. t\<lparr>one := x, wpc := W_ready\<rparr>) (wait_sem True (one t))
      | (W_wait, Some t) \<Rightarrow> map_option (\<lambda>x. t\<lparr>one := x, wpc := W_store\<rparr>) (wait_sem True (one t))
      | (W_store, Some t) \<Rightarrow> Some (store_char True t)
      | _ \<Rightarrow> None)"

datatype shm_actor = Writer | Reader | Sigint | Sigint_in_call

fun shm_step :: "bool \<Rightarrow> shm_env \<Rightarrow> shm_actor \<Rightarrow> shm_state \<Rightarrow> shm_state option" where
  "shm_step sig e Writer s = shm_write_main e s"
| "shm_step sig e Reader s = shm_read_main e s"
| "shm_step sig e Sigint s = (if sig then close_write s else None)"
| "shm_step sig e Sigint_in_call s = (if sig then interrupt_call s else None)"

definition shm_start :: "named_sem \<Rightarrow> named_sem \<Rightarrow> (string \<Rightarrow> shm_file option) \<Rightarrow> char list \<Rightarrow> shm_state" where
  "shm_start n1 n2 fs inp =
     \<lparr>one = n1, two = n2, files = fs, wpc = W_handler, wmap = None, wi = 0, running = True, winp = inp, stored = [],
      rpc = R_one, rmap = None, ri = 0, printed = []\<rparr>"

section \<open>Paths\<close>

lemma filepath_eq:
  assumes "NUL \<notin> set cwd" and "length junk = 256" and "length cwd < 256"
  shows "filepath junk cwd =
    (if length cwd + 18 < 256 then Some (overwrite ((cwd @ FILENAME) @ [NUL]) (getcwd junk cwd)) else None)"
    and "length (getcwd junk cwd) = 256" and "c_str (overwrite ((cwd @ FILENAME) @ [NUL]) b) = Some (cwd @ FILENAME)"
proof -
  have n: "NUL \<notin> set FILENAME" "length FILENAME = 18" by (simp_all add: FILENAME_def)
  have g: "c_str (getcwd junk cwd) = Some cwd" "length (getcwd junk cwd) = 256"
    using assms by (simp_all add: getcwd_def c_str_overwrite)
  then show "filepath junk cwd =
      (if length cwd + 18 < 256 then Some (overwrite ((cwd @ FILENAME) @ [NUL]) (getcwd junk cwd)) else None)"
    using n by (auto simp: filepath_def strncat_def Let_def)
  show "length (getcwd junk cwd) = 256" by (rule g)
  show "c_str (overwrite ((cwd @ FILENAME) @ [NUL]) b) = Some (cwd @ FILENAME)"
    using assms n by (intro c_str_overwrite) simp
qed

text \<open>
  The path of the shared file: in a directory whose name fits into the array, both
  processes compute the directory's name followed by the file's name if there is room for
  it, and otherwise write beyond the array. The bound given to \<open>strncat\<close> is the size of
  the array instead of the room left, so it does not prevent that.
\<close>

theorem filepath_bound:
  assumes "NUL \<notin> set cwd" and "length junk = 256" and "length cwd < 256"
  shows "(length cwd + 18 < 256 \<longrightarrow> (\<exists>b. filepath junk cwd = Some b \<and> length b = 256 \<and> c_str b = Some (cwd @ FILENAME))) \<and>
    (256 \<le> length cwd + 18 \<longrightarrow> filepath junk cwd = None)"
  using filepath_eq [OF assms] by (auto simp: FILENAME_def)

theorem filepath_bound_witness:
  "filepath (replicate 256 NUL) (replicate 238 CHR ''d'') = None \<and>
   (\<exists>b. filepath (replicate 256 NUL) (replicate 237 CHR ''d'') = Some b \<and> c_str b = Some (replicate 237 CHR ''d'' @ FILENAME))"
  using filepath_bound [of "replicate 238 CHR ''d''" "replicate 256 NUL"]
    filepath_bound [of "replicate 237 CHR ''d''" "replicate 256 NUL"] by auto

definition path_of :: "cbuf \<Rightarrow> string \<Rightarrow> string option" where
  "path_of junk cwd = (case filepath junk cwd of None \<Rightarrow> None | Some b \<Rightarrow> c_str b)"

text \<open>Both processes map the file \<open>p\<close>.\<close>

definition reader_maps :: "'b shm_env_scheme \<Rightarrow> string \<Rightarrow> bool" where
  "reader_maps e p \<longleftrightarrow> path_of (junk_r e) (cwd_r e) = Some p \<and> mmap_ok_r e"

definition shm_maps :: "'b shm_env_scheme \<Rightarrow> string \<Rightarrow> bool" where
  "shm_maps e p \<longleftrightarrow> path_of (junk_w e) (cwd_w e) = Some p \<and> mmap_ok_w e \<and> reader_maps e p"

section \<open>The invariant\<close>

fun w_stored :: "shm_wpc \<Rightarrow> nat" where
  "w_stored W_post = 1" | "w_stored W_test = 1" | "w_stored _ = 0"

fun w_posted :: "shm_wpc \<Rightarrow> nat" where
  "w_posted W_test = 1" | "w_posted _ = 0"

fun r_taken :: "shm_rpc \<Rightarrow> nat" where
  "r_taken R_put = 1" | "r_taken R_post = 1" | "r_taken R_test = 1" | "r_taken _ = 0"

fun r_printed :: "shm_rpc \<Rightarrow> nat" where
  "r_printed R_post = 1" | "r_printed R_test = 1" | "r_printed _ = 0"

fun w_opened :: "shm_wpc \<Rightarrow> bool" where
  "w_opened W_handler = False" | "w_opened W_one = False" | "w_opened W_two = False" | "w_opened (W_exit m) = False"
| "w_opened _ = True"

fun w_early :: "shm_wpc \<Rightarrow> bool" where
  "w_early W_handler = True" | "w_early W_one = True" | "w_early W_two = True" | "w_early _ = False"

fun w_mapped :: "shm_wpc \<Rightarrow> bool" where
  "w_mapped W_map = False" | "w_mapped W_fault = False" | "w_mapped pc = w_opened pc"

fun r_opened :: "shm_rpc \<Rightarrow> bool" where
  "r_opened R_one = False" | "r_opened R_two = False" | "r_opened (R_exit m) = False" | "r_opened _ = True"

fun r_mapped :: "shm_rpc \<Rightarrow> bool" where
  "r_mapped R_map = False" | "r_mapped pc = r_opened pc"

text \<open>Where the end character is, as the program counters tell.\<close>

fun w_end :: "nat \<Rightarrow> shm_wpc \<Rightarrow> nat \<Rightarrow> char list \<Rightarrow> bool" where
  "w_end l W_post i st \<longleftrightarrow> True"
| "w_end l W_test i st \<longleftrightarrow> True"
| "w_end l W_close i st \<longleftrightarrow> st \<noteq> [] \<and> last st = END_CHAR"
| "w_end l W_done i st \<longleftrightarrow> st \<noteq> [] \<and> last st = END_CHAR"
| "w_end l (W_exit m) i st \<longleftrightarrow> True"
| "w_end l W_fault i st \<longleftrightarrow> i = l \<and> END_CHAR \<notin> set st"
| "w_end l _ i st \<longleftrightarrow> END_CHAR \<notin> set st"

fun r_end :: "shm_rpc \<Rightarrow> char list \<Rightarrow> bool" where
  "r_end R_close pr \<longleftrightarrow> pr \<noteq> [] \<and> last pr = END_CHAR"
| "r_end R_done pr \<longleftrightarrow> pr \<noteq> [] \<and> last pr = END_CHAR"
| "r_end R_fault pr \<longleftrightarrow> False"
| "r_end R_post pr \<longleftrightarrow> True"
| "r_end R_test pr \<longleftrightarrow> True"
| "r_end (R_exit m) pr \<longleftrightarrow> True"
| "r_end _ pr \<longleftrightarrow> END_CHAR \<notin> set pr"

definition r_ok :: "shm_rpc \<Rightarrow> nat \<Rightarrow> char list \<Rightarrow> char list \<Rightarrow> bool" where
  "r_ok pc i pr st \<longleftrightarrow> pr = take (i + r_printed pc) st \<and> r_end pc pr"

lemma r_ok_more: "r_ok pc i pr st \<Longrightarrow> i + r_printed pc \<le> length st \<Longrightarrow> r_ok pc i pr (st @ xs)"
  by (auto simp: r_ok_def)

definition page_ok :: "nat \<Rightarrow> shm_file option \<Rightarrow> char list \<Rightarrow> bool" where
  "page_ok l f st \<longleftrightarrow>
     (\<exists>n page. f = Some (n, page) \<and> 0 < n \<and> length page = FILE_LEN \<and> l \<le> FILE_LEN \<and> length st \<le> l \<and> take (length st) page = st)"

definition count_ok :: "named_sem \<Rightarrow> nat \<Rightarrow> nat \<Rightarrow> bool" where
  "count_ok x t p \<longleftrightarrow>
     (if valid (obj x) then val (obj x) + t = p else \<not> named x \<and> t = 0 \<and> p = 0)"

text \<open>The reader maps at least what the writer can write.\<close>

definition r_covers :: "nat \<Rightarrow> string \<Rightarrow> mapping option \<Rightarrow> bool" where
  "r_covers l p m \<longleftrightarrow> (\<exists>k \<ge> l. m = Some (p, k))"

definition shm_inv :: "nat \<Rightarrow> string \<Rightarrow> 'a shm_state_scheme \<Rightarrow> bool" where
  "shm_inv l p s \<longleftrightarrow>
     page_ok l (files s p) (stored s) \<and>
     count_ok (two s) (ri s + r_taken (rpc s)) (wi s + w_posted (wpc s)) \<and>
     (w_early (wpc s) \<longrightarrow> \<not> valid (obj (two s))) \<and> (w_opened (wpc s) \<longrightarrow> valid (obj (two s))) \<and> (r_opened (rpc s) \<longrightarrow> valid (obj (two s))) \<and>
     (w_mapped (wpc s) \<longrightarrow> wmap s = Some (p, l)) \<and> (r_mapped (rpc s) \<longrightarrow> r_covers l p (rmap s)) \<and>
     length (stored s) = wi s + w_stored (wpc s) \<and> END_CHAR \<notin> set (butlast (stored s)) \<and>
     w_end l (wpc s) (wi s) (stored s) \<and>
     r_ok (rpc s) (ri s) (printed s) (stored s)"

lemma page_ok_load: "page_ok l (fs p) st \<Longrightarrow> i < length st \<Longrightarrow> l \<le> k \<Longrightarrow> load (Some (p, k)) i fs = Some (st ! i)"
proof -
  assume a: "page_ok l (fs p) st" "i < length st" "l \<le> k"
  then obtain n page where "fs p = Some (n, page)" "0 < n" "length st \<le> l" and t: "take (length st) page = st"
    by (auto simp: page_ok_def)
  moreover have "page ! i = st ! i" using a(2) t by (metis nth_take)
  ultimately show ?thesis using a(2,3) by (simp add: load_def mapped_def)
qed

lemma page_ok_covers: "r_covers l p m \<Longrightarrow> page_ok l (fs p) st \<Longrightarrow> i < length st \<Longrightarrow> load m i fs = Some (st ! i)"
  by (auto simp: r_covers_def intro: page_ok_load)

lemma page_ok_bound: "page_ok l f st \<Longrightarrow> l \<le> FILE_LEN \<and> length st \<le> l"
  by (auto simp: page_ok_def)

lemma page_ok_store:
  assumes "page_ok l (fs p) st"
  shows "if length st < l then \<exists>gs. store (Some (p, l)) (length st) c fs = Some gs \<and> page_ok l (gs p) (st @ [c])
    else store (Some (p, l)) (length st) c fs = None"
  using assms by (auto simp: page_ok_def store_def mapped_def take_Suc_conv_app_nth)

lemma wait_sem_Some:
  "wait_sem False x = Some y \<Longrightarrow> valid (obj x) \<Longrightarrow> 0 < val (obj x) \<and> y = x\<lparr>obj := (obj x)\<lparr>val := val (obj x) - 1\<rparr>\<rparr>"
  by (auto simp: wait_sem_def sem_wait_def split: if_splits)

lemma post_sem_count: "valid (obj x) \<Longrightarrow> int (val (obj x)) < SEM_VALUE_MAX \<Longrightarrow> post_sem x = x\<lparr>obj := (obj x)\<lparr>val := Suc (val (obj x))\<rparr>\<rparr>"
  by (simp add: post_sem_def sem_post_def)

lemma shm_store_inv:
  assumes inv: "shm_inv l p s" and pc: "wpc s = W_store"
  shows "shm_inv l p (store_char b s)"
proof -
  obtain k rest where k: "(if b then (CHR 0xFF, winp s) else fgetc (winp s)) = (k, rest)" by (metis surj_pair)
  define c where "c = (if running s then k else END_CHAR)"
  from inv pc have st: "length (stored s) = wi s" "wmap s = Some (p, l)" "page_ok l (files s p) (stored s)" and "END_CHAR \<notin> set (stored s)"
    by (simp_all add: shm_inv_def)
  show ?thesis
  proof (cases "wi s < l")
    case True
    with page_ok_store [of l "files s" p "stored s" c] st obtain gs where
      gs: "store (Some (p, l)) (wi s) c (files s) = Some gs" "page_ok l (gs p) (stored s @ [c])" by auto
    then have "store_char b s = s\<lparr>files := gs, winp := rest, stored := stored s @ [c], wpc := W_post\<rparr>"
      using st(2) k by (simp add: store_char_def c_def)
    moreover have "ri s + r_printed (rpc s) \<le> length (stored s)"
      using inv pc by (cases "rpc s") (auto simp: shm_inv_def count_ok_def)
    ultimately show ?thesis using inv pc gs \<open>END_CHAR \<notin> set (stored s)\<close> by (auto simp: shm_inv_def intro: r_ok_more)
  next
    case False
    with page_ok_store [of l "files s" p "stored s" c] st have "store (Some (p, l)) (wi s) c (files s) = None" by auto
    then have "store_char b s = s\<lparr>wpc := W_fault\<rparr>" using st(2) k by (simp add: store_char_def c_def)
    moreover have "wi s = l" using False st by (auto simp: page_ok_def)
    ultimately show ?thesis using inv pc by (simp add: shm_inv_def)
  qed
qed

lemma shm_map_writer:
  assumes "shm_maps e p" and "page_ok l (files s p) st" and "create_mapping e s = Returns t"
  shows "t = s\<lparr>wmap := Some (p, FILE_LEN)\<rparr>"
  using assms by (auto simp: shm_maps_def reader_maps_def path_of_def create_mapping_def page_ok_def Let_def split: option.splits if_splits)

lemma shm_map_reader:
  assumes "reader_maps e p" and "page_ok l (files s p) st"
  shows "open_mapping e s = Returns (s\<lparr>rmap := Some (p, FILE_LEN)\<rparr>)"
  using assms by (auto simp: reader_maps_def path_of_def open_mapping_def page_ok_def Let_def split: option.splits)

lemma shm_maps_defined: "shm_maps e p \<Longrightarrow> create_mapping e s \<noteq> Undefined"
  by (auto simp: shm_maps_def path_of_def create_mapping_def Let_def split: option.splits)

lemma shm_init_two:
  assumes "init_semaphores e Two s = Returns t" and "count_ok (two s) a b" and "\<not> valid (obj (two s))"
  shows "\<exists>x. t = s\<lparr>two := x\<rparr> \<and> valid (obj x) \<and> count_ok x a b"
  using assms by (auto simp: sem_open_create_def count_ok_def split: if_splits)

lemma wait_sem_valid: "wait_sem b x = Some y \<Longrightarrow> named y = named x \<and> valid (obj y) = valid (obj x)"
  by (auto simp: wait_sem_def sem_wait_def split: if_splits)

lemma init_one_two [simp]: "init_semaphores e One s = Returns t \<Longrightarrow> \<exists>x. t = s\<lparr>one := x\<rparr>"
  by (auto split: option.splits)

lemma w_call_Some:
  "w_call n s r = Some t \<longleftrightarrow>
     (r = Undefined \<and> t = s\<lparr>wpc := W_fault\<rparr>) \<or> (\<exists>m. r = Exits m \<and> t = s\<lparr>wpc := W_exit m\<rparr>) \<or>
     (\<exists>u. r = Returns u \<and> t = u\<lparr>wpc := n\<rparr>)"
  by (auto simp: w_call_def split: call.splits)

lemma r_call_Some:
  "r_call n s r = Some t \<longleftrightarrow>
     (r = Undefined \<and> t = s\<lparr>rpc := R_fault\<rparr>) \<or> (\<exists>m. r = Exits m \<and> t = s\<lparr>rpc := R_exit m\<rparr>) \<or>
     (\<exists>u. r = Returns u \<and> t = u\<lparr>rpc := n\<rparr>)"
  by (auto simp: r_call_def split: call.splits)

lemma init_defined [simp]: "init_semaphores e w s \<noteq> Undefined"
  by (cases w) (auto split: option.splits)

lemma open_cases: "open_semaphores w s = Returns t \<Longrightarrow> t = s" "open_semaphores w s \<noteq> Undefined"
  by (cases w; auto split: if_splits)+

lemma open_two: "open_semaphores Two s = Returns t \<Longrightarrow> named (two s)"
  by (auto split: if_splits)

lemma close_cases:
  "close_semaphores e u s = Returns t \<Longrightarrow> t = (if u then s\<lparr>one := (one s)\<lparr>named := False\<rparr>, two := (two s)\<lparr>named := False\<rparr>\<rparr> else s)"
  "close_semaphores e u s \<noteq> Undefined"
  by (auto simp: close_semaphores_def split: if_splits)

lemma count_ok_unlink [simp]: "count_ok x a b \<Longrightarrow> count_ok (x\<lparr>named := False\<rparr>) a b"
  by (simp add: count_ok_def split: if_splits)

lemma write_shared_inv:
  assumes inv: "shm_inv l p s" and st: "write_shared s = Some t"
  shows "shm_inv l p t"
proof (cases "wpc s")
  case W_wait
  with inv st show ?thesis by (auto simp: write_shared_def shm_inv_def split: option.splits)
next
  case W_store
  with shm_store_inv [OF inv W_store, of False] st show ?thesis by (simp add: write_shared_def)
next
  case W_post
  with inv have "valid (obj (two s))" "val (obj (two s)) \<le> 1024"
    by (auto simp: shm_inv_def count_ok_def dest: page_ok_bound)
  then have "post_sem (two s) = (two s)\<lparr>obj := (obj (two s))\<lparr>val := Suc (val (obj (two s)))\<rparr>\<rparr>"
    by (intro post_sem_count) (simp_all add: SEM_VALUE_MAX_def)
  with W_post st have t: "t = s\<lparr>two := (two s)\<lparr>obj := (obj (two s))\<lparr>val := Suc (val (obj (two s)))\<rparr>\<rparr>, wpc := W_test\<rparr>"
    by (simp add: write_shared_def)
  from W_post inv have "count_ok (two t) (ri t + r_taken (rpc t)) (wi t + w_posted (wpc t))"
    unfolding t by (simp add: shm_inv_def count_ok_def split: if_splits)
  with W_post inv t show ?thesis by (simp add: shm_inv_def)
next
  case W_test
  with inv have w: "wmap s = Some (p, l)" "page_ok l (files s p) (stored s)" "length (stored s) = Suc (wi s)" by (simp_all add: shm_inv_def)
  then have "load (Some (p, l)) (wi s) (files s) = Some (last (stored s))"
    using page_ok_load [of l "files s" p "stored s" "wi s" l] last_conv_nth [of "stored s"] by (cases "stored s") auto
  with W_test st w have t: "t = s\<lparr>wi := Suc (wi s), wpc := (if last (stored s) \<noteq> END_CHAR then W_wait else W_close)\<rparr>"
    by (simp add: write_shared_def)
  have ne: "stored s \<noteq> []" using w(3) by auto
  have "END_CHAR \<notin> set (butlast (stored s) @ [last (stored s)])" if "last (stored s) \<noteq> END_CHAR"
    using that inv by (simp add: shm_inv_def)
  with ne have "END_CHAR \<notin> set (stored s)" if "last (stored s) \<noteq> END_CHAR" using that by simp
  with W_test inv t w ne show ?thesis
    by (cases "last (stored s) = END_CHAR") (simp_all add: shm_inv_def)
qed (use st in \<open>auto simp: write_shared_def\<close>)

lemma shm_writer_inv:
  assumes good: "shm_maps e p" and inv: "shm_inv FILE_LEN p s" and st: "shm_write_main e s = Some t"
  shows "shm_inv FILE_LEN p t"
proof (cases "wpc s")
  case W_handler
  with inv st show ?thesis by (auto simp: shm_write_main_def shm_inv_def w_call_def split: if_splits)
next
  case W_one
  with inv st show ?thesis
    by (auto simp: shm_write_main_def shm_inv_def w_call_Some simp del: init_semaphores.simps dest!: init_one_two)
next
  case W_two
  with inv have "count_ok (two s) (ri s + r_taken (rpc s)) (wi s)" by (simp add: shm_inv_def)
  moreover from W_two inv have "\<not> valid (obj (two s))" by (simp add: shm_inv_def)
  ultimately show ?thesis using W_two inv st shm_init_two [of e s _ "ri s + r_taken (rpc s)" "wi s"]
    by (auto simp: shm_write_main_def shm_inv_def w_call_Some simp del: init_semaphores.simps)
next
  case W_map
  with inv have "page_ok FILE_LEN (files s p) (stored s)" by (simp add: shm_inv_def)
  then have ret: "t = s\<lparr>wmap := Some (p, FILE_LEN), wpc := W_hello\<rparr>" if "create_mapping e s = Returns u" for u
    using that W_map st shm_map_writer [OF good] by (auto simp: shm_write_main_def w_call_def)
  show ?thesis
  proof (cases "create_mapping e s")
    case Undefined
    with shm_maps_defined [OF good, of s] show ?thesis by simp
  next
    case (Exits m)
    with W_map inv st show ?thesis by (auto simp: shm_write_main_def w_call_def shm_inv_def)
  next
    case (Returns u)
    with ret W_map inv show ?thesis by (simp add: shm_inv_def)
  qed
next
  case W_hello
  with inv st show ?thesis by (auto simp: shm_write_main_def shm_inv_def split: option.splits)
next
  case W_ready
  with inv st show ?thesis by (auto simp: shm_write_main_def shm_inv_def)
next
  case W_close
  with st close_cases [of e True s] have
    "t = s\<lparr>one := (one s)\<lparr>named := False\<rparr>, two := (two s)\<lparr>named := False\<rparr>, wpc := W_done\<rparr> \<or> (\<exists>m. t = s\<lparr>wpc := W_exit m\<rparr>)"
    by (auto simp: shm_write_main_def w_call_Some)
  with W_close inv show ?thesis by (elim disjE exE) (simp_all add: shm_inv_def)
qed (use st write_shared_inv [OF inv] in \<open>simp_all add: shm_write_main_def\<close>)

lemma shm_inv_rpc:
  assumes "shm_inv l p s" and "r_taken pc = r_taken (rpc s)" and "r_printed pc = r_printed (rpc s)"
    and "r_opened pc \<longrightarrow> valid (obj (two s))" and "r_mapped pc \<longrightarrow> r_covers l p (rmap s)" and "r_end pc (printed s)"
  shows "shm_inv l p (s\<lparr>rpc := pc\<rparr>)"
  using assms by (simp add: shm_inv_def r_ok_def)

lemma print_shared_inv:
  assumes inv: "shm_inv l p s" and st: "print_shared s = Some t"
  shows "shm_inv l p t"
proof -
  from inv have r: "r_ok (rpc s) (ri s) (printed s) (stored s)" by (simp add: shm_inv_def)
  from inv have "ri s + r_taken (rpc s) \<le> wi s + w_posted (wpc s)" "length (stored s) = wi s + w_stored (wpc s)"
    by (auto simp: shm_inv_def count_ok_def split: if_splits)
  then have bound: "ri s + r_taken (rpc s) \<le> length (stored s)" by (cases "wpc s") auto
  show ?thesis
  proof (cases "rpc s")
    case R_wait
    with inv have "valid (obj (two s))" by (simp add: shm_inv_def r_ok_def)
    with R_wait inv st wait_sem_Some [of "two s"] show ?thesis
      by (auto simp: print_shared_def shm_inv_def r_ok_def count_ok_def split: option.splits)
  next
    case R_put
    with inv bound page_ok_covers [of l p "rmap s" "files s" "stored s" "ri s"] have
      "load (rmap s) (ri s) (files s) = Some (stored s ! ri s)" by (simp add: shm_inv_def r_ok_def)
    with R_put st have t: "t = s\<lparr>printed := printed s @ [stored s ! ri s], rpc := R_post\<rparr>"
      by (simp add: print_shared_def)
    from R_put r bound have "r_ok R_post (ri s) (printed s @ [stored s ! ri s]) (stored s)"
      by (auto simp: r_ok_def take_Suc_conv_app_nth)
    with R_put inv t show ?thesis by (auto simp: shm_inv_def)
  next
    case R_post
    with inv st show ?thesis by (auto simp: print_shared_def shm_inv_def r_ok_def)
  next
    case R_test
    with inv bound page_ok_covers [of l p "rmap s" "files s" "stored s" "ri s"] have
      l: "load (rmap s) (ri s) (files s) = Some (stored s ! ri s)" by (simp add: shm_inv_def r_ok_def)
    from R_test inv bound have pr: "printed s = take (ri s) (stored s) @ [stored s ! ri s]"
      by (simp add: shm_inv_def r_ok_def take_Suc_conv_app_nth)
    have "set (take (ri s) (stored s)) \<subseteq> set (butlast (stored s))"
      using R_test bound set_take_subset_set_take [of "ri s" "length (stored s) - 1" "stored s"] by (simp add: butlast_conv_take)
    with inv have "END_CHAR \<notin> set (take (ri s) (stored s))" by (auto simp: shm_inv_def r_ok_def)
    with pr have "r_ok R_wait (Suc (ri s)) (printed s) (stored s)" if "stored s ! ri s \<noteq> END_CHAR"
      using that bound R_test by (auto simp: r_ok_def take_Suc_conv_app_nth)
    moreover have "r_ok R_close (Suc (ri s)) (printed s) (stored s)" if "stored s ! ri s = END_CHAR"
      using that bound R_test pr by (auto simp: r_ok_def take_Suc_conv_app_nth)
    moreover have "t = s\<lparr>ri := Suc (ri s), rpc := (if stored s ! ri s \<noteq> END_CHAR then R_wait else R_close)\<rparr>"
      using R_test st l by (simp add: print_shared_def)
    ultimately show ?thesis using R_test inv
      by (cases "stored s ! ri s = END_CHAR") (auto simp: shm_inv_def)
  qed (use st in \<open>auto simp: print_shared_def\<close>)
qed

lemma shm_reader_inv:
  assumes good: "reader_maps e p" and inv: "shm_inv l p s" and st: "shm_read_main e s = Some t"
  shows "shm_inv l p t"
proof -
  from inv have r: "r_ok (rpc s) (ri s) (printed s) (stored s)" by (simp add: shm_inv_def)
  show ?thesis
  proof (cases "rpc s")
    case R_one
    with st open_cases [of One s] have "t = s\<lparr>rpc := R_two\<rparr> \<or> (\<exists>m. t = s\<lparr>rpc := R_exit m\<rparr>)"
      by (auto simp: shm_read_main_def r_call_Some simp del: open_semaphores.simps)
    with R_one inv r show ?thesis by (auto intro!: shm_inv_rpc simp: r_ok_def)
  next
    case R_two
    with st open_cases [of Two s] open_two [of s] have
      "t = s\<lparr>rpc := R_map\<rparr> \<and> named (two s) \<or> (\<exists>m. t = s\<lparr>rpc := R_exit m\<rparr>)"
      by (auto simp: shm_read_main_def r_call_Some simp del: open_semaphores.simps)
    moreover have "named (two s) \<longrightarrow> valid (obj (two s))" using inv by (simp add: shm_inv_def count_ok_def split: if_splits)
    ultimately show ?thesis using R_two inv r by (auto intro!: shm_inv_rpc simp: r_ok_def)
  next
    case R_map
    with inv have ok: "page_ok l (files s p) (stored s)" by (simp add: shm_inv_def r_ok_def)
    from shm_map_reader [OF good this] R_map inv st page_ok_bound [OF ok] show ?thesis
      by (auto simp: shm_read_main_def shm_inv_def r_ok_def r_covers_def r_call_Some)
  next
    case R_hello
    with inv st show ?thesis by (auto simp: shm_read_main_def shm_inv_def r_ok_def)
  next
    case R_close
    with inv st close_cases [of e False s] show ?thesis
      by (auto simp: shm_read_main_def shm_inv_def r_ok_def r_call_Some)
  qed (use st print_shared_inv [OF inv] in \<open>simp_all add: shm_read_main_def\<close>)
qed

lemma close_write_Some: "close_write s = Some t \<Longrightarrow> t = s\<lparr>running := False\<rparr>"
  by (auto simp: close_write_def split: shm_wpc.splits)

lemma shm_signal_inv: "shm_inv l p s \<Longrightarrow> close_write s = Some t \<Longrightarrow> shm_inv l p t \<and> wpc t = wpc s"
  by (drule close_write_Some) (simp add: shm_inv_def)

lemma shm_interrupt_inv:
  assumes inv: "shm_inv l p s" and st: "interrupt_call s = Some t"
  shows "shm_inv l p t"
proof -
  from st obtain u where u: "close_write s = Some u" by (auto simp: interrupt_call_def split: option.splits prod.splits shm_wpc.splits)
  from shm_signal_inv [OF inv this] have i: "shm_inv l p u" and w: "wpc u = wpc s" by auto
  show ?thesis
  proof (cases "wpc s")
    case W_hello
    with st u obtain x where "t = u\<lparr>one := x, wpc := W_ready\<rparr>" by (auto simp: interrupt_call_def)
    with W_hello i w show ?thesis by (simp add: shm_inv_def)
  next
    case W_wait
    with st u obtain x where "t = u\<lparr>one := x, wpc := W_store\<rparr>" by (auto simp: interrupt_call_def)
    with W_wait i w show ?thesis by (simp add: shm_inv_def)
  next
    case W_store
    with st u shm_store_inv [OF i, of True] w show ?thesis by (simp add: interrupt_call_def)
  qed (use st u in \<open>simp_all add: interrupt_call_def\<close>)
qed

lemma shm_maps_reader: "shm_maps e p \<Longrightarrow> reader_maps e p"
  by (simp add: shm_maps_def)

lemma shm_step_inv: "shm_maps e p \<Longrightarrow> shm_inv FILE_LEN p s \<Longrightarrow> shm_step sig e a s = Some t \<Longrightarrow> shm_inv FILE_LEN p t"
  by (cases a) (auto intro: shm_writer_inv shm_reader_inv shm_interrupt_inv shm_maps_reader dest: shm_signal_inv split: if_splits)

text \<open>
  The start: the second semaphore has no name, the file exists and is not empty. The
  first semaphore may be left over from an earlier run.
\<close>

definition no_sem :: named_sem where
  "no_sem = \<lparr>named = False, obj = \<lparr>valid = False, val = 0\<rparr>\<rparr>"

definition file_ok :: "shm_file option \<Rightarrow> bool" where
  "file_ok f \<longleftrightarrow> (case f of None \<Rightarrow> False | Some (n, page) \<Rightarrow> 0 < n \<and> length page = FILE_LEN)"

lemma shm_start_inv: "file_ok (fs p) \<Longrightarrow> l \<le> FILE_LEN \<Longrightarrow> shm_inv l p (shm_start n1 no_sem fs inp)"
  by (auto simp: shm_inv_def shm_start_def no_sem_def count_ok_def page_ok_def r_ok_def file_ok_def split: option.splits)

lemma shm_invariant:
  "shm_maps e p \<Longrightarrow> file_ok (fs p) \<Longrightarrow> invariant_system (shm_step sig e) (shm_start n1 no_sem fs inp) (shm_inv FILE_LEN p)"
  by unfold_locales (auto intro: shm_step_inv shm_start_inv)

lemma shm_done_all:
  assumes "shm_inv l p s" and "rpc s = R_close \<or> rpc s = R_done"
  shows "printed s = stored s \<and> stored s \<noteq> [] \<and> last (stored s) = END_CHAR"
proof -
  from assms(1) have "r_ok (rpc s) (ri s) (printed s) (stored s)" and nb: "END_CHAR \<notin> set (butlast (stored s))"
    by (simp_all add: shm_inv_def)
  with assms(2) have pr: "printed s = take (ri s) (stored s)" "printed s \<noteq> []" "last (printed s) = END_CHAR"
    by (auto simp: r_ok_def)
  have "\<not> ri s < length (stored s)"
  proof
    assume "ri s < length (stored s)"
    then have "set (printed s) \<subseteq> set (butlast (stored s))"
      using pr(1) set_take_subset_set_take [of "ri s" "length (stored s) - 1" "stored s"] by (simp add: butlast_conv_take)
    with nb pr last_in_set [of "printed s"] show False by auto
  qed
  with pr show ?thesis by auto
qed

section \<open>Properties\<close>

text \<open>
  C36. The reader prints what the writer stored: for every interleaving, every input and
  whatever signals arrive, and even if the first semaphore is left over with any value,
  the reader never faults, what it has printed is a prefix of what the writer has stored,
  and it is done only when it has printed everything including the final 0. The writer
  stores nothing after a 0, and it faults only when it has filled the 1024 bytes without
  storing one.
\<close>

theorem shm_prints_what_was_stored:
  assumes "shm_maps e p" and "file_ok (fs p)" and "reach (shm_step sig e) (shm_start n1 no_sem fs inp) s"
  shows "rpc s \<noteq> R_fault \<and> prefix (printed s) (stored s) \<and> END_CHAR \<notin> set (butlast (stored s)) \<and>
    (rpc s = R_done \<longrightarrow> printed s = stored s \<and> stored s \<noteq> [] \<and> last (stored s) = END_CHAR) \<and>
    (wpc s = W_fault \<longrightarrow> length (stored s) = 1024 \<and> END_CHAR \<notin> set (stored s))"
proof -
  from invariant_system.reach_inv [OF shm_invariant, OF assms] have inv: "shm_inv FILE_LEN p s" .
  then have "rpc s \<noteq> R_fault" "prefix (printed s) (stored s)" "END_CHAR \<notin> set (butlast (stored s))"
    "wpc s = W_fault \<longrightarrow> length (stored s) = 1024 \<and> END_CHAR \<notin> set (stored s)"
    by (auto simp: shm_inv_def r_ok_def take_is_prefix)
  with shm_done_all [OF inv] show ?thesis by blast
qed

section \<open>Both processes finish\<close>

fun w_helloed :: "shm_wpc \<Rightarrow> nat" where
  "w_helloed W_hello = 0" | "w_helloed pc = (if w_mapped pc then 1 else 0)"

fun w_readied :: "shm_wpc \<Rightarrow> nat" where
  "w_readied W_ready = 0" | "w_readied pc = w_helloed pc"

fun w_waited :: "shm_wpc \<Rightarrow> nat" where
  "w_waited W_store = 1" | "w_waited W_post = 1" | "w_waited W_test = 1" | "w_waited _ = 0"

fun r_helloed :: "shm_rpc \<Rightarrow> nat" where
  "r_helloed R_hello = 0" | "r_helloed pc = (if r_mapped pc then 1 else 0)"

fun r_posted :: "shm_rpc \<Rightarrow> nat" where
  "r_posted R_test = 1" | "r_posted _ = 0"

definition shm_reader_ready :: "'b shm_env_scheme \<Rightarrow> string \<Rightarrow> bool" where
  "shm_reader_ready e p \<longleftrightarrow> reader_maps e p \<and> sem_close_ok e"

definition shm_ready :: "'b shm_env_scheme \<Rightarrow> string \<Rightarrow> bool" where
  "shm_ready e p \<longleftrightarrow>
     shm_maps e p \<and> sigaction_ok e \<and> sem_open_ok e One \<and> sem_open_ok e Two \<and> sem_close_ok e \<and> open_ok e"

lemma shm_ready_reader: "shm_ready e p \<Longrightarrow> shm_reader_ready e p"
  by (simp add: shm_ready_def shm_reader_ready_def shm_maps_def)

definition shm_live :: "nat \<Rightarrow> string \<Rightarrow> char list \<Rightarrow> char list \<Rightarrow> 'a shm_state_scheme \<Rightarrow> bool" where
  "shm_live l p txt rest s \<longleftrightarrow>
     shm_inv l p s \<and> running s \<and> stored s @ winp s = txt @ END_CHAR # rest \<and>
     count_ok (one s) (w_helloed (wpc s) + wi s + w_waited (wpc s)) (r_helloed (rpc s) + w_readied (wpc s) + ri s + r_posted (rpc s)) \<and>
     (wpc s = W_handler \<or> wpc s = W_one \<longrightarrow> \<not> valid (obj (one s))) \<and>
     (wpc s = W_handler \<or> wpc s = W_one \<or> valid (obj (one s))) \<and>
     wpc s \<noteq> W_fault \<and> (\<forall>m. wpc s \<noteq> W_exit m) \<and>
     (w_readied (wpc s) = 0 \<longrightarrow> wi s = 0) \<and> (r_helloed (rpc s) = 0 \<longrightarrow> ri s = 0)"

fun w_work :: "shm_wpc \<Rightarrow> nat \<Rightarrow> nat" where
  "w_work W_handler k = 4 * k + 7" | "w_work W_one k = 4 * k + 6" | "w_work W_two k = 4 * k + 5"
| "w_work W_map k = 4 * k + 4" | "w_work W_hello k = 4 * k + 3" | "w_work W_ready k = 4 * k + 2"
| "w_work W_wait k = 4 * k + 1" | "w_work W_store k = 4 * k" | "w_work W_post k = 4 * k - 1"
| "w_work W_test k = 4 * k - 2" | "w_work W_close k = 1" | "w_work _ k = 0"

fun r_work :: "shm_rpc \<Rightarrow> nat \<Rightarrow> nat" where
  "r_work R_one k = 4 * k + 5" | "r_work R_two k = 4 * k + 4" | "r_work R_map k = 4 * k + 3"
| "r_work R_hello k = 4 * k + 2" | "r_work R_wait k = 4 * k + 1" | "r_work R_put k = 4 * k"
| "r_work R_post k = 4 * k - 1" | "r_work R_test k = 4 * k - 2" | "r_work R_close k = 1" | "r_work _ k = 0"

definition shm_work :: "char list \<Rightarrow> 'a shm_state_scheme \<Rightarrow> nat" where
  "shm_work txt s = w_work (wpc s) (Suc (length txt) - wi s) + r_work (rpc s) (Suc (length txt) - ri s)"

text \<open>How much of the input has been stored.\<close>

lemma stored_prefix:
  assumes "st @ inp = txt @ END_CHAR # rest" and "END_CHAR \<notin> set txt" and "END_CHAR \<notin> set (butlast st)"
  shows "length st \<le> Suc (length txt) \<and> (END_CHAR \<in> set st \<longleftrightarrow> st = txt @ [END_CHAR]) \<and>
    (END_CHAR \<notin> set st \<longrightarrow> length st \<le> length txt)"
proof -
  consider (short) us where "txt = st @ us" | (all) us where "st = txt @ END_CHAR # us"
    using assms(1) by (auto simp: append_eq_append_conv2 append_eq_Cons_conv)
  then show ?thesis
  proof cases
    case short
    with assms show ?thesis by auto
  next
    case all
    with assms(3) have "us = []" by (cases us rule: rev_cases) (auto simp: butlast_append)
    with all show ?thesis by simp
  qed
qed

lemma shm_inv_end: "shm_inv l p s \<Longrightarrow> w_end l (wpc s) (wi s) (stored s)"
  by (simp add: shm_inv_def)

lemma shm_live_stored:
  assumes "shm_live l p txt rest s" and "END_CHAR \<notin> set txt"
  shows "length (stored s) \<le> Suc (length txt) \<and> (END_CHAR \<in> set (stored s) \<longleftrightarrow> stored s = txt @ [END_CHAR]) \<and>
    (END_CHAR \<notin> set (stored s) \<longrightarrow> length (stored s) \<le> length txt)"
  using assms stored_prefix [of "stored s" "winp s" "txt" rest] by (auto simp: shm_live_def shm_inv_def)

lemma shm_live_counts:
  assumes "shm_live l p txt rest s"
  shows "length (stored s) = wi s + w_stored (wpc s)" "ri s + r_taken (rpc s) \<le> wi s + w_posted (wpc s)"
    "wi s + w_stored (wpc s) \<le> FILE_LEN"
proof -
  from assms have "shm_inv l p s" by (simp add: shm_live_def)
  then have c: "length (stored s) = wi s + w_stored (wpc s)" "page_ok l (files s p) (stored s)"
    "count_ok (two s) (ri s + r_taken (rpc s)) (wi s + w_posted (wpc s))" by (simp_all add: shm_inv_def)
  show "length (stored s) = wi s + w_stored (wpc s)" by (rule c)
  show "ri s + r_taken (rpc s) \<le> wi s + w_posted (wpc s)" using c(3) by (auto simp: count_ok_def split: if_splits)
  show "wi s + w_stored (wpc s) \<le> FILE_LEN" using c(1,2) by (auto simp: page_ok_def)
qed

lemma shm_post_one:
  assumes "shm_live l p txt rest s" and "valid (obj (one s))"
  shows "post_sem (one s) = (one s)\<lparr>obj := (obj (one s))\<lparr>val := Suc (val (obj (one s)))\<rparr>\<rparr>"
proof (rule post_sem_count [OF assms(2)])
  have h: "r_helloed (rpc s) \<le> 1" "w_readied (wpc s) \<le> 1" "r_posted (rpc s) \<le> 1" "w_posted (wpc s) \<le> w_stored (wpc s)"
    by (cases "rpc s"; cases "wpc s"; simp)+
  have "val (obj (one s)) \<le> r_helloed (rpc s) + w_readied (wpc s) + ri s + r_posted (rpc s)"
    using assms by (auto simp: shm_live_def count_ok_def)
  with shm_live_counts [OF assms(1)] h have "val (obj (one s)) \<le> 1027" by linarith
  then show "int (val (obj (one s))) < SEM_VALUE_MAX" by (simp add: SEM_VALUE_MAX_def)
qed

lemma write_shared_live:
  assumes live: "shm_live l p txt rest s" and tx: "END_CHAR \<notin> set txt" "length txt < l"
    and st: "write_shared s = Some t"
  shows "shm_live l p txt rest t \<and> shm_work txt t < shm_work txt s"
proof -
  from live have inv: "shm_inv l p s" by (simp add: shm_live_def)
  note inv' = write_shared_inv [OF inv st]
  note bound = shm_live_stored [OF live tx(1)]
  show ?thesis
  proof (cases "wpc s")
    case W_wait
    with live have v: "valid (obj (one s))" by (auto simp: shm_live_def)
    with W_wait st wait_sem_Some [of "one s"] have
      "t = s\<lparr>one := (one s)\<lparr>obj := (obj (one s))\<lparr>val := val (obj (one s)) - 1\<rparr>\<rparr>, wpc := W_store\<rparr>" "0 < val (obj (one s))"
      by (auto simp: write_shared_def split: option.splits)
    with v W_wait live inv' show ?thesis by (auto simp: shm_live_def shm_work_def count_ok_def)
  next
    case W_store
    with inv bound tx have len: "length (stored s) = wi s" "wi s \<le> length txt" "END_CHAR \<notin> set (stored s)" by (auto simp: shm_inv_def)
    from live obtain c cs where w: "winp s = c # cs" and r: "running s"
      using len(3) by (cases "winp s") (auto simp: shm_live_def)
    from page_ok_store [of l "files s" p "stored s" c] W_store inv len tx obtain gs where
      "store (wmap s) (wi s) c (files s) = Some gs" by (auto simp: shm_inv_def)
    with W_store st w r have "t = s\<lparr>files := gs, winp := cs, stored := stored s @ [c], wpc := W_post\<rparr>"
      by (simp add: write_shared_def store_char_def fgetc_def)
    with W_store live inv' w len show ?thesis by (auto simp: shm_live_def shm_work_def)
  next
    case W_post
    with st have t: "t = s\<lparr>two := post_sem (two s), wpc := W_test\<rparr>" by (simp add: write_shared_def)
    have "wi s \<le> length txt" using bound W_post inv by (auto simp: shm_inv_def)
    with t W_post live inv' show ?thesis by (auto simp: shm_live_def shm_work_def)
  next
    case W_test
    with st obtain c where "t = s\<lparr>wi := Suc (wi s), wpc := (if c \<noteq> END_CHAR then W_wait else W_close)\<rparr> \<or> t = s\<lparr>wpc := W_fault\<rparr>"
      by (auto simp: write_shared_def split: option.splits)
    moreover have le: "wi s \<le> length txt" "wi s < l" using bound W_test inv tx by (auto simp: shm_inv_def)
    ultimately have "t = s\<lparr>wi := Suc (wi s), wpc := (if c \<noteq> END_CHAR then W_wait else W_close)\<rparr>"
      using shm_inv_end [OF inv'] by auto
    with le W_test live inv' show ?thesis by (cases "c = END_CHAR") (auto simp: shm_live_def shm_work_def)
  qed (use st live in \<open>auto simp: write_shared_def shm_live_def\<close>)
qed

lemma shm_live_writer:
  assumes live: "shm_live FILE_LEN p txt rest s" and good: "shm_ready e p" and tx: "END_CHAR \<notin> set txt" "length txt < FILE_LEN"
    and st: "shm_write_main e s = Some t"
  shows "shm_live FILE_LEN p txt rest t \<and> shm_work txt t < shm_work txt s"
proof -
  from good have maps: "shm_maps e p" by (simp add: shm_ready_def)
  from live have inv: "shm_inv FILE_LEN p s" by (simp add: shm_live_def)
  note inv' = shm_writer_inv [OF maps inv st]
  show ?thesis
  proof (cases "wpc s")
    case W_handler
    with good st have "t = s\<lparr>wpc := W_one\<rparr>" by (auto simp: shm_write_main_def shm_ready_def w_call_def)
    with W_handler live inv' show ?thesis by (auto simp: shm_live_def shm_work_def)
  next
    case W_one
    with live have "\<not> valid (obj (one s))" "\<not> named (one s)" by (auto simp: shm_live_def count_ok_def)
    with W_one good st have "t = s\<lparr>one := \<lparr>named = True, obj = \<lparr>valid = True, val = 0\<rparr>\<rparr>, wpc := W_two\<rparr>"
      by (auto simp: shm_write_main_def shm_ready_def w_call_def sem_open_create_def)
    with W_one live inv' show ?thesis by (auto simp: shm_live_def shm_work_def count_ok_def)
  next
    case W_two
    with inv have "\<not> named (two s)" by (simp add: shm_inv_def count_ok_def)
    with W_two good st obtain x where "t = s\<lparr>two := x, wpc := W_map\<rparr>"
      by (auto simp: shm_write_main_def shm_ready_def w_call_def sem_open_create_def split: if_splits)
    with W_two live inv' show ?thesis by (auto simp: shm_live_def shm_work_def)
  next
    case W_map
    from inv have "page_ok FILE_LEN (files s p) (stored s)" by (simp add: shm_inv_def)
    moreover have "create_mapping e s \<noteq> Undefined" by (rule shm_maps_defined [OF maps])
    moreover have "create_mapping e s \<noteq> Exits m" for m
      using good by (auto simp: create_mapping_def shm_ready_def Let_def split: option.splits)
    ultimately have "t = s\<lparr>wmap := Some (p, FILE_LEN), wpc := W_hello\<rparr>"
      using W_map st shm_map_writer [OF maps, of FILE_LEN s "stored s"] by (auto simp: shm_write_main_def w_call_Some)
    with W_map live inv' show ?thesis by (auto simp: shm_live_def shm_work_def)
  next
    case W_hello
    with live have v: "valid (obj (one s))" by (auto simp: shm_live_def)
    with W_hello st wait_sem_Some [of "one s"] have
      t: "t = s\<lparr>one := (one s)\<lparr>obj := (obj (one s))\<lparr>val := val (obj (one s)) - 1\<rparr>\<rparr>, wpc := W_ready\<rparr>" "0 < val (obj (one s))"
      by (auto simp: shm_write_main_def split: option.splits)
    have "ri s = 0" "r_posted (rpc s) = 0" using shm_live_counts [OF live] W_hello live
      by (cases "rpc s"; simp add: shm_live_def)+
    with t v W_hello live inv' show ?thesis by (auto simp: shm_live_def shm_work_def count_ok_def)
  next
    case W_ready
    with live have v: "valid (obj (one s))" by (auto simp: shm_live_def)
    with W_ready st shm_post_one [OF live v] have
      "t = s\<lparr>one := (one s)\<lparr>obj := (obj (one s))\<lparr>val := Suc (val (obj (one s)))\<rparr>\<rparr>, wpc := W_wait\<rparr>"
      by (simp add: shm_write_main_def)
    with v W_ready live inv' show ?thesis by (auto simp: shm_live_def shm_work_def count_ok_def)
  next
    case W_close
    with good st have "t = s\<lparr>one := (one s)\<lparr>named := False\<rparr>, two := (two s)\<lparr>named := False\<rparr>, wpc := W_done\<rparr>"
      by (simp add: shm_write_main_def w_call_def close_semaphores_def shm_ready_def)
    with W_close live inv' show ?thesis by (auto simp: shm_live_def shm_work_def count_ok_def)
  qed (use st write_shared_live [OF live tx] in \<open>simp_all add: shm_write_main_def\<close>)
qed

lemma shm_live_valid:
  assumes "shm_live l p txt rest s" and "r_opened (rpc s)"
  shows "valid (obj (one s))"
proof -
  from assms have "\<not> w_early (wpc s)" by (auto simp: shm_live_def shm_inv_def)
  with assms(1) show ?thesis by (auto simp: shm_live_def)
qed

lemma print_shared_live:
  assumes live: "shm_live l p txt rest s" and tx: "END_CHAR \<notin> set txt" and st: "print_shared s = Some t"
  shows "shm_live l p txt rest t \<and> shm_work txt t < shm_work txt s"
proof -
  from live have inv: "shm_inv l p s" by (simp add: shm_live_def)
  note inv' = print_shared_inv [OF inv st]
  then have nf: "rpc t \<noteq> R_fault" by (auto simp: shm_inv_def r_ok_def)
  from shm_live_stored [OF live tx] shm_live_counts [OF live]
  have le: "ri s + r_taken (rpc s) \<le> Suc (length txt)" by (cases "wpc s") auto
  note v = shm_live_valid [OF live]
  show ?thesis
  proof (cases "rpc s")
    case R_wait
    with inv have "valid (obj (two s))" by (simp add: shm_inv_def)
    with R_wait st wait_sem_Some [of "two s"] obtain x where t: "t = s\<lparr>two := x, rpc := R_put\<rparr>"
      by (auto simp: print_shared_def split: option.splits)
    with R_wait live inv' show ?thesis by (auto simp: shm_live_def shm_work_def)
  next
    case R_put
    with st nf obtain pr where "t = s\<lparr>printed := pr, rpc := R_post\<rparr>"
      by (auto simp: print_shared_def split: option.splits)
    with R_put live inv' le show ?thesis by (auto simp: shm_live_def shm_work_def)
  next
    case R_post
    with v have "valid (obj (one s))" by simp
    with R_post st shm_post_one [OF live] have
      "t = s\<lparr>one := (one s)\<lparr>obj := (obj (one s))\<lparr>val := Suc (val (obj (one s)))\<rparr>\<rparr>, rpc := R_test\<rparr>"
      by (simp add: print_shared_def)
    with \<open>valid (obj (one s))\<close> R_post live inv' le show ?thesis by (auto simp: shm_live_def shm_work_def count_ok_def)
  next
    case R_test
    with st nf obtain c where "t = s\<lparr>ri := Suc (ri s), rpc := (if c \<noteq> END_CHAR then R_wait else R_close)\<rparr>"
      by (auto simp: print_shared_def split: option.splits)
    with R_test live inv' le show ?thesis by (cases "c = END_CHAR") (auto simp: shm_live_def shm_work_def)
  qed (use st in \<open>auto simp: print_shared_def\<close>)
qed

lemma shm_live_reader:
  assumes live: "shm_live l p txt rest s" and good: "shm_reader_ready e p" and tx: "END_CHAR \<notin> set txt"
    and st: "shm_read_main e s = Some t"
  shows "shm_live l p txt rest t \<and> shm_work txt t < shm_work txt s"
proof -
  from good have maps: "reader_maps e p" by (simp add: shm_reader_ready_def)
  from live have inv: "shm_inv l p s" by (simp add: shm_live_def)
  note inv' = shm_reader_inv [OF maps inv st]
  note v = shm_live_valid [OF live]
  show ?thesis
  proof (cases "rpc s")
    case R_one
    with st open_cases [of One s] have "t = s\<lparr>rpc := R_two\<rparr> \<or> (\<exists>m. t = s\<lparr>rpc := R_exit m\<rparr>)"
      by (auto simp: shm_read_main_def r_call_Some simp del: open_semaphores.simps)
    with R_one live inv' show ?thesis by (elim disjE exE) (auto simp: shm_live_def shm_work_def)
  next
    case R_two
    with st open_cases [of Two s] have "t = s\<lparr>rpc := R_map\<rparr> \<or> (\<exists>m. t = s\<lparr>rpc := R_exit m\<rparr>)"
      by (auto simp: shm_read_main_def r_call_Some simp del: open_semaphores.simps)
    with R_two live inv' show ?thesis by (elim disjE exE) (auto simp: shm_live_def shm_work_def)
  next
    case R_map
    with inv have "page_ok l (files s p) (stored s)" by (simp add: shm_inv_def)
    from shm_map_reader [OF maps this] R_map st have "t = s\<lparr>rmap := Some (p, FILE_LEN), rpc := R_hello\<rparr>"
      by (simp add: shm_read_main_def r_call_def)
    with R_map live inv' show ?thesis by (auto simp: shm_live_def shm_work_def)
  next
    case R_hello
    with v have "valid (obj (one s))" by simp
    with R_hello st shm_post_one [OF live] have
      "t = s\<lparr>one := (one s)\<lparr>obj := (obj (one s))\<lparr>val := Suc (val (obj (one s)))\<rparr>\<rparr>, rpc := R_wait\<rparr>"
      by (simp add: shm_read_main_def)
    with \<open>valid (obj (one s))\<close> R_hello live inv' show ?thesis by (auto simp: shm_live_def shm_work_def count_ok_def)
  next
    case R_close
    with good st have "t = s\<lparr>rpc := R_done\<rparr>"
      by (simp add: shm_read_main_def r_call_def close_semaphores_def shm_reader_ready_def)
    with R_close live inv' show ?thesis by (auto simp: shm_live_def shm_work_def)
  qed (use st print_shared_live [OF live tx] in \<open>simp_all add: shm_read_main_def\<close>)
qed

text \<open>When nobody can move, both are done, or the reader came too early and has given up.\<close>

definition shm_final :: "shm_state \<Rightarrow> bool" where
  "shm_final s \<longleftrightarrow> wpc s = W_done \<and> rpc s = R_done \<or> wpc s = W_hello \<and> (\<exists>m. rpc s = R_exit m)"

lemma wait_sem_None: "wait_sem False x = None \<Longrightarrow> val (obj x) = 0"
  by (auto simp: wait_sem_def sem_wait_def split: if_splits)

lemma w_call_None [simp]: "w_call n s r \<noteq> None" "r_call n' s' r' \<noteq> None"
  by (auto simp: w_call_def r_call_def split: call.splits)

lemma shm_writer_stuck:
  "shm_write_main e s = None \<Longrightarrow> (wpc s = W_hello \<or> wpc s = W_wait) \<and> val (obj (one s)) = 0 \<or>
     wpc s = W_done \<or> (\<exists>m. wpc s = W_exit m) \<or> wpc s = W_fault"
  by (cases "wpc s") (auto simp: shm_write_main_def write_shared_def split: option.splits dest: wait_sem_None)

lemma shm_reader_stuck:
  "shm_read_main e s = None \<Longrightarrow> rpc s = R_wait \<and> val (obj (two s)) = 0 \<or>
     rpc s = R_done \<or> (\<exists>m. rpc s = R_exit m) \<or> rpc s = R_fault"
  by (cases "rpc s") (auto simp: shm_read_main_def print_shared_def split: option.splits dest: wait_sem_None)

lemma shm_reader_waits:
  assumes "shm_inv l p s" and "rpc s = R_wait" and "val (obj (two s)) = 0"
  shows "ri s = wi s + w_posted (wpc s) \<and> END_CHAR \<notin> set (take (ri s) (stored s))"
  using assms by (auto simp: shm_inv_def count_ok_def r_ok_def)

lemma shm_stuck_cases:
  assumes live: "shm_live l p txt rest s"
    and w: "(wpc s = W_hello \<or> wpc s = W_wait) \<and> val (obj (one s)) = 0 \<or>
      wpc s = W_done \<or> (\<exists>m. wpc s = W_exit m) \<or> wpc s = W_fault"
    and r: "rpc s = R_wait \<and> val (obj (two s)) = 0 \<or> rpc s = R_done \<or> (\<exists>m. rpc s = R_exit m) \<or> rpc s = R_fault"
  shows "wpc s = W_done \<and> rpc s = R_done \<or> (wpc s = W_hello \<or> wpc s = W_wait) \<and> wi s = 0 \<and> (\<exists>m. rpc s = R_exit m)"
proof -
  from live have inv: "shm_inv l p s" by (simp add: shm_live_def)
  from w live consider
    (asleep) "wpc s = W_hello \<or> wpc s = W_wait" "val (obj (one s)) = 0" | (ended) "wpc s = W_done"
    by (auto simp: shm_live_def)
  then show ?thesis
  proof cases
    case asleep
    with live have v: "w_helloed (wpc s) + wi s = r_helloed (rpc s) + w_readied (wpc s) + ri s + r_posted (rpc s)"
      and z: "w_readied (wpc s) = 0 \<longrightarrow> wi s = 0" "r_helloed (rpc s) = 0 \<longrightarrow> ri s = 0"
      by (auto simp: shm_live_def count_ok_def)
    from r inv show ?thesis
    proof (elim disjE exE conjE)
      assume "rpc s = R_wait" "val (obj (two s)) = 0"
      with shm_reader_waits [OF inv] v asleep inv show ?thesis by (auto simp: shm_inv_def)
    next
      assume "rpc s = R_done"
      with shm_done_all [OF inv] asleep inv show ?thesis by (auto simp: shm_inv_def dest: last_in_set)
    next
      fix m assume "rpc s = R_exit m"
      with v z asleep show ?thesis by auto
    next
      assume "rpc s = R_fault"
      with inv show ?thesis by (simp add: shm_inv_def r_ok_def)
    qed
  next
    case ended
    with inv have w: "stored s \<noteq> []" "last (stored s) = END_CHAR" "length (stored s) = wi s" by (auto simp: shm_inv_def)
    from ended live have c: "wi s \<le> r_helloed (rpc s) + ri s + r_posted (rpc s)" "r_helloed (rpc s) = 0 \<longrightarrow> ri s = 0"
      by (auto simp: shm_live_def count_ok_def)
    from w have "0 < wi s" by (cases "stored s") auto
    with c have h: "r_helloed (rpc s) \<noteq> 0" by (cases "rpc s") auto
    from r show ?thesis
    proof (elim disjE exE conjE)
      assume "rpc s = R_wait" "val (obj (two s)) = 0"
      with shm_reader_waits [OF inv] ended w show ?thesis by (auto dest: last_in_set)
    next
      assume "rpc s = R_done"
      with ended show ?thesis by simp
    qed (use h inv in \<open>auto simp: shm_inv_def r_ok_def\<close>)
  qed
qed

text \<open>The C writer stores nothing before the reader has greeted it.\<close>

definition shm_greeted :: "'a shm_state_scheme \<Rightarrow> bool" where
  "shm_greeted s \<longleftrightarrow> w_helloed (wpc s) \<le> r_helloed (rpc s)"

lemma shm_greeted_writer:
  assumes live: "shm_live FILE_LEN p txt rest s" and live': "shm_live FILE_LEN p txt rest t" and g: "shm_greeted s"
    and st: "shm_write_main e s = Some t"
  shows "shm_greeted t"
proof (cases "wpc s = W_hello")
  case True
  with live have "valid (obj (one s))" by (auto simp: shm_live_def)
  with True st wait_sem_Some [of "one s"] have "rpc t = rpc s" "wpc t = W_ready" "0 < val (obj (one s))"
    by (auto simp: shm_write_main_def split: option.splits)
  moreover have "wi s = 0" "ri s = 0" "r_posted (rpc s) = 0" using shm_live_counts [OF live] True live
    by (cases "rpc s"; simp add: shm_live_def)+
  ultimately show ?thesis using True live \<open>valid (obj (one s))\<close> by (simp add: shm_greeted_def shm_live_def count_ok_def)
next
  case False
  have "rpc t = rpc s \<and> w_helloed (wpc t) \<le> w_helloed (wpc s)"
  proof (cases "wpc s")
    case W_one
    with st show ?thesis by (auto simp: shm_write_main_def w_call_Some simp del: init_semaphores.simps dest!: init_one_two)
  next
    case W_two
    with st show ?thesis by (auto simp: shm_write_main_def w_call_Some split: option.splits)
  next
    case W_map
    with st show ?thesis by (auto simp: shm_write_main_def w_call_Some create_mapping_def Let_def split: option.splits if_splits)
  next
    case W_store
    with st show ?thesis
      by (auto simp: shm_write_main_def write_shared_def store_char_def Let_def split: option.splits prod.splits)
  next
    case W_close
    with st show ?thesis by (auto simp: shm_write_main_def w_call_Some close_semaphores_def split: if_splits)
  qed (use False st in \<open>auto simp: shm_write_main_def write_shared_def w_call_Some split: option.splits if_splits\<close>)
  with g show ?thesis by (simp add: shm_greeted_def)
qed

lemma shm_greeted_reader:
  assumes "shm_read_main e s = Some t" and "shm_greeted s" and "shm_inv l p t" and "shm_reader_ready e p"
  shows "shm_greeted t"
proof -
  have "wpc t = wpc s \<and> (r_helloed (rpc s) \<le> r_helloed (rpc t) \<or> rpc t = R_fault)"
  proof (cases "rpc s")
    case R_map
    with assms(1) show ?thesis
      by (auto simp: shm_read_main_def r_call_Some open_mapping_def Let_def split: option.splits if_splits)
  next
    case R_close
    with assms(1,4) show ?thesis by (auto simp: shm_read_main_def r_call_Some close_semaphores_def shm_reader_ready_def)
  qed (use assms(1) in \<open>auto simp: shm_read_main_def print_shared_def r_call_Some split: option.splits if_splits\<close>)
  with assms(2,3) show ?thesis by (auto simp: shm_greeted_def shm_inv_def r_ok_def)
qed

definition shm_talk :: "string \<Rightarrow> char list \<Rightarrow> char list \<Rightarrow> shm_state \<Rightarrow> bool" where
  "shm_talk p txt rest s \<longleftrightarrow> shm_live FILE_LEN p txt rest s \<and> shm_greeted s"

lemma shm_stuck:
  assumes "shm_talk p txt rest s" and stuck: "\<And>a. shm_step False e a s = None"
  shows "shm_final s"
proof -
  from stuck [of Writer] stuck [of Reader] have "shm_write_main e s = None" "shm_read_main e s = None" by simp_all
  with assms(1) shm_stuck_cases [OF _ shm_writer_stuck shm_reader_stuck] show ?thesis
    by (fastforce simp: shm_talk_def shm_greeted_def shm_final_def)
qed

lemma shm_terminating:
  assumes "shm_ready e p" and "file_ok (fs p)" and "END_CHAR \<notin> set txt" and "length txt < FILE_LEN"
  shows "terminating_system (shm_step False e) (shm_start no_sem no_sem fs (txt @ END_CHAR # rest))
    (shm_talk p txt rest) (shm_work txt) shm_final"
proof
  show "shm_talk p txt rest (shm_start no_sem no_sem fs (txt @ END_CHAR # rest))"
    using shm_start_inv [of fs p FILE_LEN no_sem "txt @ END_CHAR # rest"] assms(2)
    by (simp add: shm_talk_def shm_greeted_def shm_live_def shm_start_def count_ok_def no_sem_def)
next
  fix s a t
  assume "shm_talk p txt rest s" and st: "shm_step False e a s = Some t"
  then have live: "shm_live FILE_LEN p txt rest s" and g: "shm_greeted s" by (simp_all add: shm_talk_def)
  have "shm_talk p txt rest t \<and> shm_work txt t < shm_work txt s"
  proof (cases a)
    case Writer
    with st have w: "shm_write_main e s = Some t" by simp
    from shm_live_writer [OF live assms(1,3,4) w] shm_greeted_writer [OF live _ g w] show ?thesis by (simp add: shm_talk_def)
  next
    case Reader
    with st have r: "shm_read_main e s = Some t" by simp
    from shm_live_reader [OF live shm_ready_reader [OF assms(1)] assms(3) r] shm_greeted_reader [OF r g _ shm_ready_reader [OF assms(1)]]
    show ?thesis by (auto simp: shm_talk_def shm_live_def)
  qed (use st in simp_all)
  then show "shm_talk p txt rest t" "shm_work txt t < shm_work txt s" by simp_all
qed (rule shm_stuck)

text \<open>
  C37. Everything typed is printed: when all calls succeed, no signal arrives, the shared
  file exists and is not empty, the semaphores do not exist yet and the input has a 0 among
  its first 1024 characters, then no run at all is longer than eight steps per character before
  the 0 and 20 more, and a run that cannot be continued has ended in one of two ways. Either both processes are done and the reader
  has printed the input up to and including the 0, or the reader was started before the
  writer had created the semaphores, has given up without printing, and the writer waits.
\<close>

theorem shm_all_printed:
  assumes "shm_ready e p" and "file_ok (fs p)" and "END_CHAR \<notin> set txt" and "length txt < 1024"
    and "run (shm_step False e) sch (shm_start no_sem no_sem fs (txt @ END_CHAR # rest)) = Some s"
  shows "length sch \<le> 8 * length txt + 20 \<and>
    ((\<forall>a. shm_step False e a s = None) \<longrightarrow>
      wpc s = W_done \<and> rpc s = R_done \<and> printed s = txt @ [END_CHAR] \<or>
      wpc s = W_hello \<and> (\<exists>m. rpc s = R_exit m) \<and> printed s = [])"
proof -
  from assms(1-4) have sys: "terminating_system (shm_step False e) (shm_start no_sem no_sem fs (txt @ END_CHAR # rest))
      (shm_talk p txt rest) (shm_work txt) shm_final" by (rule shm_terminating)
  have fin: "shm_final s" if "\<forall>a. shm_step False e a s = None"
    using terminating_system.maximal_final [OF sys assms(5)] that by simp
  from invariant_system.run_inv [OF terminating_system.axioms(1) [OF sys] assms(5)] have "shm_talk p txt rest s" .
  then have live: "shm_live FILE_LEN p txt rest s" by (simp add: shm_talk_def)
  then have inv: "shm_inv FILE_LEN p s" by (simp add: shm_live_def)
  have "length sch \<le> 8 * length txt + 20"
    using terminating_system.run_bounded [OF sys assms(5)] by (simp add: shm_work_def shm_start_def)
  moreover have "printed s = txt @ [END_CHAR]" if "rpc s = R_done"
    using shm_done_all [OF inv] that shm_live_stored [OF live assms(3)] by (auto dest: last_in_set)
  moreover have "printed s = []" if "wpc s = W_hello" "rpc s = R_exit m" for m
    using that live inv by (auto simp: shm_live_def shm_inv_def r_ok_def)
  ultimately show ?thesis using fin by (auto simp: shm_final_def)
qed

section \<open>A conversation\<close>

definition demo_path :: string where
  "demo_path = ''/w/shared_object.txt''"

definition demo_env :: shm_env where
  "demo_env =
     \<lparr>sigaction_ok = True, sem_open_ok = (\<lambda>_. True), sem_close_ok = True, cwd_w = ''/w'', cwd_r = ''/w'',
      junk_w = replicate 256 NUL, junk_r = replicate 256 NUL, open_ok = True, mmap_ok_w = True, mmap_ok_r = True\<rparr>"

definition demo_files :: "string \<Rightarrow> shm_file option" where
  "demo_files p = (if p = demo_path then Some (1024, replicate 1024 NUL) else None)"

definition demo_schedule :: "shm_actor list" where
  "demo_schedule =
     replicate 4 Writer @ replicate 4 Reader @ replicate 6 Writer @ replicate 4 Reader @ replicate 4 Writer @
     replicate 4 Reader @ replicate 5 Writer @ replicate 5 Reader"

definition demo_start :: shm_state where
  "demo_start = shm_start no_sem no_sem demo_files ''hi0''"

definition demo_end :: shm_state where
  "demo_end = the (run (shm_step False demo_env) demo_schedule demo_start)"

definition demo_result :: "(shm_wpc \<times> shm_rpc \<times> char list) option" where
  "demo_result = map_option (\<lambda>s. (wpc s, rpc s, printed s)) (run (shm_step False demo_env) demo_schedule demo_start)"

lemma demo_evaluated: "demo_result = Some (W_done, R_done, ''hi0'')"
  by code_simp

lemma demo_end_run: "run (shm_step False demo_env) demo_schedule demo_start = Some demo_end"
  and demo_end_points: "wpc demo_end = W_done" "rpc demo_end = R_done" "printed demo_end = ''hi0''"
  using demo_evaluated by (auto simp: demo_result_def demo_end_def)

lemma demo_ready: "shm_ready demo_env demo_path"
proof -
  have "path_of (replicate 256 NUL) ''/w'' = Some demo_path"
    using filepath_eq [of "''/w''" "replicate 256 NUL"] by (simp add: path_of_def demo_path_def FILENAME_def)
  then show ?thesis by (simp add: shm_ready_def shm_maps_def reader_maps_def demo_env_def)
qed

lemma demo_file_ok: "file_ok (demo_files demo_path)"
  by (simp add: demo_files_def file_ok_def)

theorem shm_prints_what_was_stored_witness:
  "printed demo_end = ''hi0'' \<and> stored demo_end = ''hi0'' \<and> rpc demo_end = R_done"
proof -
  have "reach (shm_step False demo_env) (shm_start no_sem no_sem demo_files ''hi0'') demo_end"
    using demo_end_run reach_iff_run unfolding demo_start_def by fast
  from shm_prints_what_was_stored [OF _ demo_file_ok this] demo_ready have "printed demo_end = stored demo_end"
    using demo_end_points by (simp add: shm_ready_def)
  with demo_end_points show ?thesis by simp
qed

theorem shm_all_printed_witness: "printed demo_end = ''hi'' @ [CHR ''0''] \<and> wpc demo_end = W_done"
proof -
  have "\<forall>a. shm_step False demo_env a demo_end = None"
  proof
    fix a show "shm_step False demo_env a demo_end = None"
      using demo_end_points by (cases a) (simp_all add: shm_write_main_def write_shared_def shm_read_main_def print_shared_def)
  qed
  with demo_end_run demo_ready demo_file_ok
    shm_all_printed [of demo_env demo_path demo_files "''hi''" demo_schedule "[]" demo_end]
  show ?thesis using demo_end_points by (auto simp: demo_start_def)
qed

end
