(* ===== verification/Cpp_Shm.thy ===== *)
theory Cpp_Shm
  imports Shared_Memory
begin

text \<open>
  \<^verbatim>\<open>cpp/ipc/memory_based/shared_memory/{shm.hh,write.cc,read.cc}\<close>: the C++ version of the pair
  of processes of \<open>Shared_Memory\<close>, over the same kernel objects. It maps 255 bytes instead of
  1024, reports failing calls by exceptions that \<open>main\<close> catches, installs no handler, and its
  writer does not wait for the reader before its loop.

  The names of the semaphores and of the file are those of the C programs (the names differ
  in a leading slash, which \<open>sem_open\<close> of the GNU C library ignores), so the C++ writer also
  works with the C reader; the step relation has both readers. A process that ends by an
  exception has printed its text: \<open>W_exit\<close> and \<open>R_exit\<close> hold it.

  \<open>has_one_w\<close> and \<open>has_one_r\<close> say whether the member \<open>sem_one\<close> of \<open>Write\<close> and \<open>Read\<close> is a
  semaphore or \<open>SEM_FAILED\<close>; \<open>cwd_ok_w\<close> and \<open>cwd_ok_r\<close> whether \<open>std::filesystem::current_path\<close>
  returns or throws.
\<close>

section \<open>State\<close>

record cxx_shm_env = shm_env +
  cwd_ok_w :: bool
  cwd_ok_r :: bool

record cxx_shm = shm_state +
  has_one_w :: bool
  has_one_r :: bool

abbreviation (input) BUFF :: nat where "BUFF \<equiv> 255"

datatype shm_exc = Exc_Semaphore | Exc_FileDescriptor | Other_exception

fun shm_what :: "shm_exc \<Rightarrow> string" where
  "shm_what Exc_Semaphore = ''Semaphore exception''"
| "shm_what Exc_FileDescriptor = ''File descriptor exception''"
| "shm_what Other_exception = ''other exception''"

text \<open>The handlers of \<open>main\<close>; the exception leaves a constructor, so no destructor of \<open>Write\<close> or \<open>Read\<close> runs.\<close>

definition write_catch :: "shm_exc \<Rightarrow> cxx_shm \<Rightarrow> cxx_shm" where
  "write_catch e s = s\<lparr>wpc := W_exit (shm_what e)\<rparr>"

definition read_catch :: "shm_exc \<Rightarrow> cxx_shm \<Rightarrow> cxx_shm" where
  "read_catch e s = s\<lparr>rpc := R_exit (shm_what e)\<rparr>"

section \<open>Common\<close>

definition init_sem :: "cxx_shm_env \<Rightarrow> which \<Rightarrow> named_sem \<Rightarrow> bool \<times> named_sem" where
  "init_sem e w x = (case sem_open_create (sem_open_ok e w) 0 x of None \<Rightarrow> (False, x) | Some y \<Rightarrow> (True, y))"

definition open_sem :: "named_sem \<Rightarrow> bool" where
  "open_sem x = named x"

text \<open>
  \<open>open_file\<close>: \<open>None\<close> for -1; with \<open>O_CREAT\<close> a missing file is created empty. The result of
  \<open>mmap\<close> is not checked, and \<open>None\<close> stands for \<open>MAP_FAILED\<close>.
\<close>

definition open_file :: "bool \<Rightarrow> bool \<Rightarrow> string \<Rightarrow> (string \<Rightarrow> shm_file option) \<Rightarrow> (string \<Rightarrow> shm_file option) option" where
  "open_file ok writing p fs =
     (if writing
      then if \<not> ok then None else Some (if fs p = None then fs(p \<mapsto> (0, replicate 1024 NUL)) else fs)
      else if fs p = None then None else Some fs)"

definition cxx_map :: "bool \<Rightarrow> string \<Rightarrow> mapping option" where
  "cxx_map ok p = (if ok then Some (p, BUFF) else None)"

section \<open>Write\<close>

definition Write_construct :: "cxx_shm_env \<Rightarrow> cxx_shm \<Rightarrow> cxx_shm option" where
  "Write_construct e s =
     (case wpc s of
        W_one \<Rightarrow> (case init_sem e One (one s) of (ok, x) \<Rightarrow> Some (s\<lparr>one := x, has_one_w := ok, wpc := W_two\<rparr>))
      | W_two \<Rightarrow>
          (case init_sem e Two (two s) of (ok, x) \<Rightarrow>
             (let t = s\<lparr>two := x\<rparr>
              in Some (if \<not> has_one_w s \<or> \<not> ok then write_catch Exc_Semaphore t else t\<lparr>wpc := W_map\<rparr>)))
      | W_map \<Rightarrow>
          (if \<not> cwd_ok_w e then Some (write_catch Other_exception s)
           else
             (let path = cwd_w e @ FILENAME
              in case open_file (open_ok e) True path (files s) of
                   None \<Rightarrow> Some (write_catch Exc_FileDescriptor s)
                 | Some fs \<Rightarrow> Some (s\<lparr>files := fs, wmap := cxx_map (mmap_ok_w e) path, wpc := W_wait\<rparr>)))
      | _ \<Rightarrow> None)"

definition Write_run :: "cxx_shm \<Rightarrow> cxx_shm option" where
  "Write_run s =
     (case wpc s of
        W_wait \<Rightarrow> (case wait_sem False (one s) of None \<Rightarrow> None | Some x \<Rightarrow> Some (s\<lparr>one := x, wpc := W_store\<rparr>))
      | W_store \<Rightarrow>
          (case fgetc (winp s) of (c, rest) \<Rightarrow>
             (case store (wmap s) (wi s) c (files s) of
                None \<Rightarrow> Some (s\<lparr>wpc := W_fault\<rparr>)
              | Some fs \<Rightarrow> Some (s\<lparr>files := fs, winp := rest, stored := stored s @ [c], wpc := W_post\<rparr>)))
      | W_post \<Rightarrow> Some (s\<lparr>two := post_sem (two s), wpc := W_test\<rparr>)
      | W_test \<Rightarrow>
          (case load (wmap s) (wi s) (files s) of
             None \<Rightarrow> Some (s\<lparr>wpc := W_fault\<rparr>)
           | Some c \<Rightarrow> Some (s\<lparr>wi := Suc (wi s), wpc := (if c \<noteq> CHR ''0'' then W_wait else W_close)\<rparr>))
      | _ \<Rightarrow> None)"

definition Write_destruct :: "cxx_shm \<Rightarrow> cxx_shm" where
  "Write_destruct s = s\<lparr>one := (one s)\<lparr>named := False\<rparr>, two := (two s)\<lparr>named := False\<rparr>, wpc := W_done\<rparr>"

definition cxx_write_main :: "cxx_shm_env \<Rightarrow> cxx_shm \<Rightarrow> cxx_shm option" where
  "cxx_write_main e s =
     (case wpc s of
        W_one \<Rightarrow> Write_construct e s | W_two \<Rightarrow> Write_construct e s | W_map \<Rightarrow> Write_construct e s
      | W_close \<Rightarrow> Some (Write_destruct s)
      | _ \<Rightarrow> Write_run s)"

section \<open>Read\<close>

definition Read_construct :: "cxx_shm_env \<Rightarrow> cxx_shm \<Rightarrow> cxx_shm option" where
  "Read_construct e s =
     (case rpc s of
        R_one \<Rightarrow> Some (s\<lparr>has_one_r := open_sem (one s), rpc := R_two\<rparr>)
      | R_two \<Rightarrow> Some (if \<not> has_one_r s \<or> \<not> open_sem (two s) then read_catch Exc_Semaphore s else s\<lparr>rpc := R_map\<rparr>)
      | R_map \<Rightarrow>
          (if \<not> cwd_ok_r e then Some (read_catch Other_exception s)
           else
             (let path = cwd_r e @ FILENAME
              in case open_file True False path (files s) of
                   None \<Rightarrow> Some (read_catch Exc_FileDescriptor s)
                 | Some fs \<Rightarrow> Some (s\<lparr>files := fs, rmap := cxx_map (mmap_ok_r e) path, rpc := R_hello\<rparr>)))
      | _ \<Rightarrow> None)"

definition Read_run :: "cxx_shm \<Rightarrow> cxx_shm option" where
  "Read_run s =
     (case rpc s of
        R_hello \<Rightarrow> Some (s\<lparr>one := post_sem (one s), rpc := R_wait\<rparr>)
      | R_wait \<Rightarrow> (case wait_sem False (two s) of None \<Rightarrow> None | Some x \<Rightarrow> Some (s\<lparr>two := x, rpc := R_put\<rparr>))
      | R_put \<Rightarrow>
          (case load (rmap s) (ri s) (files s) of
             None \<Rightarrow> Some (s\<lparr>rpc := R_fault\<rparr>)
           | Some c \<Rightarrow> Some (s\<lparr>printed := printed s @ [c], rpc := R_post\<rparr>))
      | R_post \<Rightarrow> Some (s\<lparr>one := post_sem (one s), rpc := R_test\<rparr>)
      | R_test \<Rightarrow>
          (case load (rmap s) (ri s) (files s) of
             None \<Rightarrow> Some (s\<lparr>rpc := R_fault\<rparr>)
           | Some c \<Rightarrow> Some (s\<lparr>ri := Suc (ri s), rpc := (if c \<noteq> CHR ''0'' then R_wait else R_close)\<rparr>))
      | _ \<Rightarrow> None)"

definition Read_destruct :: "cxx_shm \<Rightarrow> cxx_shm" where
  "Read_destruct s = s\<lparr>rpc := R_done\<rparr>"

definition cxx_read_main :: "cxx_shm_env \<Rightarrow> cxx_shm \<Rightarrow> cxx_shm option" where
  "cxx_read_main e s =
     (case rpc s of
        R_one \<Rightarrow> Read_construct e s | R_two \<Rightarrow> Read_construct e s | R_map \<Rightarrow> Read_construct e s
      | R_close \<Rightarrow> Some (Read_destruct s)
      | _ \<Rightarrow> Read_run s)"

section \<open>Both processes\<close>

datatype version = C_reader | Cxx_reader

datatype cxx_shm_actor = Cxx_writer | A_reader

fun cxx_shm_step :: "version \<Rightarrow> cxx_shm_env \<Rightarrow> cxx_shm_actor \<Rightarrow> cxx_shm \<Rightarrow> cxx_shm option" where
  "cxx_shm_step v e Cxx_writer s = cxx_write_main e s"
| "cxx_shm_step Cxx_reader e A_reader s = cxx_read_main e s"
| "cxx_shm_step C_reader e A_reader s = shm_read_main e s"

definition cxx_shm_start :: "named_sem \<Rightarrow> named_sem \<Rightarrow> (string \<Rightarrow> shm_file option) \<Rightarrow> char list \<Rightarrow> cxx_shm" where
  "cxx_shm_start n1 n2 fs inp =
     \<lparr>one = n1, two = n2, files = fs, wpc = W_one, wmap = None, wi = 0, running = True, winp = inp, stored = [],
      rpc = R_one, rmap = None, ri = 0, printed = [], has_one_w = False, has_one_r = False\<rparr>"

section \<open>The loops are those of the C programs\<close>

lemma Write_run_as_in_c: "running s \<Longrightarrow> Write_run s = write_shared s"
  by (auto simp: Write_run_def write_shared_def store_char_def split: shm_wpc.splits prod.splits option.splits)

lemma Read_run_as_in_c: "rpc s \<noteq> R_hello \<Longrightarrow> Read_run s = print_shared s"
  by (auto simp: Read_run_def print_shared_def split: shm_rpc.splits)

text \<open>Both processes map the file \<open>p\<close>; the reader may be the C program.\<close>

fun cxx_reader_maps :: "version \<Rightarrow> cxx_shm_env \<Rightarrow> string \<Rightarrow> bool" where
  "cxx_reader_maps Cxx_reader e p \<longleftrightarrow> cwd_r e @ FILENAME = p \<and> mmap_ok_r e"
| "cxx_reader_maps C_reader e p \<longleftrightarrow> reader_maps e p"

definition cxx_maps :: "version \<Rightarrow> cxx_shm_env \<Rightarrow> string \<Rightarrow> bool" where
  "cxx_maps v e p \<longleftrightarrow> cwd_w e @ FILENAME = p \<and> mmap_ok_w e \<and> cxx_reader_maps v e p"

section \<open>The invariant\<close>

definition cxx_shm_inv :: "string \<Rightarrow> cxx_shm \<Rightarrow> bool" where
  "cxx_shm_inv p s \<longleftrightarrow> shm_inv BUFF p s \<and> running s"

lemma shm_inv_has [simp]:
  "shm_inv l p (s\<lparr>has_one_w := b\<rparr>) \<longleftrightarrow> shm_inv l p s" "shm_inv l p (s\<lparr>has_one_r := b\<rparr>) \<longleftrightarrow> shm_inv l p s"
  by (simp_all add: shm_inv_def)

lemma init_sem_cases:
  assumes "init_sem e w x = (ok, y)"
  shows "\<not> ok \<and> y = x \<or> ok \<and> named y \<and> (if named x then y = x else y = \<lparr>named = True, obj = \<lparr>valid = True, val = 0\<rparr>\<rparr>)"
  using assms by (auto simp: init_sem_def sem_open_create_def split: if_splits)

lemma Write_construct_cases:
  assumes "cxx_maps v e p" and "page_ok l (files s p) st" and "Write_construct e s = Some t"
  shows "(\<exists>x b. wpc s = W_one \<and> init_sem e One (one s) = (b, x) \<and> t = s\<lparr>one := x, has_one_w := b, wpc := W_two\<rparr>) \<or>
    (\<exists>x b m. wpc s = W_two \<and> init_sem e Two (two s) = (b, x) \<and> t = s\<lparr>two := x, wpc := W_exit m\<rparr> \<and> \<not> (has_one_w s \<and> b)) \<or>
    (\<exists>x. wpc s = W_two \<and> has_one_w s \<and> init_sem e Two (two s) = (True, x) \<and> t = s\<lparr>two := x, wpc := W_map\<rparr>) \<or>
    (\<exists>m. wpc s = W_map \<and> t = s\<lparr>wpc := W_exit m\<rparr> \<and> \<not> (cwd_ok_w e \<and> open_ok e)) \<or>
    wpc s = W_map \<and> t = s\<lparr>wmap := Some (p, BUFF), wpc := W_wait\<rparr>"
  using assms
  by (auto simp: Write_construct_def cxx_maps_def open_file_def cxx_map_def page_ok_def write_catch_def Let_def
      split: shm_wpc.splits prod.splits if_splits)

lemma Read_construct_cases:
  assumes "cxx_maps Cxx_reader e p" and "page_ok l (files s p) st" and "Read_construct e s = Some t"
  shows "rpc s = R_one \<and> t = s\<lparr>has_one_r := open_sem (one s), rpc := R_two\<rparr> \<or>
    (\<exists>m. rpc s = R_two \<and> t = s\<lparr>rpc := R_exit m\<rparr>) \<or>
    rpc s = R_two \<and> named (two s) \<and> t = s\<lparr>rpc := R_map\<rparr> \<or>
    (\<exists>m. rpc s = R_map \<and> t = s\<lparr>rpc := R_exit m\<rparr> \<and> \<not> cwd_ok_r e) \<or>
    rpc s = R_map \<and> t = s\<lparr>rmap := Some (p, BUFF), rpc := R_hello\<rparr>"
  using assms
  by (auto simp: Read_construct_def cxx_maps_def open_file_def cxx_map_def page_ok_def read_catch_def open_sem_def Let_def
      split: shm_rpc.splits if_splits)

lemma cxx_writer_inv:
  assumes good: "cxx_maps v e p" and inv: "shm_inv BUFF p s" and run: "running s" and st: "cxx_write_main e s = Some t"
  shows "shm_inv BUFF p t \<and> running t"
proof -
  from inv have page: "page_ok BUFF (files s p) (stored s)"
    and count: "count_ok (two s) (ri s + r_taken (rpc s)) (wi s + w_posted (wpc s))" by (simp_all add: shm_inv_def)
  show ?thesis
  proof (cases "wpc s = W_one \<or> wpc s = W_two \<or> wpc s = W_map")
    case True
    with st have "Write_construct e s = Some t" by (auto simp: cxx_write_main_def)
    from Write_construct_cases [OF good page this] show ?thesis
    proof (elim disjE exE conjE)
      fix x b assume "wpc s = W_one" "t = s\<lparr>one := x, has_one_w := b, wpc := W_two\<rparr>"
      with inv run show ?thesis by (auto simp: shm_inv_def)
    next
      fix x b m assume a: "wpc s = W_two" "init_sem e Two (two s) = (b, x)" "t = s\<lparr>two := x, wpc := W_exit m\<rparr>"
      with inv run count init_sem_cases [OF a(2)] show ?thesis by (auto simp: shm_inv_def count_ok_def split: if_splits)
    next
      fix x assume a: "wpc s = W_two" "init_sem e Two (two s) = (True, x)" "t = s\<lparr>two := x, wpc := W_map\<rparr>"
      with inv run count init_sem_cases [OF a(2)] show ?thesis by (auto simp: shm_inv_def count_ok_def split: if_splits)
    qed (use inv run in \<open>simp_all add: shm_inv_def\<close>)
  next
    case False
    show ?thesis
    proof (cases "wpc s = W_close")
      case True
      with st inv run show ?thesis by (auto simp: cxx_write_main_def Write_destruct_def shm_inv_def)
    next
      case ne: False
      with False st have "Write_run s = Some t" by (auto simp: cxx_write_main_def split: shm_wpc.splits)
      moreover from this have "running t = running s"
        by (auto simp: Write_run_def split: shm_wpc.splits prod.splits option.splits)
      ultimately show ?thesis using write_shared_inv [OF inv] Write_run_as_in_c [OF run] run by simp
    qed
  qed
qed

lemma read_hello_inv:
  assumes "shm_inv l p s" and "rpc s = R_hello" and "t = s\<lparr>one := x, rpc := R_wait\<rparr>"
  shows "shm_inv l p t"
  using assms by (auto simp: shm_inv_def r_ok_def)

lemma cxx_reader_inv:
  assumes good: "cxx_maps Cxx_reader e p" and inv: "shm_inv BUFF p s" and run: "running s" and st: "cxx_read_main e s = Some t"
  shows "shm_inv BUFF p t \<and> running t"
proof -
  from inv have page: "page_ok BUFF (files s p) (stored s)" and r: "r_ok (rpc s) (ri s) (printed s) (stored s)"
    and two: "named (two s) \<longrightarrow> valid (obj (two s))"
    by (auto simp: shm_inv_def count_ok_def split: if_splits)
  show ?thesis
  proof (cases "rpc s = R_one \<or> rpc s = R_two \<or> rpc s = R_map")
    case True
    with st have "Read_construct e s = Some t" by (auto simp: cxx_read_main_def)
    from Read_construct_cases [OF good page this] show ?thesis
    proof (elim disjE exE conjE)
      assume a: "rpc s = R_one" "t = s\<lparr>has_one_r := open_sem (one s), rpc := R_two\<rparr>"
      then have "t = s\<lparr>rpc := R_two\<rparr>\<lparr>has_one_r := open_sem (one s)\<rparr>" by simp
      with a(1) inv run r show ?thesis by (auto intro!: shm_inv_rpc simp: r_ok_def)
    next
      assume "rpc s = R_map" "t = s\<lparr>rmap := Some (p, BUFF), rpc := R_hello\<rparr>"
      with inv run show ?thesis by (auto simp: shm_inv_def r_ok_def r_covers_def)
    qed (use inv run r two in \<open>auto intro!: shm_inv_rpc simp: r_ok_def\<close>)
  next
    case False
    then consider (hello) "rpc s = R_hello" | (close) "rpc s = R_close" | (loop) "rpc s \<noteq> R_hello" "Read_run s = Some t"
      using st by (auto simp: cxx_read_main_def split: shm_rpc.splits)
    then show ?thesis
    proof cases
      case hello
      with st have "t = s\<lparr>one := post_sem (one s), rpc := R_wait\<rparr>" by (simp add: cxx_read_main_def Read_run_def)
      with read_hello_inv [OF inv hello this] run show ?thesis by simp
    next
      case close
      with st have "t = s\<lparr>rpc := R_done\<rparr>" by (simp add: cxx_read_main_def Read_destruct_def)
      with close inv run r show ?thesis by (auto intro!: shm_inv_rpc simp: shm_inv_def r_ok_def)
    next
      case loop
      from loop(2) have "running t = running s" by (auto simp: Read_run_def split: shm_rpc.splits option.splits)
      with loop print_shared_inv [OF inv] Read_run_as_in_c [OF loop(1)] run show ?thesis by simp
    qed
  qed
qed

lemma shm_read_main_running: "shm_read_main e s = Some t \<Longrightarrow> running t = running s"
  by (auto simp: shm_read_main_def print_shared_def r_call_Some open_mapping_def close_semaphores_def Let_def
      split: shm_rpc.splits option.splits if_splits)

lemma cxx_shm_step_inv:
  assumes "cxx_maps v e p" and "cxx_shm_inv p s" and "cxx_shm_step v e a s = Some t"
  shows "cxx_shm_inv p t"
proof (cases a)
  case Cxx_writer
  with assms cxx_writer_inv [of v e p s t] show ?thesis by (simp add: cxx_shm_inv_def)
next
  case A_reader
  show ?thesis
  proof (cases v)
    case C_reader
    with A_reader assms have "reader_maps e p" "shm_read_main e s = Some t" by (simp_all add: cxx_maps_def)
    with shm_reader_inv [OF this(1) _ this(2)] shm_read_main_running assms(2) show ?thesis by (auto simp: cxx_shm_inv_def)
  next
    case Cxx_reader
    with A_reader assms cxx_reader_inv [of e p s t] show ?thesis by (simp add: cxx_shm_inv_def)
  qed
qed

lemma cxx_shm_start_inv: "file_ok (fs p) \<Longrightarrow> cxx_shm_inv p (cxx_shm_start n1 no_sem fs inp)"
  by (auto simp: cxx_shm_inv_def shm_inv_def cxx_shm_start_def no_sem_def count_ok_def page_ok_def r_ok_def file_ok_def
      split: option.splits)

lemma cxx_shm_invariant:
  "cxx_maps v e p \<Longrightarrow> file_ok (fs p) \<Longrightarrow>
    invariant_system (cxx_shm_step v e) (cxx_shm_start n1 no_sem fs inp) (cxx_shm_inv p)"
  by unfold_locales (auto intro: cxx_shm_step_inv cxx_shm_start_inv)

section \<open>Properties\<close>

text \<open>
  The C++ writer and a reader, the C++ or the C one: for every interleaving, every input and
  every result of the calls but \<open>mmap\<close>, and even if the first semaphore is left over with any
  value, the reader never faults, what it has printed is a prefix of what the writer has
  stored, and it is done only when it has printed everything including the final 0. The
  writer stores nothing after a 0, and it faults only when it has filled the 255 bytes
  without storing one.
\<close>

theorem cpp_shm_prints_what_was_stored:
  assumes "cxx_maps v e p" and "file_ok (fs p)" and "reach (cxx_shm_step v e) (cxx_shm_start n1 no_sem fs inp) s"
  shows "rpc s \<noteq> R_fault \<and> prefix (printed s) (stored s) \<and> END_CHAR \<notin> set (butlast (stored s)) \<and>
    (rpc s = R_done \<longrightarrow> printed s = stored s \<and> stored s \<noteq> [] \<and> last (stored s) = END_CHAR) \<and>
    (wpc s = W_fault \<longrightarrow> length (stored s) = 255 \<and> END_CHAR \<notin> set (stored s))"
proof -
  from invariant_system.reach_inv [OF cxx_shm_invariant, OF assms] have inv: "shm_inv BUFF p s" by (simp add: cxx_shm_inv_def)
  then have "rpc s \<noteq> R_fault" "prefix (printed s) (stored s)" "END_CHAR \<notin> set (butlast (stored s))"
    "wpc s = W_fault \<longrightarrow> length (stored s) = 255 \<and> END_CHAR \<notin> set (stored s)"
    by (auto simp: shm_inv_def r_ok_def take_is_prefix)
  with shm_done_all [OF inv] show ?thesis by blast
qed

section \<open>Both processes finish\<close>

definition cxx_ready :: "version \<Rightarrow> cxx_shm_env \<Rightarrow> string \<Rightarrow> bool" where
  "cxx_ready v e p \<longleftrightarrow>
     cxx_maps v e p \<and> sem_open_ok e One \<and> sem_open_ok e Two \<and> open_ok e \<and> cwd_ok_w e \<and> cwd_ok_r e \<and> sem_close_ok e"

definition cxx_live :: "string \<Rightarrow> char list \<Rightarrow> char list \<Rightarrow> cxx_shm \<Rightarrow> bool" where
  "cxx_live p txt rest s \<longleftrightarrow> shm_live BUFF p txt rest s \<and> (wpc s = W_two \<longrightarrow> has_one_w s) \<and> wpc s \<notin> {W_handler, W_hello, W_ready}"

lemma shm_live_has [simp]:
  "shm_live l p txt rest (s\<lparr>has_one_w := b\<rparr>) \<longleftrightarrow> shm_live l p txt rest s"
  "shm_live l p txt rest (s\<lparr>has_one_r := b\<rparr>) \<longleftrightarrow> shm_live l p txt rest s"
  "shm_work txt (s\<lparr>has_one_w := b\<rparr>) = shm_work txt s" "shm_work txt (s\<lparr>has_one_r := b\<rparr>) = shm_work txt s"
  by (simp_all add: shm_live_def shm_work_def)

lemma Write_construct_live:
  assumes live: "cxx_live p txt rest s" and inv': "shm_inv BUFF p t" and good: "cxx_ready v e p"
    and st: "Write_construct e s = Some t"
  shows "cxx_live p txt rest t \<and> shm_work txt t < shm_work txt s"
proof -
  from good have maps: "cxx_maps v e p" and ok: "sem_open_ok e One" "sem_open_ok e Two" "open_ok e" "cwd_ok_w e"
    by (simp_all add: cxx_ready_def)
  from ok have sems: "init_sem e w x = (b, y) \<Longrightarrow> b" for w x b y by (cases w) (auto simp: init_sem_def sem_open_create_def split: if_splits)
  from live have l: "shm_live BUFF p txt rest s" by (simp add: cxx_live_def)
  then have page: "page_ok BUFF (files s p) (stored s)" by (simp add: shm_live_def shm_inv_def)
  from Write_construct_cases [OF maps page st] show ?thesis
  proof (elim disjE exE conjE)
    fix x b assume a: "wpc s = W_one" "init_sem e One (one s) = (b, x)" "t = s\<lparr>one := x, has_one_w := b, wpc := W_two\<rparr>"
    from a(1) l have "\<not> valid (obj (one s))" "\<not> named (one s)" by (auto simp: shm_live_def count_ok_def)
    with init_sem_cases [OF a(2)] sems [OF a(2)] have "b" "x = \<lparr>named = True, obj = \<lparr>valid = True, val = 0\<rparr>\<rparr>" by auto
    with a l inv' show ?thesis by (auto simp: cxx_live_def shm_live_def shm_work_def count_ok_def)
  next
    fix x b m assume "wpc s = W_two" "init_sem e Two (two s) = (b, x)" "\<not> (has_one_w s \<and> b)"
    with live sems show ?thesis by (auto simp: cxx_live_def)
  next
    fix x assume "wpc s = W_two" "t = s\<lparr>two := x, wpc := W_map\<rparr>"
    with l inv' show ?thesis by (auto simp: cxx_live_def shm_live_def shm_work_def)
  next
    assume "wpc s = W_map" "t = s\<lparr>wmap := Some (p, BUFF), wpc := W_wait\<rparr>"
    with l inv' show ?thesis by (auto simp: cxx_live_def shm_live_def shm_work_def count_ok_def)
  qed (use ok in simp)
qed

lemma Write_run_pc: "Write_run s = Some t \<Longrightarrow> wpc t \<notin> {W_handler, W_hello, W_ready, W_two}"
  by (auto simp: Write_run_def split: shm_wpc.splits prod.splits option.splits if_splits)

lemma cxx_writer_live:
  assumes live: "cxx_live p txt rest s" and good: "cxx_ready v e p" and tx: "END_CHAR \<notin> set txt" "length txt < BUFF"
    and st: "cxx_write_main e s = Some t"
  shows "cxx_live p txt rest t \<and> shm_work txt t < shm_work txt s"
proof -
  from live have l: "shm_live BUFF p txt rest s" and run: "running s" and pc: "wpc s \<notin> {W_handler, W_hello, W_ready}"
    by (auto simp: cxx_live_def shm_live_def)
  from good l have "cxx_maps v e p" "shm_inv BUFF p s" by (simp_all add: cxx_ready_def shm_live_def)
  from cxx_writer_inv [OF this run st] have inv': "shm_inv BUFF p t" by simp
  consider (construct) "Write_construct e s = Some t" | (close) "wpc s = W_close" | (loop) "Write_run s = Some t"
    using st by (auto simp: cxx_write_main_def split: shm_wpc.splits)
  then show ?thesis
  proof cases
    case construct
    from Write_construct_live [OF live inv' good this] show ?thesis .
  next
    case close
    with st have "t = s\<lparr>one := (one s)\<lparr>named := False\<rparr>, two := (two s)\<lparr>named := False\<rparr>, wpc := W_done\<rparr>"
      by (simp add: cxx_write_main_def Write_destruct_def)
    with close l inv' show ?thesis by (auto simp: cxx_live_def shm_live_def shm_work_def count_ok_def)
  next
    case loop
    with write_shared_live [OF l tx] Write_run_as_in_c [OF run] Write_run_pc [OF loop] show ?thesis by (simp add: cxx_live_def)
  qed
qed

lemma cxx_reader_live:
  assumes l: "shm_live BUFF p txt rest s" and good: "cxx_ready Cxx_reader e p" and tx: "END_CHAR \<notin> set txt"
    and st: "cxx_read_main e s = Some t"
  shows "shm_live BUFF p txt rest t \<and> shm_work txt t < shm_work txt s"
proof -
  from good l have maps: "cxx_maps Cxx_reader e p" and inv: "shm_inv BUFF p s" "running s" by (simp_all add: cxx_ready_def shm_live_def)
  from cxx_reader_inv [OF maps inv st] have inv': "shm_inv BUFF p t" by simp
  from inv have page: "page_ok BUFF (files s p) (stored s)" by (simp add: shm_inv_def)
  consider (construct) "Read_construct e s = Some t" | (hello) "rpc s = R_hello" | (close) "rpc s = R_close"
    | (loop) "rpc s \<noteq> R_hello" "Read_run s = Some t"
    using st by (auto simp: cxx_read_main_def split: shm_rpc.splits)
  then show ?thesis
  proof cases
    case construct
    from Read_construct_cases [OF maps page this] show ?thesis
    proof (elim disjE exE conjE)
      assume a: "rpc s = R_one" "t = s\<lparr>has_one_r := open_sem (one s), rpc := R_two\<rparr>"
      then have t: "t = s\<lparr>rpc := R_two\<rparr>\<lparr>has_one_r := open_sem (one s)\<rparr>" by simp
      with inv' have "shm_inv BUFF p (s\<lparr>rpc := R_two\<rparr>)" by simp
      with a(1) l have "shm_live BUFF p txt rest (s\<lparr>rpc := R_two\<rparr>) \<and> shm_work txt (s\<lparr>rpc := R_two\<rparr>) < shm_work txt s"
        by (auto simp: shm_live_def shm_work_def)
      with t show ?thesis by simp
    qed (use l inv' in \<open>auto simp: shm_live_def shm_work_def\<close>)
  next
    case hello
    from shm_live_valid [OF l] hello have v: "valid (obj (one s))" by simp
    with hello st shm_post_one [OF l] have
      "t = s\<lparr>one := (one s)\<lparr>obj := (obj (one s))\<lparr>val := Suc (val (obj (one s)))\<rparr>\<rparr>, rpc := R_wait\<rparr>"
      by (simp add: cxx_read_main_def Read_run_def)
    with v hello l inv' show ?thesis by (auto simp: shm_live_def shm_work_def count_ok_def)
  next
    case close
    with st have "t = s\<lparr>rpc := R_done\<rparr>" by (simp add: cxx_read_main_def Read_destruct_def)
    with close l inv' show ?thesis by (auto simp: shm_live_def shm_work_def)
  next
    case loop
    with print_shared_live [OF l tx] Read_run_as_in_c [OF loop(1)] show ?thesis by simp
  qed
qed

lemma cxx_shm_step_live:
  assumes live: "cxx_live p txt rest s" and good: "cxx_ready v e p" and tx: "END_CHAR \<notin> set txt" "length txt < BUFF"
    and st: "cxx_shm_step v e a s = Some t"
  shows "cxx_live p txt rest t \<and> shm_work txt t < shm_work txt s"
proof (cases a)
  case Cxx_writer
  with cxx_writer_live [OF live good tx] st show ?thesis by simp
next
  case A_reader
  from live have l: "shm_live BUFF p txt rest s" by (simp add: cxx_live_def)
  have "(shm_live BUFF p txt rest t \<and> shm_work txt t < shm_work txt s) \<and> wpc t = wpc s \<and> has_one_w t = has_one_w s"
  proof (cases v)
    case C_reader
    with good have "shm_reader_ready e p" by (simp add: cxx_ready_def cxx_maps_def shm_reader_ready_def)
    moreover from st A_reader C_reader have r: "shm_read_main e s = Some t" by simp
    moreover from r have "wpc t = wpc s \<and> has_one_w t = has_one_w s"
      by (auto simp: shm_read_main_def print_shared_def r_call_Some open_mapping_def close_semaphores_def Let_def
          split: shm_rpc.splits option.splits if_splits)
    ultimately show ?thesis using shm_live_reader [OF l _ tx(1)] by simp
  next
    case Cxx_reader
    with st A_reader have r: "cxx_read_main e s = Some t" by simp
    moreover from r have "wpc t = wpc s \<and> has_one_w t = has_one_w s"
      by (auto simp: cxx_read_main_def Read_construct_def Read_run_def Read_destruct_def read_catch_def Let_def
          split: shm_rpc.splits option.splits if_splits)
    ultimately show ?thesis using cxx_reader_live [OF l _ tx(1)] good Cxx_reader by simp
  qed
  with live show ?thesis by (simp add: cxx_live_def)
qed

definition cxx_shm_final :: "cxx_shm \<Rightarrow> bool" where
  "cxx_shm_final s \<longleftrightarrow> wpc s = W_done \<and> rpc s = R_done \<or> wpc s = W_wait \<and> wi s = 0 \<and> (\<exists>m. rpc s = R_exit m)"

lemma cxx_writer_stuck:
  "cxx_write_main e s = None \<Longrightarrow> wpc s \<notin> {W_handler, W_hello, W_ready} \<Longrightarrow>
    (wpc s = W_hello \<or> wpc s = W_wait) \<and> val (obj (one s)) = 0 \<or> wpc s = W_done \<or> (\<exists>m. wpc s = W_exit m) \<or> wpc s = W_fault"
  by (cases "wpc s")
    (auto simp: cxx_write_main_def Write_construct_def Write_run_def Let_def split: option.splits prod.splits if_splits dest: wait_sem_None)

lemma cxx_reader_stuck:
  "cxx_read_main e s = None \<Longrightarrow> rpc s = R_wait \<and> val (obj (two s)) = 0 \<or>
     rpc s = R_done \<or> (\<exists>m. rpc s = R_exit m) \<or> rpc s = R_fault"
  by (cases "rpc s")
    (auto simp: cxx_read_main_def Read_construct_def Read_run_def Let_def split: option.splits if_splits dest: wait_sem_None)

lemma cxx_shm_stuck:
  assumes live: "cxx_live p txt rest s" and stuck: "\<And>a. cxx_shm_step v e a s = None"
  shows "cxx_shm_final s"
proof -
  from live have l: "shm_live BUFF p txt rest s" and pc: "wpc s \<notin> {W_handler, W_hello, W_ready}" by (simp_all add: cxx_live_def)
  from stuck [of Cxx_writer] have w: "cxx_write_main e s = None" by simp
  have "rpc s = R_wait \<and> val (obj (two s)) = 0 \<or> rpc s = R_done \<or> (\<exists>m. rpc s = R_exit m) \<or> rpc s = R_fault"
    using stuck [of A_reader] by (cases v) (auto dest: shm_reader_stuck cxx_reader_stuck)
  from shm_stuck_cases [OF l cxx_writer_stuck [OF w pc] this] pc show ?thesis by (auto simp: cxx_shm_final_def)
qed

lemma cxx_shm_terminating:
  assumes "cxx_ready v e p" and "file_ok (fs p)" and "END_CHAR \<notin> set txt" and "length txt < BUFF"
  shows "terminating_system (cxx_shm_step v e) (cxx_shm_start no_sem no_sem fs (txt @ END_CHAR # rest))
    (cxx_live p txt rest) (shm_work txt) cxx_shm_final"
proof
  show "cxx_live p txt rest (cxx_shm_start no_sem no_sem fs (txt @ END_CHAR # rest))"
    using cxx_shm_start_inv [of fs p no_sem "txt @ END_CHAR # rest"] assms(2)
    by (simp add: cxx_live_def shm_live_def cxx_shm_inv_def cxx_shm_start_def count_ok_def no_sem_def)
qed (use cxx_shm_step_live [OF _ assms(1,3,4)] cxx_shm_stuck in blast)+

text \<open>
  C15. Everything typed is printed by the C++ programs, and by the C reader when it reads what the
  C++ writer stores: when all calls succeed, the shared file exists and is not empty, the
  semaphores do not exist yet and the input has a 0 among its first 255 characters, no run at
  all is longer than eight steps per character before the 0 and 19 more, and a run that cannot be continued has ended in one of two ways. Either both processes
  are done and the reader has printed the input up to
  and including the 0, or the reader was started before the writer had created the semaphores
  and has given up without printing, and the writer waits.
\<close>

theorem cpp_shm_all_printed:
  assumes "cxx_ready v e p" and "file_ok (fs p)" and "END_CHAR \<notin> set txt" and "length txt < 255"
    and "run (cxx_shm_step v e) sch (cxx_shm_start no_sem no_sem fs (txt @ END_CHAR # rest)) = Some s"
  shows "length sch \<le> 8 * length txt + 19 \<and>
    ((\<forall>a. cxx_shm_step v e a s = None) \<longrightarrow>
      wpc s = W_done \<and> rpc s = R_done \<and> printed s = txt @ [END_CHAR] \<or>
      wpc s = W_wait \<and> (\<exists>m. rpc s = R_exit m) \<and> printed s = [])"
proof -
  from assms(1-4) have sys: "terminating_system (cxx_shm_step v e) (cxx_shm_start no_sem no_sem fs (txt @ END_CHAR # rest))
      (cxx_live p txt rest) (shm_work txt) cxx_shm_final" by (rule cxx_shm_terminating)
  have fin: "cxx_shm_final s" if "\<forall>a. cxx_shm_step v e a s = None"
    using terminating_system.maximal_final [OF sys assms(5)] that by simp
  from invariant_system.run_inv [OF terminating_system.axioms(1) [OF sys] assms(5)]
  have live: "shm_live BUFF p txt rest s" by (simp add: cxx_live_def)
  then have inv: "shm_inv BUFF p s" by (simp add: shm_live_def)
  have "length sch \<le> 8 * length txt + 19"
    using terminating_system.run_bounded [OF sys assms(5)] by (simp add: shm_work_def cxx_shm_start_def)
  moreover have "printed s = txt @ [END_CHAR]" if "rpc s = R_done"
    using shm_done_all [OF inv] that shm_live_stored [OF live assms(3)] by (auto dest: last_in_set)
  moreover have "printed s = []" if "wpc s = W_wait" "wi s = 0"
    using that inv by (auto simp: shm_inv_def r_ok_def)
  ultimately show ?thesis using fin by (auto simp: cxx_shm_final_def)
qed

section \<open>A conversation\<close>

definition cxx_demo_env :: cxx_shm_env where
  "cxx_demo_env =
     \<lparr>sigaction_ok = True, sem_open_ok = (\<lambda>_. True), sem_close_ok = True, cwd_w = ''/w'', cwd_r = ''/w'',
      junk_w = replicate 256 NUL, junk_r = replicate 256 NUL, open_ok = True, mmap_ok_w = True, mmap_ok_r = True,
      cwd_ok_w = True, cwd_ok_r = True\<rparr>"

definition cxx_demo_schedule :: "cxx_shm_actor list" where
  "cxx_demo_schedule =
     replicate 3 Cxx_writer @ replicate 4 A_reader @ replicate 4 Cxx_writer @ replicate 4 A_reader @ replicate 4 Cxx_writer @
     replicate 4 A_reader @ replicate 5 Cxx_writer @ replicate 5 A_reader"

definition cxx_demo_end :: "version \<Rightarrow> cxx_shm" where
  "cxx_demo_end v =
     the (run (cxx_shm_step v cxx_demo_env) cxx_demo_schedule (cxx_shm_start no_sem no_sem demo_files ''hi0''))"

definition cxx_demo_result :: "version \<Rightarrow> (shm_wpc \<times> shm_rpc \<times> char list) option" where
  "cxx_demo_result v =
     map_option (\<lambda>s. (wpc s, rpc s, printed s))
       (run (cxx_shm_step v cxx_demo_env) cxx_demo_schedule (cxx_shm_start no_sem no_sem demo_files ''hi0''))"

lemma cxx_demo_evaluated:
  "cxx_demo_result C_reader = Some (W_done, R_done, ''hi0'')" "cxx_demo_result Cxx_reader = Some (W_done, R_done, ''hi0'')"
  by code_simp+

lemma cxx_demo_run:
  "run (cxx_shm_step v cxx_demo_env) cxx_demo_schedule (cxx_shm_start no_sem no_sem demo_files ''hi0'') = Some (cxx_demo_end v)"
  "wpc (cxx_demo_end v) = W_done" "rpc (cxx_demo_end v) = R_done" "printed (cxx_demo_end v) = ''hi0''"
proof -
  have "cxx_demo_result v = Some (W_done, R_done, ''hi0'')" using cxx_demo_evaluated by (cases v) simp_all
  then obtain s where s: "run (cxx_shm_step v cxx_demo_env) cxx_demo_schedule (cxx_shm_start no_sem no_sem demo_files ''hi0'') = Some s"
    "wpc s = W_done" "rpc s = R_done" "printed s = ''hi0''" by (auto simp: cxx_demo_result_def)
  then have "cxx_demo_end v = s" by (simp add: cxx_demo_end_def)
  with s show "run (cxx_shm_step v cxx_demo_env) cxx_demo_schedule (cxx_shm_start no_sem no_sem demo_files ''hi0'') = Some (cxx_demo_end v)"
    "wpc (cxx_demo_end v) = W_done" "rpc (cxx_demo_end v) = R_done" "printed (cxx_demo_end v) = ''hi0''" by simp_all
qed

lemma cxx_demo_ready: "cxx_ready v cxx_demo_env demo_path"
proof -
  have "path_of (replicate 256 NUL) ''/w'' = Some demo_path"
    using filepath_eq [of "''/w''" "replicate 256 NUL"] by (simp add: path_of_def demo_path_def FILENAME_def)
  then show ?thesis
    by (cases v) (simp_all add: cxx_ready_def cxx_maps_def reader_maps_def cxx_demo_env_def demo_path_def FILENAME_def)
qed

theorem cpp_shm_prints_what_was_stored_witness:
  "stored (cxx_demo_end Cxx_reader) = ''hi0'' \<and> prefix (printed (cxx_demo_end C_reader)) (stored (cxx_demo_end C_reader))"
proof -
  have r: "reach (cxx_shm_step v cxx_demo_env) (cxx_shm_start no_sem no_sem demo_files ''hi0'') (cxx_demo_end v)" for v
    using cxx_demo_run(1) [of v] reach_iff_run by fast
  have m: "cxx_maps v cxx_demo_env demo_path" for v using cxx_demo_ready by (simp add: cxx_ready_def)
  from cpp_shm_prints_what_was_stored [OF m demo_file_ok r] show ?thesis using cxx_demo_run by metis
qed

theorem cpp_shm_all_printed_witness: "printed (cxx_demo_end C_reader) = ''hi'' @ [CHR ''0''] \<and> wpc (cxx_demo_end C_reader) = W_done"
proof -
  have "\<forall>a. cxx_shm_step C_reader cxx_demo_env a (cxx_demo_end C_reader) = None"
  proof
    fix a show "cxx_shm_step C_reader cxx_demo_env a (cxx_demo_end C_reader) = None"
      using cxx_demo_run(2,3) [of C_reader]
      by (cases a) (simp_all add: cxx_write_main_def Write_run_def shm_read_main_def print_shared_def)
  qed
  with cxx_demo_run [of C_reader] cxx_demo_ready demo_file_ok
    cpp_shm_all_printed [of C_reader cxx_demo_env demo_path demo_files "''hi''" cxx_demo_schedule "[]" "cxx_demo_end C_reader"]
  show ?thesis by auto
qed

end
