(* ===== verification/Two_Way_Pipe.thy ===== *)
theory Two_Way_Pipe
  imports Pipe_Pair
begin

text \<open>
  \<^verbatim>\<open>c/ipc/message_passing/pipe/twowaypipe.c\<close>: two processes that take turns in sending each
  other a line over two pipes, until a line starts with the character 0; an instance of theory
  \<open>Pipe_Pair\<close>. The process that \<open>fork\<close> creates runs \<open>parent_process\<close>, the original one
  \<open>child_process\<close>.

  The two processes share the terminal; what each of them reads from it is a parameter.
  SIGINT may arrive in either process between two of its calls and clears \<open>running\<close>; a
  signal that interrupts a sleeping call is not modelled.
\<close>

section \<open>The processes\<close>

abbreviation (input) TW_STR_BUF :: nat where "TW_STR_BUF \<equiv> 256"

text \<open>The input of a process: the flag \<open>running\<close>, and what its user types.\<close>

type_synonym terminal = "bool \<times> char list"

text \<open>\<open>fgets\<close> and \<open>strtok\<close>, or the end message when the process has been interrupted.\<close>

fun next_message :: "cbuf \<Rightarrow> terminal \<Rightarrow> (cbuf \<times> terminal) option" where
  "next_message buf (running, inp) =
     (if running then map_option (\<lambda>(b, rest). (b, (running, rest))) (read_message TW_STR_BUF buf inp)
      else Some (strncpy buf ''0'' 1, (running, inp)))"

definition parent_process :: "terminal tw_state \<Rightarrow> terminal tw_state option" where
  "parent_process = pp_parent TW_STR_BUF next_message"

definition child_process :: "terminal tw_state \<Rightarrow> terminal tw_state option" where
  "child_process = pp_child TW_STR_BUF next_message"

text \<open>The signal handler.\<close>

fun tw_close_write :: "proc \<Rightarrow> terminal tw_state \<Rightarrow> terminal tw_state option" where
  "tw_close_write Parent s =
     (if fst (pinp s) \<and> ppc s \<notin> {P_done, P_killed, P_undefined} then Some (s\<lparr>pinp := (False, snd (pinp s))\<rparr>) else None)"
| "tw_close_write Child s =
     (if fst (cinp s) \<and> cpc s \<notin> {C_done, C_killed, C_undefined} then Some (s\<lparr>cinp := (False, snd (cinp s))\<rparr>) else None)"

datatype tw_actor = Turn proc | Sigint proc

fun tw_step :: "tw_actor \<Rightarrow> terminal tw_state \<Rightarrow> terminal tw_state option" where
  "tw_step (Turn Parent) s = parent_process s"
| "tw_step (Turn Child) s = child_process s"
| "tw_step (Sigint x) s = tw_close_write x s"

text \<open>
  \<open>main\<close> up to the \<open>fork\<close>: the results of \<open>sigaction\<close> and of the two calls of \<open>pipe\<close>. The
  arrays \<open>msg\<close> start with arbitrary contents.
\<close>

definition create_pipe :: "bool \<Rightarrow> nat \<Rightarrow> (nat + pipe)" where
  "create_pipe ok pipe_id = (if ok then Inr new_pipe else Inl pipe_id)"

datatype tw_exit = No_handler | No_pipe nat

text \<open>When \<open>fork\<close> fails there is no second process, and its ends are not open.\<close>

definition tw_main :: "bool \<Rightarrow> bool \<Rightarrow> bool \<Rightarrow> bool \<Rightarrow> cbuf \<Rightarrow> cbuf \<Rightarrow> char list \<Rightarrow> char list \<Rightarrow> (tw_exit + terminal tw_state)" where
  "tw_main sig_ok ok1 ok2 forked jp jc inp_p inp_c =
     (if \<not> sig_ok then Inl No_handler
      else
        (case create_pipe ok1 1 of
           Inl n \<Rightarrow> Inl (No_pipe n)
         | Inr p1 \<Rightarrow>
             (case create_pipe ok2 2 of
                Inl n \<Rightarrow> Inl (No_pipe n)
              | Inr p2 \<Rightarrow>
                  (let s = tw_start p1 p2 jp jc (True, inp_p) (True, inp_c) in Inr (if forked then s else kill_parent s)))))"

section \<open>The input\<close>

text \<open>How many lines come before the first that starts with 0, as \<open>fgets\<close> splits the input into lines.\<close>

function end_after :: "nat \<Rightarrow> char list \<Rightarrow> nat option" where
  "end_after n inp =
     (if inp = [] \<or> n < 2 then None
      else if hd inp = CHR ''0'' then Some 0
      else map_option Suc (end_after n (snd (get_line (n - 1) inp))))"
  by pat_completeness auto
termination
proof (relation "measure (\<lambda>(n, inp). length inp)", goal_cases)
  case (2 n inp)
  then obtain c cs k where "inp = c # cs" "n - 1 = Suc k" by (cases inp; cases "n - 1") auto
  with get_line_progress [of k c cs] show ?case by (cases "get_line (Suc k) (c # cs)") simp
qed simp

declare end_after.simps [simp del]

lemma is_end_update: "is_end (xs[k := NUL]) \<Longrightarrow> is_end xs"
  by (cases xs; cases k) auto

lemma read_message_end:
  assumes "1 < n" and "inp \<noteq> []" and "read_message n buf inp = Some (b, rest)"
  shows "is_end b \<longleftrightarrow> hd inp = CHR ''0''" and "rest = snd (get_line (n - 1) inp)"
proof -
  obtain l r where g: "get_line (n - 1) inp = (l, r)" by fastforce
  with assms obtain c cs k where i: "inp = c # cs" "n - 1 = Suc k" by (cases inp; cases "n - 1") auto
  with g obtain l' where l: "l = c # l'" by (auto split: if_splits prod.splits)
  from assms g have s: "strtok_newline (overwrite (l @ [NUL]) buf) = Some b" "rest = r"
    by (auto simp: read_message_def fgets_def split: option.splits)
  have e: "is_end (overwrite (l @ [NUL]) buf) \<longleftrightarrow> c = CHR ''0''" using l by (simp add: overwrite_def)
  have "is_end b \<Longrightarrow> is_end (overwrite (l @ [NUL]) buf)"
    using strtok_cases [OF s(1)] is_end_update by auto
  with e strtok_is_end [OF _ s(1)] i show "is_end b \<longleftrightarrow> hd inp = CHR ''0''" by auto
  show "rest = snd (get_line (n - 1) inp)" using s(2) g by simp
qed

definition ends :: "terminal \<Rightarrow> nat option" where
  "ends i = (if fst i then end_after 256 (snd i) else Some 0)"

lemma next_message_ok:
  assumes "msg_ok 256 b"
  shows "\<exists>m i'. next_message b i = Some (m, i') \<and> msg_ok 256 m"
proof (cases "fst i")
  case True
  from assms have "terminated b" "length b = 256" by (auto simp: msg_ok_def)
  with read_message_defined [of "snd i" b 256] terminated_nul [of b] obtain m rest where
    r: "read_message 256 b (snd i) = Some (m, rest)" by blast
  with read_message_terminated [of 256 "snd i" b m rest] read_message_length [of 256 b "snd i" m rest] \<open>terminated b\<close> \<open>length b = 256\<close>
  show ?thesis using True by (cases i) (auto simp: msg_ok_def)
next
  case False
  from assms have "b \<noteq> []" by (auto simp: msg_ok_def)
  from strncpy_zero [OF this] False assms show ?thesis by (cases i) (auto simp: msg_ok_def terminated_def)
qed

lemma next_message_ends:
  assumes "msg_ok 256 b" and "next_message b i = Some (m, i')" and "ends i = Some k"
  shows "is_end m \<or> (\<exists>j. ends i' = Some j \<and> k = Suc j)"
proof (cases "fst i")
  case True
  with assms(3) have i: "snd i \<noteq> []" by (auto simp: ends_def end_after.simps [of 256 "[]"])
  from True assms(2) obtain rest where r: "read_message 256 b (snd i) = Some (m, rest)" "i' = (True, rest)" by (cases i) auto
  from read_message_end [OF _ i r(1)] r(2) assms(3) i True show ?thesis
    by (auto simp: ends_def end_after.simps [of 256 "snd i"] split: if_splits)
next
  case False
  from assms(1) have "b \<noteq> []" by (auto simp: msg_ok_def)
  then have "is_end (strncpy b ''0'' 1)" unfolding strncpy_zero [OF \<open>b \<noteq> []\<close>] by simp
  with False assms(2) show ?thesis by (cases i) auto
qed

interpretation tw: pipe_talk TW_STR_BUF next_message ends
proof unfold_locales
  fix b i
  show "msg_ok 256 b \<Longrightarrow> \<exists>m i'. next_message b i = Some (m, i') \<and> msg_ok 256 m" by (rule next_message_ok)
next
  fix b i m i' k
  show "msg_ok 256 b \<Longrightarrow> next_message b i = Some (m, i') \<Longrightarrow> ends i = Some k \<Longrightarrow> is_end m \<or> (\<exists>j. ends i' = Some j \<and> k = Suc j)"
    by (rule next_message_ends)
qed (simp_all add: PIPE_SIZE_def)

section \<open>The system\<close>

lemma tw_close_write_Some:
  "tw_close_write x s = Some t \<Longrightarrow>
     fst (pinp s) \<and> t = s\<lparr>pinp := (False, snd (pinp s))\<rparr> \<or> fst (cinp s) \<and> t = s\<lparr>cinp := (False, snd (cinp s))\<rparr>"
  by (cases x) (auto split: if_splits)

lemma tw_stepE:
  assumes "tw_step a s = Some t"
  obtains (turn) x where "pair_step TW_STR_BUF next_message x s = Some t"
  | (parent) "fst (pinp s)" "t = s\<lparr>pinp := (False, snd (pinp s))\<rparr>"
  | (child) "fst (cinp s)" "t = s\<lparr>cinp := (False, snd (cinp s))\<rparr>"
proof (cases a)
  case (Turn x)
  with assms that(1) [of x] show thesis by (cases x) (simp_all add: parent_process_def child_process_def)
next
  case (Sigint x)
  with assms that(2,3) tw_close_write_Some [of x s t] show thesis by auto
qed

lemma tw_step_inv: "tw.tw_inv s \<Longrightarrow> tw_step a s = Some t \<Longrightarrow> tw.tw_inv t"
  by (erule tw_stepE) (auto simp: tw.tw_inputs dest: tw.tw_turn_inv)

lemma tw_main_inv: "tw_main so o1 o2 True jp jc ip ic = Inr s \<Longrightarrow> msg_ok 256 jp \<Longrightarrow> length jc = 256 \<Longrightarrow> tw.tw_inv s"
  by (auto simp: tw_main_def create_pipe_def Let_def tw.tw_start_inv split: if_splits)

lemma tw_system: "tw_main so o1 o2 True jp jc ip ic = Inr s0 \<Longrightarrow> msg_ok 256 jp \<Longrightarrow> length jc = 256 \<Longrightarrow> invariant_system tw_step s0 tw.tw_inv"
  by unfold_locales (auto intro: tw_main_inv tw_step_inv)

definition tw_flags :: "terminal tw_state \<Rightarrow> nat" where
  "tw_flags s = (if fst (pinp s) then 1 else 0) + (if fst (cinp s) then 1 else 0)"

lemma next_message_flag: "next_message b i = Some (m, i') \<Longrightarrow> fst i' = fst i"
  by (cases i) (auto split: if_splits)

lemma turn_flags: "pair_step TW_STR_BUF next_message x s = Some t \<Longrightarrow> tw_flags t = tw_flags s"
  by (cases x) (auto simp: tw_flags_def dest!: pp_parent_input pp_child_input dest: next_message_flag)

lemma tw_step_live:
  assumes live: "tw.tw_live s" and st: "tw_step a s = Some t"
  shows "tw.tw_live t \<and> tw.tw_work t + tw_flags t < tw.tw_work s + tw_flags s"
  using st
proof (cases rule: tw_stepE)
  case (turn x)
  from tw.tw_turn_live [OF live turn] turn_flags [OF turn] show ?thesis by simp
next
  case parent
  have "ends (False, snd (pinp s)) = Some 0" by (simp add: ends_def)
  from tw.tw_input_live(1) [OF live this] parent show ?thesis by (simp add: tw_flags_def)
next
  case child
  have "ends (False, snd (cinp s)) = Some 0" by (simp add: ends_def)
  from tw.tw_input_live(2,3) [OF live this] child show ?thesis by (simp add: tw_flags_def)
qed

lemma tw_terminating:
  assumes "tw.tw_live s0"
  shows "terminating_system tw_step s0 tw.tw_live (\<lambda>s. tw.tw_work s + tw_flags s) tw_over"
proof
  fix s
  assume live: "tw.tw_live s" and stuck: "\<And>a. tw_step a s = None"
  from stuck [of "Turn Parent"] stuck [of "Turn Child"] live show "tw_over s"
    by (intro tw.tw_stuck) (simp_all add: tw.tw_live_def parent_process_def child_process_def)
qed (use assms tw_step_live in blast)+

section \<open>Properties\<close>

text \<open>
  C40. The conversation: for every schedule, whatever the two users type and whenever
  they interrupt, provided that the uninitialised array of \<open>parent_process\<close> holds a
  terminated string, neither process reads beyond a string or finds a pipe closed while
  they talk. (The array is used as it is when SIGINT or the end of the input comes before
  the first line; without this assumption the process may read beyond it.) Each receives whole messages, in order, and shows exactly these (the child
  all but the closing 0); the parent is at most one message ahead of the child's answers,
  and the child answers every message before it takes the next. Only the closing message
  that a process sends after it has received a 0 may find the other process gone: then
  SIGPIPE kills the sender, but never both processes.
\<close>

theorem two_way_conversation:
  assumes "msg_ok 256 jp" and "length jc = 256" and "tw_main so o1 o2 True jp jc ip ic = Inr s0" and "reach tw_step s0 s"
  shows "ppc s \<noteq> P_undefined \<and> cpc s \<noteq> C_undefined \<and> prefix (got1 s) (sent1 s) \<and> prefix (got2 s) (sent2 s) \<and>
    length (sent2 s) \<le> length (got1 s) \<and> length (got1 s) \<le> length (sent1 s) \<and> length (sent1 s) \<le> length (got2 s) + 1 \<and>
    pout s = map (\<lambda>b. the (c_str b)) (if ppc s = P_show then butlast (got2 s) else got2 s) \<and>
    cout s = map (\<lambda>b. the (c_str b)) (filter (\<lambda>b. \<not> is_end b) (if cpc s = C_test then butlast (got1 s) else got1 s)) \<and>
    (ppc s = P_killed \<longrightarrow> (cpc s = C_end_write \<or> cpc s = C_done) \<and> ended (got2 s)) \<and>
    (cpc s = C_killed \<longrightarrow> ppc s = P_done \<and> ended (got1 s))"
proof -
  from invariant_system.reach_inv [OF tw_system [OF assms(3,1,2)] assms(4)] have "tw.tw_inv s" .
  then show ?thesis by (rule tw.conversation)
qed

text \<open>
  No deadlock: in every reachable state a process can move, or both have ended. In
  particular neither waits for ever for a message from the other.
\<close>

theorem two_way_no_deadlock:
  assumes "msg_ok 256 jp" and "length jc = 256" and "tw_main so o1 o2 True jp jc ip ic = Inr s0" and "reach tw_step s0 s"
  shows "parent_process s \<noteq> None \<or> child_process s \<noteq> None \<or> tw_over s"
  using invariant_system.reach_inv [OF tw_system [OF assms(3,1,2)] assms(4)] tw.tw_stuck [of s]
  by (auto simp: parent_process_def child_process_def)

text \<open>
  The conversation ends: if the parent's user types a line that starts with 0, after
  \<open>k\<close> other lines, then no run of the two processes has more than \<open>9 * k + 26\<close> steps,
  whatever the child's user types, and a run that cannot be continued has ended both.
\<close>

theorem two_way_ends:
  assumes "msg_ok 256 jp" and "length jc = 256" and "tw_main so o1 o2 True jp jc ip ic = Inr s0" and "end_after 256 ip = Some k"
    and "run tw_step sch s0 = Some s"
  shows "length sch \<le> 9 * k + 26 \<and> ((\<forall>a. tw_step a s = None) \<longrightarrow> tw_over s)"
proof -
  from assms(3) have s0: "s0 = tw_start new_pipe new_pipe jp jc (True, ip) (True, ic)"
    by (auto simp: tw_main_def create_pipe_def Let_def split: if_splits)
  have live: "tw.tw_live s0" using tw_main_inv [OF assms(3,1,2)] assms(4) by (simp add: tw.tw_live_def) (simp add: s0 tw_start_def ends_def)
  have "tw.tw_work s0 + tw_flags s0 = 9 * k + 26"
    using assms(4) by (simp add: s0 tw_start_def tw.tw_work_def tw.tw_receives_def tw.left_def ends_def tw_flags_def)
  moreover have "length sch \<le> tw.tw_work s0 + tw_flags s0" by (rule terminating_system.run_bounded [OF tw_terminating [OF live] assms(5)])
  moreover have "tw_over s" if "\<forall>a. tw_step a s = None"
    using terminating_system.maximal_final [OF tw_terminating [OF live] assms(5)] that by simp
  ultimately show ?thesis by simp
qed

text \<open>
  \<open>main\<close> does not check \<open>fork\<close>: when it fails, the one process there is runs
  \<open>child_process\<close>, finds the first pipe at its end and goes on with an array it has never
  written; if there is a string in it, the process is killed within six steps by SIGPIPE
  when it sends its first message.
\<close>

theorem two_way_no_fork:
  assumes "tw_main so o1 o2 False jp jc ip ic = Inr s0" and "NUL \<in> set jc"
  shows "\<exists>n t. n \<le> 6 \<and> run tw_step (replicate n (Turn Child)) s0 = Some t \<and> cpc t = C_killed"
proof -
  obtain u where u: "c_str jc = Some u" using assms(2) by (simp add: c_str_def)
  from read_message_defined [of ic jc 256] assms(2) obtain b rest where r: "read_message 256 jc ic = Some (b, rest)" by blast
  note defs = tw_main_def create_pipe_def new_pipe_def tw_start_def kill_parent_def child_process_def pp_child_def pipe_read_def child_write_def pipe_write_def
    kill_child_def Let_def
  show ?thesis
  proof (cases "is_end jc")
    case True
    with assms(1) have "\<exists>t. run tw_step (replicate 5 (Turn Child)) s0 = Some t \<and> cpc t = C_killed"
      by (auto simp: defs numeral_eq_Suc split: if_splits)
    then show ?thesis by (intro exI [where x = 5]) simp
  next
    case False
    with assms(1) u r have "\<exists>t. run tw_step (replicate 6 (Turn Child)) s0 = Some t \<and> cpc t = C_killed"
      by (auto simp: defs numeral_eq_Suc split: if_splits)
    then show ?thesis by (intro exI [where x = 6]) simp
  qed
qed

section \<open>A conversation\<close>

definition tw_talk :: "terminal tw_state" where
  "tw_talk =
     (case tw_main True True True True (replicate 256 NUL) (replicate 256 NUL) (''hi'' @ [NEWLINE] @ ''0'' @ [NEWLINE]) (''yo'' @ [NEWLINE]) of
        Inr s \<Rightarrow> s)"

definition tw_schedule :: "tw_actor list" where
  "tw_schedule =
     replicate 4 (Turn Parent) @ replicate 6 (Turn Child) @ replicate 4 (Turn Parent) @ replicate 3 (Turn Child) @
     replicate 3 (Turn Parent) @ replicate 2 (Turn Child) @ replicate 2 (Turn Parent)"

definition tw_result :: "(tw_ppc \<times> tw_cpc \<times> string list \<times> string list) option" where
  "tw_result = map_option (\<lambda>s. (ppc s, cpc s, pout s, cout s)) (run tw_step tw_schedule tw_talk)"

lemma tw_evaluated: "tw_result = Some (P_done, C_done, [''yo'', ''0''], [''hi''])"
  by code_simp

definition tw_end :: "terminal tw_state" where
  "tw_end = the (run tw_step tw_schedule tw_talk)"

lemma tw_end_run: "run tw_step tw_schedule tw_talk = Some tw_end"
  and tw_end_points: "ppc tw_end = P_done" "cpc tw_end = C_done" "pout tw_end = [''yo'', ''0'']" "cout tw_end = [''hi'']"
  using tw_evaluated by (auto simp: tw_result_def tw_end_def)

lemma tw_talk_main:
  "tw_main True True True True (replicate 256 NUL) (replicate 256 NUL) (''hi'' @ [NEWLINE] @ ''0'' @ [NEWLINE]) (''yo'' @ [NEWLINE]) = Inr tw_talk"
  by (simp add: tw_talk_def tw_main_def create_pipe_def Let_def)

lemma zeros_ok: "msg_ok 256 (replicate 256 NUL)"
  by (simp add: msg_ok_def terminated_def)

lemma tw_end_reach: "reach tw_step tw_talk tw_end"
  using tw_end_run reach_iff_run by fast

theorem two_way_conversation_witness:
  "map (\<lambda>b. the (c_str b)) (got2 tw_end) = [''yo'', ''0''] \<and> prefix (got1 tw_end) (sent1 tw_end)"
  using two_way_conversation [OF zeros_ok _ tw_talk_main tw_end_reach] tw_end_points by simp

theorem two_way_no_deadlock_witness: "parent_process tw_end = None \<and> child_process tw_end = None \<and> tw_over tw_end"
proof -
  have "parent_process tw_end = None" "child_process tw_end = None"
    using tw_end_points by (simp_all add: parent_process_def child_process_def pp_parent_def pp_child_def)
  with two_way_no_deadlock [OF zeros_ok _ tw_talk_main tw_end_reach] show ?thesis by simp
qed

theorem two_way_ends_witness: "length tw_schedule \<le> 9 * 1 + 26 \<and> tw_over tw_end"
proof -
  have k: "end_after 256 (''hi'' @ [NEWLINE] @ ''0'' @ [NEWLINE]) = Some 1" by code_simp
  have "tw_step a tw_end = None" for a
    using tw_end_points by (cases "(a, tw_end)" rule: tw_step.cases)
      (auto simp: parent_process_def child_process_def pp_parent_def pp_child_def, case_tac x, auto)
  with two_way_ends [OF zeros_ok _ tw_talk_main k tw_end_run] show ?thesis by simp
qed

theorem two_way_no_fork_witness:
  "\<exists>s0 n t. tw_main True True True False (replicate 256 NUL) (replicate 256 NUL) [] [] = Inr s0 \<and>
     run tw_step (replicate n (Turn Child)) s0 = Some t \<and> cpc t = C_killed"
proof -
  obtain s0 where s0: "tw_main True True True False (replicate 256 NUL) (replicate 256 NUL) [] [] = Inr s0"
    by (simp add: tw_main_def create_pipe_def Let_def)
  from two_way_no_fork [OF this] show ?thesis using s0 by auto
qed

end
