(* ===== verification/Size_Class_Heap.thy ===== *)
theory Size_Class_Heap
  imports Prelude
begin

text \<open>
  \<^verbatim>\<open>c/c_lab07_b.c\<close>: an allocator with size classes. \<open>find_heap\<close> picks a class, \<open>my_malloc\<close>
  maps a block of that size and puts a pointer to the class in front of the memory it
  returns, and the test driver allocates and frees ten thousand elements, first with
  the library's \<open>malloc\<close> and then with \<open>my_malloc\<close>.

  The kernel's \<open>mmap\<close>, the library's \<open>malloc\<close> and \<open>rand\<close> are parameters (\<open>heap_env\<close>):
  the result of the n-th call. Memory is what the program can observe of it: which
  mappings exist, which blocks of the library are live, and the headers written.
  \<open>None\<close> is undefined behaviour: a write through an address that is not mapped, or
  \<open>free\<close> of something that \<open>malloc\<close> did not return.
\<close>

section \<open>State and environment\<close>

record my_heap =
  hp :: u64
  hcounter :: u64
  maxSize :: u64

record heap_env =
  mmap_ret :: "nat \<Rightarrow> u64"
  malloc_ret :: "nat \<Rightarrow> u64"
  rand_ret :: "nat \<Rightarrow> int"

datatype heap_line =
    Start_print | Heap_block nat u64 u64 u64 | End_print
  | Allocating nat | Alloc_done | Freeing | Freeing_done

record heap_state =
  arr_heap :: "my_heap list"
  arr :: "u64 list"
  mmaps :: nat
  mallocs :: nat
  rands :: nat
  maps :: "(u64 \<times> u64) list"
  live :: "u64 list"
  hout :: "heap_line list"
  headers :: "(u64 \<times> nat) list"

definition class_sizes :: "u64 list" where
  "class_sizes =
     [0x00000008, 0x00000010, 0x00000020, 0x00000040, 0x00000080, 0x00000100,
      0x00000200, 0x00000400, 0x00000800, 0x00001000, 0x00002000, 0x00004000,
      0x00008000, 0x00010000, 0x00020000, 0x00040000, 0x00080000, 0x00100000,
      0x00200000, 0x00400000, 0x00800000, 0x01000000, 0x02000000, 0x04000000,
      0x08000000, 0x10000000, 0x20000000, 0x40000000, 0x7f000000]"

definition arr_heap0 :: "my_heap list" where
  "arr_heap0 = map (\<lambda>n. \<lparr>hp = 0, hcounter = 0, maxSize = n\<rparr>) class_sizes"

abbreviation (input) NULL :: u64 where "NULL \<equiv> 0"

definition MAP_FAILED :: u64 where
  "MAP_FAILED = - 1"

definition mmap :: "heap_env \<Rightarrow> u64 \<Rightarrow> u64 \<Rightarrow> heap_state \<Rightarrow> u64 \<times> heap_state" where
  "mmap e hint len s =
     (let a = mmap_ret e (mmaps s) in
      (a, s\<lparr>mmaps := mmaps s + 1, maps := (if a = MAP_FAILED then maps s else (a, len) # maps s)\<rparr>))"

section \<open>The allocator\<close>

text \<open>The loop of \<open>find_heap\<close>: \<open>i\<close> is the index \<open>p\<close> points to, the last argument but one is \<open>heap_len\<close>.\<close>

fun find_loop :: "heap_env \<Rightarrow> u64 \<Rightarrow> nat \<Rightarrow> nat \<Rightarrow> heap_state \<Rightarrow> nat option \<times> heap_state" where
  "find_loop e sz i 0 s = (None, s)"
| "find_loop e sz i (Suc heap_len) s =
     (if sz \<le> maxSize (arr_heap s ! i) then
        (if hp (arr_heap s ! i) = NULL then
           (case mmap e NULL (maxSize (arr_heap s ! i)) s of (a, s') \<Rightarrow>
              let s'' = s'\<lparr>arr_heap := (arr_heap s')[i := (arr_heap s' ! i)\<lparr>hp := a\<rparr>]\<rparr> in
              if a = NULL then (None, s'') else (Some i, s''))
         else (Some i, s))
      else find_loop e sz (i + 1) heap_len s)"

definition find_heap :: "heap_env \<Rightarrow> u64 \<Rightarrow> heap_state \<Rightarrow> nat option \<times> heap_state" where
  "find_heap e sz s = find_loop e sz 0 (length (arr_heap s)) s"

text \<open>\<open>*current = p\<close> is defined if a mapping of at least one pointer starts there.\<close>

definition store_header :: "u64 \<Rightarrow> nat \<Rightarrow> heap_state \<Rightarrow> heap_state option" where
  "store_header a i s =
     (if \<exists>l \<in> set (map snd (filter (\<lambda>m. fst m = a) (maps s))). 8 \<le> l
      then Some (s\<lparr>headers := (a, i) # headers s\<rparr>) else None)"

definition my_malloc :: "heap_env \<Rightarrow> u64 \<Rightarrow> heap_state \<Rightarrow> (u64 \<times> heap_state) option" where
  "my_malloc e sz s =
     (case find_heap e sz s of
        (None, s1) \<Rightarrow> Some (NULL, s1)
      | (Some i, s1) \<Rightarrow>
          (case mmap e (hp (arr_heap s1 ! i)) (maxSize (arr_heap s1 ! i)) s1 of (tmp, s2) \<Rightarrow>
             if tmp \<noteq> NULL then
               (let s3 = s2\<lparr>arr_heap := (arr_heap s2)[i := (arr_heap s2 ! i)\<lparr>hcounter := hcounter (arr_heap s2 ! i) + 1\<rparr>]\<rparr> in
                case store_header tmp i s3 of
                  None \<Rightarrow> None
                | Some s4 \<Rightarrow> Some (tmp + 8, s4))
             else Some (tmp, s2)))"

section \<open>The library functions and the test driver\<close>

definition libc_malloc :: "heap_env \<Rightarrow> u64 \<Rightarrow> heap_state \<Rightarrow> (u64 \<times> heap_state) option" where
  "libc_malloc e sz s =
     (let a = malloc_ret e (mallocs s) in
      Some (a, s\<lparr>mallocs := mallocs s + 1, live := (if a = NULL then live s else a # live s)\<rparr>))"

definition libc_free :: "u64 \<Rightarrow> heap_state \<Rightarrow> heap_state option" where
  "libc_free a s =
     (if a = NULL then Some s else if a \<in> set (live s) then Some (s\<lparr>live := remove1 a (live s)\<rparr>) else None)"

definition NUM_ELEMS :: nat where
  "NUM_ELEMS = 10000"

abbreviation (input) CHAR_MAX :: int where "CHAR_MAX \<equiv> 127"

definition rand_size :: "heap_env \<Rightarrow> heap_state \<Rightarrow> u64" where
  "rand_size e s = word_of_int (rand_ret e (rands s) mod CHAR_MAX)"

text \<open>The loops run over the indices that are left.\<close>

fun malloc_loop ::
  "(u64 \<Rightarrow> heap_state \<Rightarrow> (u64 \<times> heap_state) option) \<Rightarrow> heap_env \<Rightarrow> nat list \<Rightarrow> heap_state \<Rightarrow> heap_state option" where
  "malloc_loop f e [] s = Some s"
| "malloc_loop f e (i # is) s =
     (case f (rand_size e s) (s\<lparr>rands := rands s + 1\<rparr>) of
        None \<Rightarrow> None
      | Some (a, s') \<Rightarrow> malloc_loop f e is (s'\<lparr>arr := (arr s')[i := a]\<rparr>))"

definition heap_say :: "heap_line \<Rightarrow> heap_state \<Rightarrow> heap_state" where
  "heap_say x s = s\<lparr>hout := hout s @ [x]\<rparr>"

definition test_malloc ::
  "(u64 \<Rightarrow> heap_state \<Rightarrow> (u64 \<times> heap_state) option) \<Rightarrow> heap_env \<Rightarrow> heap_state \<Rightarrow> heap_state option" where
  "test_malloc f e s =
     map_option (heap_say Alloc_done) (malloc_loop f e [0..<NUM_ELEMS] (heap_say (Allocating NUM_ELEMS) s))"

fun free_loop :: "(u64 \<Rightarrow> heap_state \<Rightarrow> heap_state option) \<Rightarrow> nat list \<Rightarrow> heap_state \<Rightarrow> heap_state option" where
  "free_loop f [] s = Some s"
| "free_loop f (i # is) s = (case f (arr s ! i) s of None \<Rightarrow> None | Some s' \<Rightarrow> free_loop f is s')"

text \<open>The first loop of \<open>test_free\<close> has an empty body, everything in it being commented out.\<close>

definition test_free ::
  "(u64 \<Rightarrow> heap_state \<Rightarrow> (u64 \<times> heap_state) option) \<Rightarrow> (u64 \<Rightarrow> heap_state \<Rightarrow> heap_state option) \<Rightarrow>
   heap_state \<Rightarrow> heap_state option" where
  "test_free m f s = map_option (heap_say Freeing_done) (free_loop f [0..<NUM_ELEMS] (heap_say Freeing s))"

definition print_heap :: "heap_state \<Rightarrow> heap_state" where
  "print_heap s =
     s\<lparr>hout := hout s @ [Start_print] @
        map (\<lambda>i. Heap_block (i + 1) (maxSize (arr_heap s ! i)) (hcounter (arr_heap s ! i)) (hp (arr_heap s ! i)))
          [0..<length (arr_heap s)] @ [End_print]\<rparr>"

definition heap_main :: "heap_env \<Rightarrow> heap_state \<Rightarrow> heap_state option" where
  "heap_main e s =
     (case test_malloc (libc_malloc e) e (print_heap s) of
        None \<Rightarrow> None
      | Some s1 \<Rightarrow>
         (case test_free (libc_malloc e) libc_free s1 of
            None \<Rightarrow> None
          | Some s2 \<Rightarrow>
             (case test_malloc (my_malloc e) e s2 of
                None \<Rightarrow> None
              | Some s3 \<Rightarrow> map_option print_heap (test_free (my_malloc e) libc_free s3))))"

definition heap_state0 :: heap_state where
  "heap_state0 =
     \<lparr>arr_heap = arr_heap0, arr = replicate NUM_ELEMS 0, mmaps = 0, mallocs = 0, rands = 0,
      maps = [], live = [], hout = [], headers = []\<rparr>"

section \<open>Size classes\<close>

definition heap_ok :: "heap_state \<Rightarrow> bool" where
  "heap_ok s \<longleftrightarrow> map maxSize (arr_heap s) = class_sizes"

lemma class_sizes_length [simp]: "length class_sizes = 29"
  by (simp add: class_sizes_def)

lemma heap_ok_length: "heap_ok s \<Longrightarrow> length (arr_heap s) = 29"
  unfolding heap_ok_def by (metis class_sizes_length length_map)

lemma heap_ok_nth: "heap_ok s \<Longrightarrow> i < 29 \<Longrightarrow> maxSize (arr_heap s ! i) = class_sizes ! i"
  using heap_ok_length by (metis heap_ok_def nth_map)

lemma heap_ok_update: "heap_ok s \<Longrightarrow> maxSize h = maxSize (arr_heap s ! i) \<Longrightarrow> heap_ok (s\<lparr>arr_heap := (arr_heap s)[i := h]\<rparr>)"
  unfolding heap_ok_def by (simp add: map_update) (metis list_update_id map_update)

lemma class_sizes_last: "class_sizes ! 28 = 0x7f000000"
  by (simp add: class_sizes_def)

lemma class_sizes_ge_8: "i < 29 \<Longrightarrow> 8 \<le> class_sizes ! i"
proof -
  have "\<forall>x \<in> set class_sizes. 8 \<le> x" by (simp add: class_sizes_def)
  then show "i < 29 \<Longrightarrow> 8 \<le> class_sizes ! i" by simp
qed

lemma class_sizes_sorted: "sorted class_sizes"
  by (simp add: class_sizes_def)

text \<open>Each class is at most twice the one before.\<close>

lemma class_sizes_double:
  assumes "Suc i < 29"
  shows "uint (class_sizes ! Suc i) \<le> 2 * uint (class_sizes ! i)"
proof -
  have "list_all2 (\<lambda>x y. uint y \<le> 2 * uint x) (butlast class_sizes) (tl class_sizes)"
    by (simp add: class_sizes_def)
  from list_all2_nthD [OF this, of i] assms show ?thesis by (simp add: nth_butlast nth_tl)
qed

section \<open>Finding a class\<close>

definition mmap_never_null :: "heap_env \<Rightarrow> bool" where
  "mmap_never_null e \<longleftrightarrow> (\<forall>n. mmap_ret e n \<noteq> NULL)"

definition same_counters :: "heap_state \<Rightarrow> heap_state \<Rightarrow> bool" where
  "same_counters s t \<longleftrightarrow> map hcounter (arr_heap t) = map hcounter (arr_heap s)"

lemma same_counters_hp: "same_counters s (s\<lparr>arr_heap := (arr_heap s)[i := (arr_heap s ! i)\<lparr>hp := a\<rparr>]\<rparr>)"
  by (simp add: same_counters_def map_update) (metis list_update_id map_update)

text \<open>
  The loop stops at the first class that is large enough, and gives that class an address
  if it had none.
\<close>

lemma find_loop_spec:
  assumes "heap_ok s" and "i + n = 29" and "mmap_never_null e"
  shows "(case find_loop e sz i n s of (r, t) \<Rightarrow>
      heap_ok t \<and> same_counters s t \<and>
      (if \<exists>k \<in> {i..<29}. sz \<le> class_sizes ! k
       then (\<exists>k \<in> {i..<29}. r = Some k \<and> sz \<le> class_sizes ! k \<and> (\<forall>j \<in> {i..<k}. class_sizes ! j < sz) \<and>
              hp (arr_heap t ! k) \<noteq> NULL)
       else r = None \<and> t = s))"
  using assms(2)
proof (induction n arbitrary: i)
  case 0
  with assms(1) show ?case by (simp add: same_counters_def)
next
  case (Suc n)
  then have i: "i < 29" by simp
  have len: "i < length (arr_heap s)" using i heap_ok_length [OF assms(1)] by simp
  show ?case
  proof (cases "sz \<le> class_sizes ! i")
    case True
    show ?thesis
    proof (cases "hp (arr_heap s ! i) = NULL")
      case null: True
      let ?a = "mmap_ret e (mmaps s)"
      let ?t = "s\<lparr>mmaps := mmaps s + 1, maps := (if ?a = MAP_FAILED then maps s else (?a, maxSize (arr_heap s ! i)) # maps s),
          arr_heap := (arr_heap s)[i := (arr_heap s ! i)\<lparr>hp := ?a\<rparr>]\<rparr>"
      have r: "find_loop e sz i (Suc n) s = (Some i, ?t)"
        using True null assms(3) heap_ok_nth [OF assms(1) i] by (simp add: mmap_def mmap_never_null_def Let_def)
      have "heap_ok ?t" "same_counters s ?t" "hp (arr_heap ?t ! i) \<noteq> NULL"
        using heap_ok_update [OF assms(1), of "(arr_heap s ! i)\<lparr>hp := ?a\<rparr>" i] same_counters_hp [of s i ?a] assms(3) len
        by (simp_all add: heap_ok_def same_counters_def mmap_never_null_def)
      moreover have "\<exists>k \<in> {i..<29}. sz \<le> class_sizes ! k" using True i by auto
      ultimately show ?thesis
        unfolding r prod.case if_P [OF \<open>\<exists>k \<in> {i..<29}. sz \<le> class_sizes ! k\<close>]
        using True i by (intro conjI bexI [where x = i]) auto
    next
      case False
      then have "find_loop e sz i (Suc n) s = (Some i, s)"
        using True heap_ok_nth [OF assms(1) i] by simp
      then show ?thesis using assms(1) True False i by (auto simp: same_counters_def intro!: bexI [where x = i])
    qed
  next
    case False
    then have r: "find_loop e sz i (Suc n) s = find_loop e sz (Suc i) n s"
      using heap_ok_nth [OF assms(1) i] by simp
    have ex: "(\<exists>k \<in> {i..<29}. sz \<le> class_sizes ! k) \<longleftrightarrow> (\<exists>k \<in> {Suc i..<29}. sz \<le> class_sizes ! k)"
      using False by (metis Suc_leD Suc_leI atLeastLessThan_iff le_neq_implies_less)
    have all: "(\<forall>j \<in> {i..<k}. class_sizes ! j < sz) \<longleftrightarrow> (\<forall>j \<in> {Suc i..<k}. class_sizes ! j < sz)" for k
      using False by (metis Suc_leD Suc_leI atLeastLessThan_iff le_neq_implies_less linorder_not_le)
    from Suc.IH [of "Suc i"] Suc.prems show ?thesis
      unfolding r ex all by (auto split: prod.splits if_splits)
  qed
qed

lemma find_loop_keeps:
  "find_loop e sz i n s = (r, t) \<Longrightarrow>
   headers t = headers s \<and> live t = live s \<and> arr t = arr s \<and> rands t = rands s \<and> mallocs t = mallocs s"
  by (induction n arbitrary: i) (auto simp: mmap_def Let_def split: if_splits)

lemma find_loop_failed:
  "\<forall>n. mmap_ret e n = MAP_FAILED \<Longrightarrow> find_loop e sz i n s = (r, t) \<Longrightarrow> maps t = maps s"
  by (induction n arbitrary: i) (auto simp: mmap_def Let_def split: if_splits)

lemma fits_largest: "(\<exists>k \<in> {0..<29}. sz \<le> class_sizes ! k) \<longleftrightarrow> sz \<le> 0x7f000000"
proof
  assume "\<exists>k \<in> {0..<29}. sz \<le> class_sizes ! k"
  then obtain k where "k < 29" "sz \<le> class_sizes ! k" by auto
  moreover have "class_sizes ! k \<le> class_sizes ! 28"
    using sorted_nth_mono [OF class_sizes_sorted, of k 28] \<open>k < 29\<close> by simp
  ultimately show "sz \<le> 0x7f000000" by (simp add: class_sizes_last)
next
  assume "sz \<le> 0x7f000000"
  then show "\<exists>k \<in> {0..<29}. sz \<le> class_sizes ! k" by (intro bexI [where x = 28]) (simp_all add: class_sizes_last)
qed

lemma find_heap_spec:
  assumes "heap_ok s" and "mmap_never_null e" and "find_heap e sz s = (r, t)"
  shows "heap_ok t \<and> same_counters s t \<and>
    (if sz \<le> 0x7f000000
     then \<exists>k < 29. r = Some k \<and> sz \<le> class_sizes ! k \<and> (\<forall>j < k. class_sizes ! j < sz) \<and> hp (arr_heap t ! k) \<noteq> NULL
     else r = None \<and> t = s)"
proof -
  from find_loop_spec [OF assms(1) _ assms(2), of 0 29 sz] assms(3) heap_ok_length [OF assms(1)]
  show ?thesis unfolding fits_largest by (auto simp: find_heap_def atLeast0LessThan split: if_splits)
qed

text \<open>
  C35. \<open>find_heap\<close> returns the smallest class that can hold the request, for every size
  up to 0x7f000000, and nothing above. It wastes less than half of the block: for a
  request of more than eight bytes the class is smaller than twice the request. The
  class sizes and the usage counters are not changed.
\<close>

theorem find_heap_smallest:
  assumes "heap_ok s" and "mmap_never_null e"
  shows "(case find_heap e sz s of (r, t) \<Rightarrow>
      heap_ok t \<and> same_counters s t \<and>
      (if sz \<le> 0x7f000000
       then \<exists>k < 29. r = Some k \<and> sz \<le> maxSize (arr_heap t ! k) \<and> (\<forall>j < k. maxSize (arr_heap t ! j) < sz) \<and>
              (8 < sz \<longrightarrow> uint (maxSize (arr_heap t ! k)) < 2 * uint sz)
       else r = None \<and> t = s))"
proof -
  obtain r t where f: "find_heap e sz s = (r, t)" by fastforce
  note spec = find_heap_spec [OF assms f]
  have size: "maxSize (arr_heap t ! j) = class_sizes ! j" if "j < 29" for j
    using heap_ok_nth [OF _ that] spec by blast
  have waste: "uint (class_sizes ! k) < 2 * uint sz" if k: "k < 29" "\<forall>j < k. class_sizes ! j < sz" and "8 < sz" "sz \<le> class_sizes ! k" for k
  proof (cases k)
    case 0
    with that show ?thesis by (simp add: class_sizes_def)
  next
    case (Suc j)
    with k have "uint (class_sizes ! j) < uint sz" by (simp flip: word_less_def)
    with class_sizes_double [of j] Suc k(1) show ?thesis by simp
  qed
  show ?thesis
  proof (cases "sz \<le> 0x7f000000")
    case True
    with spec obtain k where k: "k < 29" "r = Some k" "sz \<le> class_sizes ! k" "\<forall>j < k. class_sizes ! j < sz" by auto
    then have "\<forall>j < k. maxSize (arr_heap t ! j) < sz" using size by simp
    with k size [of k] waste [OF k(1,4)] spec True f show ?thesis by auto
  next
    case False
    with spec f show ?thesis by auto
  qed
qed

section \<open>Allocating\<close>

text \<open>What \<open>mmap\<close> promises when it succeeds: the address of a page, not zero.\<close>

definition mmap_good :: "heap_env \<Rightarrow> bool" where
  "mmap_good e \<longleftrightarrow> (\<forall>n. mmap_ret e n \<noteq> NULL \<and> uint (mmap_ret e n) mod 4096 = 0)"

lemma uint_MAP_FAILED: "uint MAP_FAILED mod 4096 = 4095"
  by code_simp

lemma mmap_good_never_null: "mmap_good e \<Longrightarrow> mmap_never_null e"
  by (simp add: mmap_good_def mmap_never_null_def)

lemma mmap_good_not_failed:
  assumes "mmap_good e"
  shows "mmap_ret e n \<noteq> MAP_FAILED" and "mmap_ret e n + 8 \<noteq> NULL"
proof -
  from assms have m: "uint (mmap_ret e n) mod 4096 = 0" by (simp add: mmap_good_def)
  show "mmap_ret e n \<noteq> MAP_FAILED"
  proof
    assume "mmap_ret e n = MAP_FAILED"
    with m uint_MAP_FAILED show False by simp
  qed
  show "mmap_ret e n + 8 \<noteq> NULL"
  proof
    assume "mmap_ret e n + 8 = 0"
    then have "mmap_ret e n = - 8" by (simp add: eq_neg_iff_add_eq_0)
    with m show False by simp
  qed
qed

lemma sum_list_bump:
  fixes xs :: "u64 list"
  shows "k < length xs \<Longrightarrow> sum_list (xs[k := xs ! k + 1]) = sum_list xs + 1"
  by (induction xs arbitrary: k) (auto split: nat.splits simp: add_ac)

definition counters :: "heap_state \<Rightarrow> u64 list" where
  "counters s = map hcounter (arr_heap s)"

lemma my_malloc_spec:
  assumes "heap_ok s" and "mmap_good e" and "sz \<le> 0x7f000000"
  shows "\<exists>k a t. my_malloc e sz s = Some (a + 8, t) \<and> k < 29 \<and> sz \<le> class_sizes ! k \<and> (\<forall>j < k. class_sizes ! j < sz) \<and>
    a + 8 \<noteq> NULL \<and> (a, class_sizes ! k) \<in> set (maps t) \<and> headers t = (a, k) # headers s \<and>
    heap_ok t \<and> counters t = (counters s)[k := counters s ! k + 1] \<and> live t = live s \<and> arr t = arr s \<and>
    rands t = rands s \<and> (\<exists>n. a = mmap_ret e n)"
proof -
  obtain r s1 where f: "find_heap e sz s = (r, s1)" by fastforce
  from find_heap_spec [OF assms(1) mmap_good_never_null [OF assms(2)] f] assms(3)
  obtain k where k: "k < 29" "r = Some k" "sz \<le> class_sizes ! k" "\<forall>j < k. class_sizes ! j < sz"
    and ok: "heap_ok s1" and cnt: "counters s1 = counters s"
    by (auto simp: same_counters_def counters_def)
  have keep: "headers s1 = headers s \<and> live s1 = live s \<and> arr s1 = arr s \<and> rands s1 = rands s"
    using find_loop_keeps [of e sz 0 "length (arr_heap s)" s] f by (simp add: find_heap_def)
  let ?a = "mmap_ret e (mmaps s1)"
  let ?h = "arr_heap s1 ! k"
  let ?t = "s1\<lparr>mmaps := mmaps s1 + 1, maps := (?a, maxSize ?h) # maps s1,
      arr_heap := (arr_heap s1)[k := ?h\<lparr>hcounter := hcounter ?h + 1\<rparr>], headers := (?a, k) # headers s1\<rparr>"
  note a = mmap_good_not_failed [OF assms(2), of "mmaps s1"]
  have len: "k < length (arr_heap s1)" using k(1) heap_ok_length [OF ok] by simp
  have mx: "maxSize ?h = class_sizes ! k" by (rule heap_ok_nth [OF ok k(1)])
  have "?a \<noteq> NULL" using assms(2) by (simp add: mmap_good_def)
  then have "my_malloc e sz s = Some (?a + 8, ?t)"
    using f k(2) a mx class_sizes_ge_8 [OF k(1)]
    by (auto simp: my_malloc_def mmap_def Let_def store_header_def)
  moreover have "heap_ok ?t"
    using heap_ok_update [OF ok, of "?h\<lparr>hcounter := hcounter ?h + 1\<rparr>" k] by (simp add: heap_ok_def)
  moreover have "counters ?t = (counters s)[k := counters s ! k + 1]"
    unfolding cnt [symmetric] using len by (simp add: counters_def map_update)
  ultimately show ?thesis using k mx a(2) keep by (intro exI [where x = k] exI [where x = ?a] exI [where x = ?t]) auto
qed

text \<open>
  C34. \<open>my_malloc\<close> serves every request up to 0x7f000000 bytes while \<open>mmap\<close> succeeds: it
  returns a pointer eight bytes behind the start of a fresh mapping as large as the
  smallest sufficient class, with the class stored in front of it, and counts the block
  in that class and in no other. Larger requests return a null pointer and change nothing.
\<close>

theorem my_malloc_allocates:
  assumes "heap_ok s" and "mmap_good e"
  shows "if sz \<le> 0x7f000000 then
      \<exists>k a t. my_malloc e sz s = Some (a + 8, t) \<and> k < 29 \<and> sz \<le> class_sizes ! k \<and> (\<forall>j < k. class_sizes ! j < sz) \<and>
        a + 8 \<noteq> NULL \<and> (a, class_sizes ! k) \<in> set (maps t) \<and> headers t = (a, k) # headers s \<and>
        heap_ok t \<and> counters t = (counters s)[k := counters s ! k + 1]
    else my_malloc e sz s = Some (NULL, s)"
proof (cases "sz \<le> 0x7f000000")
  case True
  with my_malloc_spec [OF assms True] show ?thesis by auto
next
  case False
  have "find_heap e sz s = (None, s)"
    using find_heap_spec [OF assms(1) mmap_good_never_null [OF assms(2)]] False by (cases "find_heap e sz s") auto
  with False show ?thesis by (simp add: my_malloc_def)
qed

text \<open>Where a mapping ends.\<close>

definition block_end :: "u64 \<times> u64 \<Rightarrow> int" where
  "block_end m = uint (fst m) + uint (snd m)"

text \<open>
  The memory behind a pointer from \<open>my_malloc\<close> is eight bytes shorter than its class,
  because the header sits in front of it. So a request \<open>sz\<close> fits into its mapping if and
  only if \<open>sz + 8\<close> does not exceed the class size; requests of exactly a class size, for
  instance, overrun the mapping by eight bytes.
\<close>

theorem my_malloc_overruns:
  assumes "heap_ok s" and "mmap_good e" and "sz \<le> 0x7f000000"
    and "\<forall>n. uint (mmap_ret e n) + 0x7f000000 < 2 ^ 64"
  shows "\<exists>k a p t. my_malloc e sz s = Some (p, t) \<and> (a, class_sizes ! k) \<in> set (maps t) \<and> headers t = (a, k) # headers s \<and>
    sz \<le> class_sizes ! k \<and> (\<forall>j < k. class_sizes ! j < sz) \<and>
    (uint p + uint sz \<le> block_end (a, class_sizes ! k) \<longleftrightarrow> uint sz + 8 \<le> uint (class_sizes ! k)) \<and>
    (sz \<in> set class_sizes \<longrightarrow> uint p + uint sz = block_end (a, class_sizes ! k) + 8)"
proof -
  from my_malloc_spec [OF assms(1-3)] obtain k a t where m: "my_malloc e sz s = Some (a + 8, t)" "k < 29"
      "sz \<le> class_sizes ! k" "\<forall>j < k. class_sizes ! j < sz" "(a, class_sizes ! k) \<in> set (maps t)" "headers t = (a, k) # headers s"
      "\<exists>n. a = mmap_ret e n"
    by blast
  from m(7) assms(4) have "uint a + 0x7f000000 < 2 ^ 64" by auto
  then have p: "uint (a + 8) = uint a + 8" by (simp add: uint_plus_if')
  have "sz = class_sizes ! k" if "sz \<in> set class_sizes"
  proof -
    from that obtain i where i: "i < 29" "sz = class_sizes ! i" by (auto simp: in_set_conv_nth)
    with m(4) have "\<not> i < k" by auto
    then have "class_sizes ! k \<le> class_sizes ! i"
      using sorted_nth_mono [OF class_sizes_sorted, of k i] i(1) by simp
    with i m(3) show ?thesis by simp
  qed
  with m p show ?thesis
    by (intro exI [where x = k] exI [where x = a] exI [where x = "a + 8"] exI [where x = t]) (auto simp: block_end_def)
qed

text \<open>
  A failing \<open>mmap\<close> is not noticed. It returns \<open>MAP_FAILED\<close>, which is not a null
  pointer, and the tests compare with null: the header is then written through
  \<open>MAP_FAILED\<close>, which is undefined, for every size that has a class.
\<close>

theorem my_malloc_ignores_map_failed:
  assumes "heap_ok s" and "\<forall>n. mmap_ret e n = MAP_FAILED" and "MAP_FAILED \<notin> fst ` set (maps s)" and "sz \<le> 0x7f000000"
  shows "my_malloc e sz s = None"
proof -
  from assms(2) have never: "mmap_never_null e" by (simp add: mmap_never_null_def MAP_FAILED_def)
  obtain r t where f: "find_heap e sz s = (r, t)" by fastforce
  from find_heap_spec [OF assms(1) never f] assms(4) obtain k where "r = Some k" by auto
  have "maps t = maps s"
    using f assms(2) find_loop_failed [of e sz 0 "length (arr_heap s)" s] by (simp add: find_heap_def)
  with f \<open>r = Some k\<close> assms(2,3) show ?thesis
    by (auto simp: my_malloc_def mmap_def Let_def store_header_def MAP_FAILED_def image_iff)
qed

section \<open>The test driver\<close>

lemma rand_size_small: "rand_size e s \<le> 0x7f000000"
proof -
  have "uint (rand_size e s) = rand_ret e (rands s) mod 127"
    unfolding rand_size_def uint_word_of_int by (rule mod_pos_pos_trivial) (auto intro: order.strict_trans [of _ 127])
  also have "\<dots> \<le> uint (0x7f000000 :: u64)" using pos_mod_bound [of 127 "rand_ret e (rands s)"] by simp
  finally show ?thesis by (simp add: word_le_def)
qed

lemma my_malloc_loop:
  assumes "heap_ok s" and "mmap_good e"
  shows "\<exists>t. malloc_loop (my_malloc e) e is s = Some t \<and> heap_ok t \<and> live t = live s \<and>
    length (arr t) = length (arr s) \<and> sum_list (counters t) = sum_list (counters s) + of_nat (length is) \<and>
    (\<forall>j. j \<notin> set is \<longrightarrow> arr t ! j = arr s ! j) \<and> (\<forall>j \<in> set is. j < length (arr s) \<longrightarrow> arr t ! j \<noteq> NULL)"
  using assms(1)
proof (induction "is" arbitrary: s)
  case (Cons i "is")
  let ?s = "s\<lparr>rands := rands s + 1\<rparr>"
  have "heap_ok ?s" using Cons.prems by (simp add: heap_ok_def)
  from my_malloc_spec [OF this assms(2) rand_size_small, of e s]
  obtain k a t where m: "my_malloc e (rand_size e s) ?s = Some (a + 8, t)" "k < 29" "a + 8 \<noteq> NULL" "heap_ok t"
      "counters t = (counters ?s)[k := counters ?s ! k + 1]" "live t = live ?s" "arr t = arr ?s"
    by blast
  let ?t = "t\<lparr>arr := (arr t)[i := a + 8]\<rparr>"
  have "heap_ok ?t" using m(4) by (simp add: heap_ok_def)
  from Cons.IH [OF this] obtain u where u: "malloc_loop (my_malloc e) e is ?t = Some u" "heap_ok u" "live u = live ?t"
      "length (arr u) = length (arr ?t)" "sum_list (counters u) = sum_list (counters ?t) + of_nat (length is)"
      "\<forall>j. j \<notin> set is \<longrightarrow> arr u ! j = arr ?t ! j" "\<forall>j \<in> set is. j < length (arr ?t) \<longrightarrow> arr u ! j \<noteq> NULL"
    by blast
  have "length (counters s) = 29" using heap_ok_length [OF Cons.prems] by (simp add: counters_def)
  then have "sum_list (counters ?t) = sum_list (counters s) + 1"
    using m(2,5) sum_list_bump [of k "counters s"] by (simp add: counters_def)
  with m u show ?case by (auto simp: nth_list_update algebra_simps)
qed (simp add: counters_def)

text \<open>
  The accounting of the allocator: while \<open>mmap\<close> succeeds, \<open>test_malloc\<close> with
  \<open>my_malloc\<close> completes for every sequence of random sizes, fills the whole array with
  non-null pointers, and adds its ten thousand blocks to the usage counters of the
  classes; the class sizes stay as they are.
\<close>

theorem test_malloc_accounts:
  assumes "heap_ok s" and "mmap_good e" and "length (arr s) = NUM_ELEMS"
  shows "\<exists>t. test_malloc (my_malloc e) e s = Some t \<and> heap_ok t \<and> (\<forall>j < NUM_ELEMS. arr t ! j \<noteq> NULL) \<and>
    sum_list (counters t) = sum_list (counters s) + 10000"
proof -
  let ?s = "heap_say (Allocating NUM_ELEMS) s"
  have "heap_ok ?s" using assms(1) by (simp add: heap_ok_def heap_say_def)
  from my_malloc_loop [OF this assms(2), of "[0..<NUM_ELEMS]"]
  obtain t where t: "malloc_loop (my_malloc e) e [0..<NUM_ELEMS] ?s = Some t" "heap_ok t"
      "sum_list (counters t) = sum_list (counters ?s) + of_nat (length [0..<NUM_ELEMS])"
      "\<forall>j \<in> set [0..<NUM_ELEMS]. j < length (arr ?s) \<longrightarrow> arr t ! j \<noteq> NULL"
    by blast
  then have "test_malloc (my_malloc e) e s = Some (heap_say Alloc_done t)"
    by (simp only: test_malloc_def option.map)
  moreover have "heap_ok (heap_say Alloc_done t)" "arr (heap_say Alloc_done t) = arr t"
    "counters (heap_say Alloc_done t) = counters t" "counters ?s = counters s" "arr ?s = arr s"
    using t(2) by (simp_all add: heap_ok_def heap_say_def counters_def)
  ultimately show ?thesis using t(3,4) assms(3) by (simp add: NUM_ELEMS_def)
qed

section \<open>The library's allocator, and freeing what it did not allocate\<close>

text \<open>What the library promises of \<open>malloc\<close>: blocks that are live at the same time are different.\<close>

definition malloc_good :: "heap_env \<Rightarrow> bool" where
  "malloc_good e \<longleftrightarrow> inj_on (malloc_ret e) {n. n < NUM_ELEMS \<and> malloc_ret e n \<noteq> NULL}"

lemma libc_malloc_loop:
  assumes "mallocs s = i" and "i + n = length (arr s)"
  shows "\<exists>t. malloc_loop (libc_malloc e) e [i..<i + n] s = Some t \<and> arr_heap t = arr_heap s \<and>
    length (arr t) = length (arr s) \<and> (\<forall>j < i. arr t ! j = arr s ! j) \<and> (\<forall>j \<in> {i..<i + n}. arr t ! j = malloc_ret e j) \<and>
    live t = rev (filter (\<lambda>a. a \<noteq> NULL) (map (malloc_ret e) [i..<i + n])) @ live s"
  using assms
proof (induction n arbitrary: i s)
  case (Suc n)
  let ?a = "malloc_ret e i"
  let ?t = "s\<lparr>rands := rands s + 1, mallocs := Suc i, live := (if ?a = NULL then live s else ?a # live s), arr := (arr s)[i := ?a]\<rparr>"
  have up: "[i..<i + Suc n] = i # [Suc i..<Suc i + n]" by (simp add: upt_conv_Cons)
  have r: "malloc_loop (libc_malloc e) e [i..<i + Suc n] s = malloc_loop (libc_malloc e) e [Suc i..<Suc i + n] ?t"
    unfolding up using Suc.prems(1) by (simp add: libc_malloc_def Let_def)
  from Suc.IH [of ?t "Suc i"] Suc.prems obtain u where u: "malloc_loop (libc_malloc e) e [Suc i..<Suc i + n] ?t = Some u"
      "arr_heap u = arr_heap ?t" "length (arr u) = length (arr ?t)" "\<forall>j < Suc i. arr u ! j = arr ?t ! j"
      "\<forall>j \<in> {Suc i..<Suc i + n}. arr u ! j = malloc_ret e j"
      "live u = rev (filter (\<lambda>a. a \<noteq> NULL) (map (malloc_ret e) [Suc i..<Suc i + n])) @ live ?t"
    by auto
  have "arr u ! j = malloc_ret e j" if "j \<in> {i..<i + Suc n}" for j
    using u(4,5) that Suc.prems(2) by (cases "j = i") auto
  moreover have "arr u ! j = arr s ! j" if "j < i" for j using u(4) that by simp
  ultimately show ?case unfolding r using u up by auto
qed simp

lemma libc_free_loop:
  assumes "distinct is" and "inj_on (\<lambda>j. arr s ! j) {j \<in> set is. arr s ! j \<noteq> NULL}" and "distinct (live s)"
    and "set (live s) = (\<lambda>j. arr s ! j) ` {j \<in> set is. arr s ! j \<noteq> NULL}"
  shows "\<exists>t. free_loop libc_free is s = Some t \<and> live t = [] \<and> arr_heap t = arr_heap s \<and> arr t = arr s"
  using assms
proof (induction "is" arbitrary: s)
  case (Cons i "is")
  show ?case
  proof (cases "arr s ! i = NULL")
    case True
    then have "{j \<in> set (i # is). arr s ! j \<noteq> NULL} = {j \<in> set is. arr s ! j \<noteq> NULL}" by auto
    with Cons.IH [of s] Cons.prems True show ?thesis by (simp add: libc_free_def)
  next
    case False
    let ?t = "s\<lparr>live := remove1 (arr s ! i) (live s)\<rparr>"
    let ?f = "\<lambda>j. arr s ! j"
    let ?J = "{j \<in> set is. arr s ! j \<noteq> NULL}"
    have J: "{j \<in> set (i # is). arr s ! j \<noteq> NULL} = insert i ?J" using False by auto
    have "i \<notin> ?J" using Cons.prems(1) by simp
    have inj: "inj_on ?f (insert i ?J)" and set: "set (live s) = ?f ` insert i ?J"
      using Cons.prems(2,4) unfolding J by blast+
    from inj \<open>i \<notin> ?J\<close> have fresh: "?f i \<notin> ?f ` ?J" by (auto simp: inj_on_def)
    from set have "arr s ! i \<in> set (live s)" by blast
    then have "free_loop libc_free (i # is) s = free_loop libc_free is ?t" using False by (simp add: libc_free_def)
    moreover have "set (live ?t) = ?f ` ?J" using Cons.prems(3) set fresh by auto
    moreover have "inj_on (\<lambda>j. arr ?t ! j) {j \<in> set is. arr ?t ! j \<noteq> NULL}" using inj by (auto simp: inj_on_def)
    ultimately show ?thesis using Cons.IH [of ?t] Cons.prems(1,3) by simp
  qed
qed simp

text \<open>The first round of the driver, with the library's own \<open>malloc\<close> and \<open>free\<close>, is fine and leaves no block behind.\<close>

lemma libc_round:
  assumes "malloc_good e" and "mallocs s = 0" and "live s = []" and "length (arr s) = NUM_ELEMS"
  shows "\<exists>t u. test_malloc (libc_malloc e) e s = Some t \<and> test_free (libc_malloc e) libc_free t = Some u \<and>
    live u = [] \<and> arr_heap u = arr_heap s \<and> length (arr u) = NUM_ELEMS"
proof -
  let ?s = "heap_say (Allocating NUM_ELEMS) s"
  have "mallocs ?s = 0" "0 + NUM_ELEMS = length (arr ?s)" using assms by (simp_all add: heap_say_def)
  from libc_malloc_loop [OF this, of e] obtain t where
    t: "malloc_loop (libc_malloc e) e [0..<0 + NUM_ELEMS] ?s = Some t" "arr_heap t = arr_heap ?s"
      "length (arr t) = length (arr ?s)" "\<forall>j \<in> {0..<0 + NUM_ELEMS}. arr t ! j = malloc_ret e j"
      "live t = rev (filter (\<lambda>a. a \<noteq> NULL) (map (malloc_ret e) [0..<0 + NUM_ELEMS])) @ live ?s"
    by blast
  let ?t = "heap_say Freeing (heap_say Alloc_done t)"
  let ?J = "{n. n < NUM_ELEMS \<and> malloc_ret e n \<noteq> NULL}"
  have arr: "arr ?t ! j = malloc_ret e j" if "j < NUM_ELEMS" for j
    using t(4) that by (simp add: heap_say_def)
  then have J: "{j \<in> set [0..<NUM_ELEMS]. arr ?t ! j \<noteq> NULL} = ?J" by auto
  have inj: "inj_on (malloc_ret e) ?J" using assms(1) by (simp add: malloc_good_def)
  have "live ?t = rev (map (malloc_ret e) (filter (\<lambda>n. malloc_ret e n \<noteq> NULL) [0..<NUM_ELEMS]))"
    using t(5) assms(3) by (simp add: heap_say_def filter_map o_def)
  moreover have "set (filter (\<lambda>n. malloc_ret e n \<noteq> NULL) [0..<NUM_ELEMS]) = ?J" by auto
  ultimately have "distinct (live ?t)" "set (live ?t) = malloc_ret e ` ?J"
    using inj by (auto simp: distinct_map)
  moreover have "inj_on (\<lambda>j. arr ?t ! j) ?J" using inj arr by (auto simp: inj_on_def)
  moreover have "(\<lambda>j. arr ?t ! j) ` ?J = malloc_ret e ` ?J" using arr by (intro image_cong) auto
  ultimately obtain u where "free_loop libc_free [0..<NUM_ELEMS] ?t = Some u" "live u = []" "arr_heap u = arr_heap ?t"
      "arr u = arr ?t"
    using libc_free_loop [of "[0..<NUM_ELEMS]" ?t] J by auto
  with t assms(4) show ?thesis by (auto simp: test_malloc_def test_free_def heap_say_def)
qed

text \<open>
  The program frees memory it must not free. With a well-behaved library and a
  kernel that never refuses memory, everything goes well until the last round: then the
  pointers from \<open>my_malloc\<close>, which point into mappings, are passed to the library's
  \<open>free\<close>, and already the first of these calls is undefined.
\<close>

theorem heap_main_frees_mappings:
  assumes "mmap_good e" and "malloc_good e"
  shows "heap_main e heap_state0 = None \<and>
    (\<exists>s1 s2 s3. test_malloc (libc_malloc e) e (print_heap heap_state0) = Some s1 \<and>
      test_free (libc_malloc e) libc_free s1 = Some s2 \<and> test_malloc (my_malloc e) e s2 = Some s3 \<and>
      libc_free (arr s3 ! 0) s3 = None)"
proof -
  have s0: "mallocs (print_heap heap_state0) = 0" "live (print_heap heap_state0) = []"
    "length (arr (print_heap heap_state0)) = NUM_ELEMS" "arr_heap (print_heap heap_state0) = arr_heap0"
    by (simp_all add: print_heap_def heap_state0_def)
  from libc_round [OF assms(2) s0(1-3)] obtain s1 s2 where
    s1: "test_malloc (libc_malloc e) e (print_heap heap_state0) = Some s1"
    and s2: "test_free (libc_malloc e) libc_free s1 = Some s2" "live s2 = []" "arr_heap s2 = arr_heap0"
      "length (arr s2) = NUM_ELEMS" using s0(4) by auto
  let ?s = "heap_say (Allocating NUM_ELEMS) s2"
  have "heap_ok ?s" using s2(3) by (simp add: heap_ok_def arr_heap0_def heap_say_def o_def)
  from my_malloc_loop [OF this assms(1), of "[0..<NUM_ELEMS]"] obtain t where
    t: "malloc_loop (my_malloc e) e [0..<NUM_ELEMS] ?s = Some t" "live t = live ?s" "length (arr t) = length (arr ?s)"
      "\<forall>j \<in> set [0..<NUM_ELEMS]. j < length (arr ?s) \<longrightarrow> arr t ! j \<noteq> NULL"
    by blast
  let ?s3 = "heap_say Alloc_done t"
  have s3: "test_malloc (my_malloc e) e s2 = Some ?s3" using t(1) by (simp add: test_malloc_def)
  have pos: "0 < NUM_ELEMS" by (simp add: NUM_ELEMS_def)
  have a0: "arr t ! 0 \<noteq> NULL" "live t = []" using t s2(2,4) pos by (auto simp: heap_say_def)
  then have fr: "libc_free (arr ?s3 ! 0) ?s3 = None" by (simp add: libc_free_def heap_say_def)
  have "[0..<NUM_ELEMS] = 0 # [1..<NUM_ELEMS]" using pos by (simp add: upt_conv_Cons)
  then have "test_free (my_malloc e) libc_free ?s3 = None"
    using a0 by (simp add: test_free_def libc_free_def heap_say_def)
  with s1 s2(1) s3 fr show ?thesis by (simp add: heap_main_def)
qed

section \<open>A concrete environment\<close>

definition some_heap_env :: heap_env where
  "some_heap_env =
     \<lparr>mmap_ret = (\<lambda>n. word_of_int (0x1000 * (int (n mod 100000) + 1))),
      malloc_ret = (\<lambda>n. word_of_int (0x100 * (int (n mod 10000) + 1))), rand_ret = (\<lambda>n. int n)\<rparr>"

lemma some_mmap: "uint (mmap_ret some_heap_env n) = 0x1000 * (int (n mod 100000) + 1)"
proof -
  have "int (n mod 100000) < 100000" by (simp add: zmod_int)
  then show ?thesis
    unfolding some_heap_env_def heap_env.simps uint_word_of_int by (intro mod_pos_pos_trivial) simp_all
qed

lemma some_malloc: "uint (malloc_ret some_heap_env n) = 0x100 * (int (n mod 10000) + 1)"
proof -
  have "int (n mod 10000) < 10000" by (simp add: zmod_int)
  then show ?thesis
    unfolding some_heap_env_def heap_env.simps uint_word_of_int by (intro mod_pos_pos_trivial) simp_all
qed

lemma some_mmap_good: "mmap_good some_heap_env"
  unfolding mmap_good_def
proof (intro allI conjI)
  fix n
  show "mmap_ret some_heap_env n \<noteq> 0" using some_mmap [of n] by auto
  show "uint (mmap_ret some_heap_env n) mod 4096 = 0" using some_mmap [of n] by simp
qed

lemma some_malloc_good: "malloc_good some_heap_env"
  unfolding malloc_good_def
proof (rule inj_onI)
  fix m n
  assume "m \<in> {n. n < NUM_ELEMS \<and> malloc_ret some_heap_env n \<noteq> 0}" "n \<in> {n. n < NUM_ELEMS \<and> malloc_ret some_heap_env n \<noteq> 0}"
    and "malloc_ret some_heap_env m = malloc_ret some_heap_env n"
  then have "m < 10000" "n < 10000" and eq: "uint (malloc_ret some_heap_env m) = uint (malloc_ret some_heap_env n)"
    unfolding NUM_ELEMS_def by (blast, blast, metis)
  have "x = y" if "256 * (x + 1) = 256 * (y + 1)" for x y :: int using that by simp
  from this [OF eq [unfolded some_malloc]] have "int (m mod 10000) = int (n mod 10000)" .
  with \<open>m < 10000\<close> \<open>n < 10000\<close> show "m = n" by (simp only: of_nat_eq_iff mod_less)
qed

lemma heap_state0_ok: "heap_ok heap_state0"
  by (simp add: heap_ok_def heap_state0_def arr_heap0_def o_def)

theorem find_heap_smallest_witness:
  "\<exists>k t. find_heap some_heap_env 100 heap_state0 = (Some k, t) \<and> 100 \<le> maxSize (arr_heap t ! k) \<and>
     uint (maxSize (arr_heap t ! k)) < 200"
  using find_heap_smallest [OF heap_state0_ok mmap_good_never_null [OF some_mmap_good], of 100]
  by (auto split: prod.splits)

theorem my_malloc_allocates_witness:
  "(\<exists>k a t. my_malloc some_heap_env 100 heap_state0 = Some (a + 8, t) \<and> headers t = [(a, k)]) \<and>
   my_malloc some_heap_env 0x7f000001 heap_state0 = Some (0, heap_state0)"
proof
  from my_malloc_allocates [OF heap_state0_ok some_mmap_good, of 100]
  show "\<exists>k a t. my_malloc some_heap_env 100 heap_state0 = Some (a + 8, t) \<and> headers t = [(a, k)]"
    by (fastforce simp: heap_state0_def)
  from my_malloc_allocates [OF heap_state0_ok some_mmap_good, of "0x7f000001"]
  show "my_malloc some_heap_env 0x7f000001 heap_state0 = Some (0, heap_state0)" by simp
qed

theorem my_malloc_overruns_witness:
  "\<exists>a p t. my_malloc some_heap_env 4096 heap_state0 = Some (p, t) \<and> uint p + 4096 > block_end (a, 4096)"
proof -
  have "uint (mmap_ret some_heap_env n) + 0x7f000000 < 2 ^ 64" for n
  proof -
    have "int (n mod 100000) < 100000" by (simp add: zmod_int)
    with some_mmap [of n] show ?thesis by simp
  qed
  with my_malloc_overruns [OF heap_state0_ok some_mmap_good, of 4096]
  obtain k a p t where m: "my_malloc some_heap_env 4096 heap_state0 = Some (p, t)" "4096 \<le> class_sizes ! k"
      "uint p + uint (4096 :: u64) = block_end (a, class_sizes ! k) + 8"
    by (auto simp: class_sizes_def)
  from m(2) have "4096 \<le> uint (class_sizes ! k)" by (simp add: word_le_def)
  with m(3) have "uint p + 4096 > block_end (a, 4096)" by (simp add: block_end_def)
  with m(1) show ?thesis by blast
qed

theorem my_malloc_ignores_map_failed_witness:
  "my_malloc (some_heap_env\<lparr>mmap_ret := (\<lambda>n. MAP_FAILED)\<rparr>) 100 heap_state0 = None"
  by (rule my_malloc_ignores_map_failed [OF heap_state0_ok]) (simp_all add: heap_state0_def)

theorem test_malloc_accounts_witness:
  "\<exists>t. test_malloc (my_malloc some_heap_env) some_heap_env heap_state0 = Some t \<and> sum_list (counters t) = 10000"
proof -
  have "length (arr heap_state0) = NUM_ELEMS" "sum_list (counters heap_state0) = 0"
    by (simp_all add: heap_state0_def counters_def arr_heap0_def o_def)
  with test_malloc_accounts [OF heap_state0_ok some_mmap_good] show ?thesis by auto
qed

theorem heap_main_frees_mappings_witness: "heap_main some_heap_env heap_state0 = None"
  using heap_main_frees_mappings [OF some_mmap_good some_malloc_good] by blast

end
