(* ===== verification/Simple_Monitor.thy ===== *)
theory Simple_Monitor
  imports Pthread
begin

text \<open>
  \<^verbatim>\<open>c/include/simple_monitor.h\<close>: a monitor with one condition. A caller of
  \<open>monitor_wait\<close> sleeps until others have called \<open>monitor_knock\<close> ten times.

  The header is a library, so the model is open: any number of threads call the two
  operations in any order, one atomic action at a time. Waiting on the condition gives
  the mutex back and puts the thread on the list of sleepers; a signal takes one
  sleeper off it (the action says which), and that thread returns from
  \<open>pthread_cond_wait\<close> once it has the mutex again. POSIX also lets a sleeper wake up
  spuriously; a flag of the model says whether that may happen. Three history variables
  count the knocks heard, the signals sent and the returns from the wait.
\<close>

section \<open>The monitor\<close>

record monitor_tag =
  cnt :: i32
  somebody_waits :: i32
  mon_mut :: pthread_mutex_t
  mon_cond :: "nat list"

definition MAX_NUM :: i32 where
  "MAX_NUM = 10"

text \<open>\<open>monitor_init\<close> when \<open>malloc\<close> succeeds; a failure is not checked and leads to a null pointer.\<close>

definition monitor_init :: "bool \<Rightarrow> monitor_tag option" where
  "monitor_init malloc_ok =
     (if malloc_ok then
        Some \<lparr>cnt = 0, somebody_waits = 0, mon_mut = PTHREAD_MUTEX_INITIALIZER, mon_cond = []\<rparr>
      else None)"

datatype mon_pc =
    Idle
  | W_lock | W_set | W_cond | W_asleep | W_clear | W_unlock
  | K_lock | K_test | K_inc | K_cmp | K_signal | K_reset | K_unlock

definition mon_goto :: "mon_pc \<Rightarrow> monitor_tag option \<Rightarrow> (mon_pc, monitor_tag) outcome \<Rightarrow> (mon_pc, monitor_tag) outcome" where
  "mon_goto pc om other = (case om of None \<Rightarrow> other | Some m \<Rightarrow> Goto pc m)"

definition mon_acquire :: "nat \<Rightarrow> monitor_tag \<Rightarrow> monitor_tag option" where
  "mon_acquire i m = map_option (\<lambda>l. m\<lparr>mon_mut := l\<rparr>) (pthread_mutex_lock i (mon_mut m))"

definition mon_release :: "nat \<Rightarrow> monitor_tag \<Rightarrow> monitor_tag option" where
  "mon_release i m = map_option (\<lambda>l. m\<lparr>mon_mut := l\<rparr>) (pthread_mutex_unlock i (mon_mut m))"

fun monitor_wait :: "nat \<Rightarrow> mon_pc \<Rightarrow> monitor_tag \<Rightarrow> (mon_pc, monitor_tag) outcome" where
  "monitor_wait i W_lock m = mon_goto W_set (mon_acquire i m) Blocked"
| "monitor_wait i W_set m = Goto W_cond (m\<lparr>somebody_waits := 1\<rparr>)"
| "monitor_wait i W_cond m =
     mon_goto W_asleep (map_option (\<lambda>m'. m'\<lparr>mon_cond := mon_cond m' @ [i]\<rparr>) (mon_release i m)) Crash"
| "monitor_wait i W_asleep m =
     (if i \<in> set (mon_cond m) then Blocked else mon_goto W_clear (mon_acquire i m) Blocked)"
| "monitor_wait i W_clear m = Goto W_unlock (m\<lparr>somebody_waits := 0\<rparr>)"
| "monitor_wait i W_unlock m = mon_goto Idle (mon_release i m) Crash"
| "monitor_wait i _ m = Blocked"

text \<open>\<open>w\<close> is the sleeper that the signal wakes; with nobody asleep a signal has no effect.\<close>

fun monitor_knock :: "nat \<Rightarrow> nat \<Rightarrow> mon_pc \<Rightarrow> monitor_tag \<Rightarrow> (mon_pc, monitor_tag) outcome" where
  "monitor_knock i w K_lock m = mon_goto K_test (mon_acquire i m) Blocked"
| "monitor_knock i w K_test m = Goto (if somebody_waits m = 1 then K_inc else K_unlock) m"
| "monitor_knock i w K_inc m =
     mon_goto K_cmp (map_option (\<lambda>c. m\<lparr>cnt := c\<rparr>) (i32_check (cnt m + 1))) Crash"
| "monitor_knock i w K_cmp m = Goto (if cnt m = MAX_NUM then K_signal else K_unlock) m"
| "monitor_knock i w K_signal m =
     (if mon_cond m = [] then Goto K_reset m
      else if w \<in> set (mon_cond m) then Goto K_reset (m\<lparr>mon_cond := remove1 w (mon_cond m)\<rparr>)
      else Blocked)"
| "monitor_knock i w K_reset m = Goto K_unlock (m\<lparr>cnt := 0\<rparr>)"
| "monitor_knock i w K_unlock m = mon_goto Idle (mon_release i m) Crash"
| "monitor_knock i w _ m = Blocked"

text \<open>
  \<open>monitor_destroy\<close>: destroying a mutex that is held or a condition somebody sleeps on is
  undefined. Afterwards the memory is gone.
\<close>

definition monitor_destroy :: "monitor_tag \<Rightarrow> unit option" where
  "monitor_destroy m = (if owner (mon_mut m) = None \<and> mon_cond m = [] then Some () else None)"

section \<open>Threads that use it\<close>

record mon_sys =
  mon :: monitor_tag
  callers :: "mon_pc list"
  heard :: nat
  signals :: nat
  returns :: nat
  mon_crash :: bool

datatype mon_act = Call_wait nat | Call_knock nat | Go nat nat | Spurious nat

fun mon_op :: "nat \<Rightarrow> nat \<Rightarrow> mon_pc \<Rightarrow> monitor_tag \<Rightarrow> (mon_pc, monitor_tag) outcome" where
  "mon_op i w pc m =
     (if pc \<in> {K_lock, K_test, K_inc, K_cmp, K_signal, K_reset, K_unlock} then monitor_knock i w pc m
      else monitor_wait i pc m)"

definition mon_call :: "nat \<Rightarrow> mon_pc \<Rightarrow> mon_sys \<Rightarrow> mon_sys option" where
  "mon_call i pc s =
     (if i < length (callers s) \<and> callers s ! i = Idle then Some (s\<lparr>callers := (callers s)[i := pc]\<rparr>) else None)"

definition mon_go :: "nat \<Rightarrow> nat \<Rightarrow> mon_sys \<Rightarrow> mon_sys option" where
  "mon_go i w s =
     (if i < length (callers s) then
        (let pc = callers s ! i in
         case mon_op i w pc (mon s) of
           Goto pc' m \<Rightarrow>
             Some (s\<lparr>mon := m, callers := (callers s)[i := pc'],
                     heard := (if pc = K_inc then heard s + 1 else heard s),
                     signals := (if pc = K_signal then signals s + 1 else signals s),
                     returns := (if pc = W_asleep then returns s + 1 else returns s)\<rparr>)
         | Crash \<Rightarrow> Some (s\<lparr>mon_crash := True\<rparr>)
         | _ \<Rightarrow> None)
      else None)"

definition mon_spurious :: "nat \<Rightarrow> mon_sys \<Rightarrow> mon_sys option" where
  "mon_spurious i s =
     (if i \<in> set (mon_cond (mon s))
      then Some (s\<lparr>mon := (mon s)\<lparr>mon_cond := remove1 i (mon_cond (mon s))\<rparr>\<rparr>) else None)"

fun mon_step :: "bool \<Rightarrow> mon_act \<Rightarrow> mon_sys \<Rightarrow> mon_sys option" where
  "mon_step sp (Call_wait i) s = (if mon_crash s then None else mon_call i W_lock s)"
| "mon_step sp (Call_knock i) s = (if mon_crash s then None else mon_call i K_lock s)"
| "mon_step sp (Go i w) s = (if mon_crash s then None else mon_go i w s)"
| "mon_step sp (Spurious i) s = (if mon_crash s \<or> \<not> sp then None else mon_spurious i s)"

definition mon_start :: "nat \<Rightarrow> mon_sys" where
  "mon_start n =
     \<lparr>mon = the (monitor_init True), callers = replicate n Idle, heard = 0, signals = 0, returns = 0, mon_crash = False\<rparr>"

section \<open>The invariant\<close>

fun mon_inside :: "mon_pc \<Rightarrow> bool" where
  "mon_inside Idle = False" | "mon_inside W_lock = False" | "mon_inside W_asleep = False"
| "mon_inside K_lock = False" | "mon_inside _ = True"

fun count_ok :: "mon_pc \<Rightarrow> int \<Rightarrow> nat \<Rightarrow> nat \<Rightarrow> bool" where
  "count_ok K_cmp c h n \<longleftrightarrow> 1 \<le> c \<and> c \<le> 10 \<and> int h = 10 * int n + c"
| "count_ok K_signal c h n \<longleftrightarrow> c = 10 \<and> h = 10 * n + 10"
| "count_ok K_reset c h n \<longleftrightarrow> c = 10 \<and> h = 10 * n"
| "count_ok _ c h n \<longleftrightarrow> 0 \<le> c \<and> c \<le> 9 \<and> int h = 10 * int n + c"

definition pc_of :: "nat option \<Rightarrow> mon_pc list \<Rightarrow> mon_pc" where
  "pc_of h pcs = (case h of None \<Rightarrow> Idle | Some i \<Rightarrow> pcs ! i)"

abbreviation holder_pc :: "mon_sys \<Rightarrow> mon_pc" where
  "holder_pc s \<equiv> pc_of (owner (mon_mut (mon s))) (callers s)"

definition mon_excl :: "mon_sys \<Rightarrow> bool" where
  "mon_excl s \<longleftrightarrow>
     (\<forall>i < length (callers s). mon_inside (callers s ! i) \<longleftrightarrow> owner (mon_mut (mon s)) = Some i) \<and>
     (\<forall>i. owner (mon_mut (mon s)) = Some i \<longrightarrow> i < length (callers s))"

definition mon_inv :: "mon_sys \<Rightarrow> bool" where
  "mon_inv s \<longleftrightarrow>
     mon_excl s \<and> count_ok (holder_pc s) (cnt (mon s)) (heard s) (signals s) \<and>
     (\<forall>i. i \<in> set (mon_cond (mon s)) \<longrightarrow> i < length (callers s) \<and> callers s ! i = W_asleep) \<and>
     distinct (mon_cond (mon s)) \<and> somebody_waits (mon s) \<in> {0, 1} \<and> \<not> mon_crash s"

lemmas mon_lock_defs = mon_goto_def mon_acquire_def mon_release_def pthread_mutex_lock_def pthread_mutex_unlock_def

declare mon_op.simps [simp del]

lemma mon_op_excl:
  assumes ex: "mon_excl s" and i: "i < length (callers s)"
    and b: "mon_op i w (callers s ! i) (mon s) = Goto pc' m"
  shows "mon_excl (s\<lparr>mon := m, callers := (callers s)[i := pc'], heard := h, signals := n, returns := r\<rparr>)"
proof -
  from ex i have me: "mon_inside (callers s ! i) \<longleftrightarrow> owner (mon_mut (mon s)) = Some i" by (simp add: mon_excl_def)
  from b me have own: "owner (mon_mut m) = (if mon_inside pc' then Some i else if mon_inside (callers s ! i) then None
      else owner (mon_mut (mon s)))"
    and free: "mon_inside pc' \<Longrightarrow> \<not> mon_inside (callers s ! i) \<Longrightarrow> owner (mon_mut (mon s)) = None"
    by (cases "callers s ! i"; auto simp: mon_op.simps mon_lock_defs split: if_splits option.splits)+
  show ?thesis
    using ex i me own free by (auto simp: mon_excl_def nth_list_update)
qed

lemma holder_pc_at: "mon_excl s \<Longrightarrow> i < length (callers s) \<Longrightarrow> mon_inside (callers s ! i) \<Longrightarrow> holder_pc s = callers s ! i"
  by (simp add: mon_excl_def pc_of_def)

lemma pc_of_update: "h \<noteq> Some i \<Longrightarrow> pc_of h (pcs[i := x]) = pc_of h pcs"
  by (cases h) (auto simp: pc_of_def intro!: nth_list_update_neq)

lemma pc_of_None [simp]: "pc_of None pcs = Idle"
  by (simp add: pc_of_def)

text \<open>Actions outside the critical section leave the counter alone; inside, each keeps \<open>count_ok\<close>.\<close>

lemma mon_op_count_inside:
  assumes "count_ok pc (cnt m) h n" and "mon_inside pc" and "mon_op i w pc m = Goto pc' m'"
  shows "count_ok (if mon_inside pc' then pc' else Idle) (cnt m')
    (if pc = K_inc then h + 1 else h) (if pc = K_signal then n + 1 else n)"
  using assms by (cases pc) (auto simp: mon_op.simps mon_lock_defs MAX_NUM_def i32_check_eq_Some split: if_splits option.splits)

lemma mon_op_count_outside:
  assumes "\<not> mon_inside pc" and "mon_op i w pc m = Goto pc' m'"
  shows "cnt m' = cnt m \<and> mon_inside pc' \<and> owner (mon_mut m) = None \<and> owner (mon_mut m') = Some i \<and>
    pc' \<in> {W_set, K_test, W_clear} \<and> pc \<noteq> K_inc \<and> pc \<noteq> K_signal"
  using assms by (cases pc) (auto simp: mon_op.simps mon_lock_defs split: if_splits option.splits)

lemma mon_op_owner_inside:
  assumes "mon_inside pc" and "mon_op i w pc m = Goto pc' m'"
  shows "owner (mon_mut m') = (if mon_inside pc' then owner (mon_mut m) else None)"
  using assms by (cases pc) (auto simp: mon_op.simps mon_lock_defs split: if_splits option.splits)

lemma mon_op_count:
  assumes inv: "mon_inv s" and i: "i < length (callers s)" and b: "mon_op i w (callers s ! i) (mon s) = Goto pc' m"
  shows "count_ok (holder_pc (s\<lparr>mon := m, callers := (callers s)[i := pc']\<rparr>)) (cnt m)
    (if callers s ! i = K_inc then heard s + 1 else heard s) (if callers s ! i = K_signal then signals s + 1 else signals s)"
proof (cases "mon_inside (callers s ! i)")
  case True
  with inv i have "owner (mon_mut (mon s)) = Some i" by (simp add: mon_inv_def mon_excl_def)
  with mon_op_owner_inside [OF True b] i
  have "holder_pc (s\<lparr>mon := m, callers := (callers s)[i := pc']\<rparr>) = (if mon_inside pc' then pc' else Idle)"
    by (auto simp: pc_of_def)
  with mon_op_count_inside [OF _ True b, of "heard s" "signals s"] inv holder_pc_at [OF _ i True] show ?thesis
    by (simp add: mon_inv_def)
next
  case False
  note out = mon_op_count_outside [OF False b]
  with inv have "count_ok Idle (cnt (mon s)) (heard s) (signals s)" by (simp add: mon_inv_def pc_of_None)
  with out i show ?thesis by (auto simp: pc_of_def)
qed

lemma mon_op_cond:
  assumes "mon_op i w pc m = Goto pc' m'"
  shows "mon_cond m' = (if pc = W_cond then mon_cond m @ [i] else if pc = K_signal then remove1 w (mon_cond m) else mon_cond m) \<and>
    (pc = W_asleep \<longrightarrow> i \<notin> set (mon_cond m)) \<and> (pc = W_cond \<longrightarrow> pc' = W_asleep) \<and>
    somebody_waits m' \<in> {somebody_waits m, 0, 1} \<and> (pc' = W_asleep \<longrightarrow> pc = W_cond)"
  using assms by (cases pc) (auto simp: mon_op.simps mon_lock_defs split: if_splits option.splits)

lemma mon_go_inv:
  assumes inv: "mon_inv s" and i: "i < length (callers s)" and b: "mon_op i w (callers s ! i) (mon s) = Goto pc' m"
  shows "mon_inv (s\<lparr>mon := m, callers := (callers s)[i := pc'],
      heard := (if callers s ! i = K_inc then heard s + 1 else heard s),
      signals := (if callers s ! i = K_signal then signals s + 1 else signals s), returns := r\<rparr>)"
proof -
  let ?s = "s\<lparr>mon := m, callers := (callers s)[i := pc'],
      heard := (if callers s ! i = K_inc then heard s + 1 else heard s),
      signals := (if callers s ! i = K_signal then signals s + 1 else signals s), returns := r\<rparr>"
  have ex: "mon_excl ?s" using mon_op_excl [OF _ i b] inv by (simp add: mon_inv_def)
  have cnt: "count_ok (holder_pc ?s) (cnt m) (heard ?s) (signals ?s)"
    using mon_op_count [OF inv i b] by simp
  note c = mon_op_cond [OF b]
  have sub: "j < length (callers s) \<and> (callers s)[i := pc'] ! j = W_asleep" if j: "j \<in> set (mon_cond m)" for j
  proof (cases "j = i")
    case True
    have "callers s ! i = W_cond"
    proof (rule ccontr)
      assume "callers s ! i \<noteq> W_cond"
      with j c True have "i \<in> set (mon_cond (mon s))" by (metis notin_set_remove1)
      with inv have "callers s ! i = W_asleep" by (simp add: mon_inv_def)
      with c \<open>i \<in> set (mon_cond (mon s))\<close> show False by blast
    qed
    with c True i show ?thesis by simp
  next
    case False
    then have "j \<in> set (mon_cond (mon s) @ [i]) \<Longrightarrow> j \<in> set (mon_cond (mon s))" by simp
    with j c have "j \<in> set (mon_cond (mon s))" by (metis notin_set_remove1)
    with inv False show ?thesis by (auto simp: mon_inv_def)
  qed
  have "callers s ! i = W_cond \<Longrightarrow> i \<notin> set (mon_cond (mon s))" using inv by (auto simp: mon_inv_def)
  moreover have "distinct (mon_cond (mon s))" "somebody_waits (mon s) \<in> {0, 1}" using inv by (simp_all only: mon_inv_def)
  moreover have "distinct (mon_cond (mon s) @ [i]) \<longleftrightarrow> distinct (mon_cond (mon s)) \<and> i \<notin> set (mon_cond (mon s))"
    by auto
  ultimately have "distinct (mon_cond m)" and "somebody_waits m \<in> {0, 1}" using c by (metis distinct_remove1, fastforce)
  with ex cnt sub inv show ?thesis by (simp add: mon_inv_def)
qed

lemma mon_no_crash:
  assumes inv: "mon_inv s" and i: "i < length (callers s)"
  shows "mon_op i w (callers s ! i) (mon s) \<noteq> Crash"
proof
  assume c: "mon_op i w (callers s ! i) (mon s) = Crash"
  then have "mon_inside (callers s ! i)" and "callers s ! i = K_inc \<Longrightarrow> i32_check (cnt (mon s) + 1) = None"
    by (cases "callers s ! i"; auto simp: mon_op.simps mon_lock_defs split: if_splits option.splits)+
  with inv i holder_pc_at [of s i] have "owner (mon_mut (mon s)) = Some i"
    and "callers s ! i \<noteq> K_inc"
    by (auto simp: mon_inv_def mon_excl_def)
  with c show False
    by (cases "callers s ! i") (auto simp: mon_op.simps mon_lock_defs split: if_splits option.splits)
qed

lemma mon_call_inv:
  assumes inv: "mon_inv s" and st: "mon_call i pc s = Some t" and pc: "pc = W_lock \<or> pc = K_lock"
  shows "mon_inv t"
proof -
  from st have i: "i < length (callers s)" "callers s ! i = Idle" and t: "t = s\<lparr>callers := (callers s)[i := pc]\<rparr>"
    by (auto simp: mon_call_def split: if_splits)
  from inv i have own: "owner (mon_mut (mon s)) \<noteq> Some i" by (auto simp: mon_inv_def mon_excl_def)
  from inv i have "i \<notin> set (mon_cond (mon s))" by (auto simp: mon_inv_def)
  with inv i t own pc_of_update [OF own, of "callers s" pc] pc show ?thesis
    by (auto simp: mon_inv_def mon_excl_def nth_list_update)
qed

lemma mon_step_inv:
  assumes inv: "mon_inv s" and st: "mon_step sp a s = Some t"
  shows "mon_inv t"
proof (cases a)
  case (Go i w)
  with st inv have i: "i < length (callers s)" and go: "mon_go i w s = Some t"
    by (auto simp: mon_go_def mon_inv_def split: if_splits)
  show ?thesis
  proof (cases "mon_op i w (callers s ! i) (mon s)")
    case (Goto pc' m)
    from mon_go_inv [OF inv i Goto] show ?thesis
      using go unfolding mon_go_def Let_def if_P [OF i] Goto outcome.case option.inject by (rule back_subst)
  next
    case Crash
    with mon_no_crash [OF inv i] show ?thesis by simp
  qed (use go i in \<open>auto simp: mon_go_def\<close>)
next
  case (Spurious i)
  with st inv show ?thesis
    by (auto simp: mon_spurious_def mon_inv_def mon_excl_def split: if_splits
        dest: contrapos_pp [OF _ notin_set_remove1])
next
  case (Call_wait i)
  with st inv show ?thesis by (auto intro: mon_call_inv split: if_splits)
next
  case (Call_knock i)
  with st inv show ?thesis by (auto intro: mon_call_inv split: if_splits)
qed

lemma mon_start_inv: "mon_inv (mon_start n)"
  by (simp add: mon_inv_def mon_excl_def mon_start_def monitor_init_def pc_of_def PTHREAD_MUTEX_INITIALIZER_def)

interpretation mon: invariant_system "mon_step sp" "mon_start n" mon_inv for sp n
  by unfold_locales (auto intro: mon_start_inv mon_step_inv)

section \<open>Properties\<close>

text \<open>
  C31. The monitor counts right, however many threads use it and whether or not sleepers
  wake spuriously: no operation is undefined, at most one thread is between lock and
  unlock, and whenever the mutex is free the count is below ten and the knocks heard so
  far are ten for each signal sent, plus the count.
\<close>

theorem monitor_counts:
  assumes "reach (mon_step sp) (mon_start n) s"
  shows "\<not> mon_crash s \<and>
    (\<forall>i < length (callers s). \<forall>j < length (callers s).
      mon_inside (callers s ! i) \<and> mon_inside (callers s ! j) \<longrightarrow> i = j) \<and>
    (owner (mon_mut (mon s)) = None \<longrightarrow>
      0 \<le> cnt (mon s) \<and> cnt (mon s) < MAX_NUM \<and> int (heard s) = 10 * int (signals s) + cnt (mon s))"
  using mon.reach_inv [OF assms] by (auto simp: mon_inv_def mon_excl_def pc_of_None MAX_NUM_def)

section \<open>A return from the wait takes ten knocks\<close>

text \<open>Sleepers that have been signalled but do not have the mutex yet.\<close>

definition woken :: "mon_sys \<Rightarrow> nat set" where
  "woken s = {i. i < length (callers s) \<and> callers s ! i = W_asleep \<and> i \<notin> set (mon_cond (mon s))}"

lemma finite_woken [simp]: "finite (woken s)"
  by (simp add: woken_def)

lemma woken_go:
  assumes inv: "mon_inv s" and i: "i < length (callers s)" and b: "mon_op i w (callers s ! i) (mon s) = Goto pc' m"
  shows "woken (s\<lparr>mon := m, callers := (callers s)[i := pc'], heard := h, signals := n, returns := r\<rparr>) \<subseteq>
    (if callers s ! i = K_signal then insert w (woken s) else if callers s ! i = W_asleep then woken s - {i} else woken s)"
proof -
  note c = mon_op_cond [OF b]
  let ?t = "s\<lparr>mon := m, callers := (callers s)[i := pc'], heard := h, signals := n, returns := r\<rparr>"
  have "j \<noteq> i \<and> (j \<in> woken s \<or> callers s ! i = K_signal \<and> j = w)" if "j \<in> woken ?t" for j
  proof -
    from that have j: "j < length (callers s)" "(callers s)[i := pc'] ! j = W_asleep" "j \<notin> set (mon_cond m)"
      by (simp_all add: woken_def)
    have "j \<noteq> i"
    proof
      assume "j = i"
      with j i c have "callers s ! i = W_cond" by simp
      with c j \<open>j = i\<close> show False by simp
    qed
    with j have "callers s ! j = W_asleep" by simp
    moreover have "j \<notin> set (mon_cond (mon s)) \<or> callers s ! i = K_signal \<and> j = w"
      using c j(3) in_set_remove1 [of j w "mon_cond (mon s)"]
      by (cases "callers s ! i = K_signal") (auto split: if_splits)
    ultimately show ?thesis using j \<open>j \<noteq> i\<close> by (auto simp: woken_def)
  qed
  then show ?thesis by (auto split: if_splits)
qed

lemma return_woken: "i < length (callers s) \<Longrightarrow> callers s ! i = W_asleep \<Longrightarrow> mon_op i w W_asleep (mon s) = Goto pc' m \<Longrightarrow> i \<in> woken s"
  using mon_op_cond [of i w W_asleep "mon s" pc' m] by (simp add: woken_def)

definition credit :: "mon_sys \<Rightarrow> bool" where
  "credit s \<longleftrightarrow> returns s + card (woken s) \<le> signals s"

lemma credit_go:
  assumes inv: "mon_inv s" and cr: "credit s" and i: "i < length (callers s)"
    and b: "mon_op i w (callers s ! i) (mon s) = Goto pc' m"
  shows "credit (s\<lparr>mon := m, callers := (callers s)[i := pc'], heard := h,
      signals := (if callers s ! i = K_signal then signals s + 1 else signals s),
      returns := (if callers s ! i = W_asleep then returns s + 1 else returns s)\<rparr>)" (is "credit ?t")
proof -
  have sub: "woken ?t \<subseteq> (if callers s ! i = K_signal then insert w (woken s)
      else if callers s ! i = W_asleep then woken s - {i} else woken s)"
    by (rule woken_go [OF inv i b])
  consider "callers s ! i = K_signal" | "callers s ! i = W_asleep" | "callers s ! i \<noteq> K_signal" "callers s ! i \<noteq> W_asleep"
    by blast
  then show ?thesis
  proof cases
    case 1
    with sub have "woken ?t \<subseteq> insert w (woken s)" by simp
    then have "card (woken ?t) \<le> card (insert w (woken s))" by (intro card_mono) simp_all
    also have "\<dots> \<le> Suc (card (woken s))" by (simp add: card_insert_if)
    finally show ?thesis using cr 1 unfolding credit_def by simp
  next
    case 2
    then have "i \<in> woken s" using return_woken [OF i] b by simp
    then have "Suc (card (woken s - {i})) = card (woken s)" by (rule card_Suc_Diff1 [OF finite_woken])
    moreover from sub 2 have "card (woken ?t) \<le> card (woken s - {i})" by (intro card_mono) simp_all
    ultimately show ?thesis using cr 2 unfolding credit_def by simp
  next
    case 3
    with sub have "card (woken ?t) \<le> card (woken s)" by (intro card_mono) simp_all
    with cr 3 show ?thesis unfolding credit_def by simp
  qed
qed

lemma credit_step:
  assumes inv: "mon_inv s" and cr: "credit s" and st: "mon_step False a s = Some t"
  shows "credit t"
proof (cases a)
  case (Go i w)
  with st inv have i: "i < length (callers s)" and go: "mon_go i w s = Some t"
    by (auto simp: mon_go_def mon_inv_def split: if_splits)
  show ?thesis
  proof (cases "mon_op i w (callers s ! i) (mon s)")
    case (Goto pc' m)
    from credit_go [OF inv cr i Goto] show ?thesis
      using go unfolding mon_go_def Let_def if_P [OF i] Goto outcome.case option.inject by (rule back_subst)
  next
    case Crash
    with mon_no_crash [OF inv i] show ?thesis by simp
  qed (use go i in \<open>auto simp: mon_go_def\<close>)
next
  case (Call_wait i)
  with st have "woken t \<subseteq> woken s" "returns t = returns s" "signals t = signals s"
    by (auto simp: mon_call_def woken_def nth_list_update split: if_splits)
  with cr card_mono [of "woken s" "woken t"] show ?thesis by (simp add: credit_def)
next
  case (Call_knock i)
  with st have "woken t \<subseteq> woken s" "returns t = returns s" "signals t = signals s"
    by (auto simp: mon_call_def woken_def nth_list_update split: if_splits)
  with cr card_mono [of "woken s" "woken t"] show ?thesis by (simp add: credit_def)
qed (use st in simp)

interpretation quiet: invariant_system "mon_step False" "mon_start n" "\<lambda>s. mon_inv s \<and> credit s" for n
proof unfold_locales
  have "woken (mon_start n) = {}" by (auto simp: woken_def mon_start_def)
  then have "credit (mon_start n)" by (simp add: credit_def mon_start_def)
  with mon_start_inv show "mon_inv (mon_start n) \<and> credit (mon_start n)" by blast
qed (auto intro: mon_step_inv credit_step)

lemma heard_signals: "mon_inv s \<Longrightarrow> 10 * signals s \<le> heard s"
  unfolding mon_inv_def by (cases "holder_pc s") auto

text \<open>
  As long as no sleeper wakes spuriously, nobody leaves \<open>monitor_wait\<close> early: in
  every reachable state, with any number of threads, ten knocks have been heard for
  every return from the wait.
\<close>

theorem monitor_wait_takes_ten_knocks:
  assumes "reach (mon_step False) (mon_start n) s"
  shows "10 * returns s \<le> heard s"
  using quiet.reach_inv [OF assms] heard_signals [of s] by (simp add: credit_def)

section \<open>Ten knocks are enough for one waiter\<close>

definition wait_call :: "nat \<Rightarrow> mon_act list" where
  "wait_call w = [Call_wait w, Go w w, Go w w, Go w w]"

definition knock_call :: "nat \<Rightarrow> nat \<Rightarrow> mon_act list" where
  "knock_call k w = [Call_knock k, Go k w, Go k w, Go k w, Go k w, Go k w]"

definition last_knock_call :: "nat \<Rightarrow> nat \<Rightarrow> mon_act list" where
  "last_knock_call k w = [Call_knock k, Go k w, Go k w, Go k w, Go k w, Go k w, Go k w, Go k w]"

text \<open>Thread \<open>w\<close> sleeps, \<open>c\<close> knocks have been heard, everybody else is idle.\<close>

definition one_asleep :: "nat \<Rightarrow> nat \<Rightarrow> nat \<Rightarrow> mon_sys" where
  "one_asleep n w c =
     \<lparr>mon = \<lparr>cnt = int c, somebody_waits = 1, mon_mut = \<lparr>owner = None\<rparr>, mon_cond = [w]\<rparr>,
      callers = (replicate n Idle)[w := W_asleep], heard = c, signals = 0, returns = 0, mon_crash = False\<rparr>"

lemma run_Cons_Some: "step a s = Some t \<Longrightarrow> run step (a # as) s = run step as t"
  by simp

lemma idle_again: "k \<noteq> w \<Longrightarrow> k < n \<Longrightarrow> (replicate n Idle)[w := x, k := Idle] = (replicate n Idle)[w := x]"
  by (intro nth_equalityI) (auto simp: nth_list_update)

lemma idle_all: "w < n \<Longrightarrow> (replicate n Idle)[w := Idle] = replicate n Idle"
  by (simp add: list_update_same_conv)

lemmas mon_eval = mon_call_def mon_go_def mon_op.simps mon_lock_defs Let_def

lemma wait_call_run:
  assumes "w < n"
  shows "run (mon_step False) (wait_call w) (mon_start n) = Some (one_asleep n w 0)"
  using assms
  by (simp add: wait_call_def mon_start_def monitor_init_def PTHREAD_MUTEX_INITIALIZER_def one_asleep_def
      mon_eval)

lemma knock_call_run:
  assumes "w < n" "k < n" "w \<noteq> k" "c < 9"
  shows "run (mon_step False) (knock_call k w) (one_asleep n w c) = Some (one_asleep n w (Suc c))"
  using assms
  by (simp add: knock_call_def one_asleep_def mon_eval MAX_NUM_def idle_again)

lemma knock_calls_run:
  assumes "w < n" "k < n" "w \<noteq> k" "m \<le> 9"
  shows "run (mon_step False) (concat (replicate m (knock_call k w))) (one_asleep n w 0) = Some (one_asleep n w m)"
  using assms(4)
proof (induction m)
  case (Suc m)
  have "concat (replicate (Suc m) (knock_call k w)) = concat (replicate m (knock_call k w)) @ knock_call k w"
    by (simp flip: replicate_append_same)
  with Suc knock_call_run [OF assms(1-3), of m] show ?case by (simp add: run_append)
qed simp

definition returned :: "nat \<Rightarrow> mon_sys" where
  "returned n =
     \<lparr>mon = \<lparr>cnt = 0, somebody_waits = 0, mon_mut = \<lparr>owner = None\<rparr>, mon_cond = []\<rparr>,
      callers = replicate n Idle, heard = 10, signals = 1, returns = 1, mon_crash = False\<rparr>"

lemma last_knock_run:
  assumes "w < n" "k < n" "w \<noteq> k"
  shows "run (mon_step False) (last_knock_call k w @ [Go w w, Go w w, Go w w]) (one_asleep n w 9) = Some (returned n)"
  using assms
  by (simp add: last_knock_call_def one_asleep_def returned_def mon_eval MAX_NUM_def idle_again idle_all)

lemma ten_knocks_schedule:
  assumes "w < n" and "k < n" and "w \<noteq> k"
  shows "run (mon_step False)
      (concat (replicate 9 (knock_call k w)) @ last_knock_call k w @ [Go w w, Go w w, Go w w]) (one_asleep n w 0) = Some (returned n)"
proof -
  have "run (mon_step False) (concat (replicate 9 (knock_call k w))) (one_asleep n w 0) = Some (one_asleep n w 9)"
    by (rule knock_calls_run [OF assms]) simp
  with last_knock_run [OF assms] show ?thesis by (simp only: run_append option.case)
qed

fun is_wait :: "mon_act \<Rightarrow> bool" where
  "is_wait (Call_wait i) = True" | "is_wait _ = False"

fun is_knock :: "mon_act \<Rightarrow> bool" where
  "is_knock (Call_knock i) = True" | "is_knock _ = False"

definition knocks :: "mon_act list \<Rightarrow> nat" where
  "knocks acts = length (filter is_knock acts)"

text \<open>How many actions a call still takes, and whether it may yet be heard.\<close>

fun mon_work :: "mon_pc \<Rightarrow> nat" where
  "mon_work W_lock = 6" | "mon_work W_set = 5" | "mon_work W_cond = 4" | "mon_work W_asleep = 3"
| "mon_work W_clear = 2" | "mon_work W_unlock = 1" | "mon_work K_lock = 7" | "mon_work K_test = 6"
| "mon_work K_inc = 5" | "mon_work K_cmp = 4" | "mon_work K_signal = 3" | "mon_work K_reset = 2"
| "mon_work K_unlock = 1" | "mon_work Idle = 0"

fun unheard :: "mon_pc \<Rightarrow> nat" where
  "unheard K_lock = 1" | "unheard K_test = 1" | "unheard K_inc = 1" | "unheard _ = 0"

lemma mon_length_step:
  assumes "mon_step False a s = Some t"
  shows "length (callers t) = length (callers s)"
proof (cases a)
  case (Go i k)
  with assms have "mon_go i k s = Some t" by (simp split: if_splits)
  then show ?thesis
    by (cases "mon_op i k (callers s ! i) (mon s)"; cases "i < length (callers s)") (auto simp: mon_go_def Let_def)
qed (use assms in \<open>auto simp: mon_call_def split: if_splits\<close>)

lemma mon_length: "run (mon_step False) acts s = Some t \<Longrightarrow> length (callers t) = length (callers s)"
proof (induction acts arbitrary: s)
  case (Cons a acts)
  then obtain u where "mon_step False a s = Some u" "run (mon_step False) acts u = Some t" by (auto split: option.splits)
  with Cons.IH mon_length_step show ?case by simp
qed simp

lemma mon_op_work: "mon_op i k pc m = Goto pc' m' \<Longrightarrow> mon_work pc' < mon_work pc"
  by (cases pc) (auto simp: mon_op.simps mon_lock_defs split: if_splits option.splits)

lemma mon_goE:
  assumes "mon_inv s" and "mon_step False (Go i k) s = Some t"
  obtains pc' m where "i < length (callers s)" and "mon_op i k (callers s ! i) (mon s) = Goto pc' m"
    and "t = s\<lparr>mon := m, callers := (callers s)[i := pc'],
      heard := (if callers s ! i = K_inc then heard s + 1 else heard s),
      signals := (if callers s ! i = K_signal then signals s + 1 else signals s),
      returns := (if callers s ! i = W_asleep then returns s + 1 else returns s)\<rparr>"
proof -
  from assms have i: "i < length (callers s)" and go: "mon_go i k s = Some t"
    by (auto simp: mon_go_def mon_inv_def split: if_splits)
  show ?thesis
  proof (cases "mon_op i k (callers s ! i) (mon s)")
    case (Goto pc' m)
    with go i have "t = s\<lparr>mon := m, callers := (callers s)[i := pc'],
      heard := (if callers s ! i = K_inc then heard s + 1 else heard s),
      signals := (if callers s ! i = K_signal then signals s + 1 else signals s),
      returns := (if callers s ! i = W_asleep then returns s + 1 else returns s)\<rparr>" by (simp add: mon_go_def Let_def)
    with that [OF i Goto] show ?thesis .
  next
    case Crash
    with mon_no_crash [OF assms(1) i] show ?thesis by simp
  qed (use go i in \<open>auto simp: mon_go_def\<close>)
qed

definition total_work :: "mon_sys \<Rightarrow> nat" where
  "total_work s = (\<Sum>j<length (callers s). mon_work (callers s ! j))"

definition pending_knocks :: "mon_sys \<Rightarrow> nat" where
  "pending_knocks s = (\<Sum>j<length (callers s). unheard (callers s ! j))"

lemma total_work_step:
  assumes "mon_inv s" and "\<not> is_wait a" and "mon_step False a s = Some t"
  shows "Suc (total_work t) \<le> total_work s + (if is_knock a then 8 else 0)"
proof (cases a)
  case (Go i k)
  with assms(3) have "mon_step False (Go i k) s = Some t" by simp
  then obtain pc' m where i: "i < length (callers s)"
    and op: "mon_op i k (callers s ! i) (mon s) = Goto pc' m" and t: "callers t = (callers s)[i := pc']"
    by (rule mon_goE [OF assms(1)]) (rule that; simp)
  from mon_op_work [OF op] sum_list_update_nat [OF i, of "\<lambda>_. mon_work" pc'] t Go show ?thesis
    by (simp add: total_work_def)
next
  case (Call_knock i)
  with assms(3) have i: "i < length (callers s)" and "callers s ! i = Idle" "callers t = (callers s)[i := K_lock]"
    by (auto simp: mon_call_def split: if_splits)
  with Call_knock sum_list_update_nat [OF i, of "\<lambda>_. mon_work" K_lock] show ?thesis by (simp add: total_work_def)
qed (use assms in simp_all)

lemma total_work_run:
  assumes "mon_inv s" and "\<forall>a \<in> set acts. \<not> is_wait a" and "run (mon_step False) acts s = Some t"
  shows "length acts + total_work t \<le> total_work s + 8 * knocks acts"
  using assms
proof (induction acts arbitrary: s)
  case (Cons a acts)
  from Cons.prems(3) obtain u where u: "mon_step False a s = Some u" "run (mon_step False) acts u = Some t"
    by (auto split: option.splits)
  from Cons.IH [OF mon_step_inv [OF Cons.prems(1) u(1)] _ u(2)] Cons.prems(2)
    total_work_step [OF Cons.prems(1) _ u(1)] show ?case by (auto simp: knocks_def split: if_splits)
qed (simp add: knocks_def)

text \<open>
  Only thread \<open>w\<close> has called \<open>monitor_wait\<close>, and \<open>k\<close> calls of \<open>monitor_knock\<close> were made: before the
  first signal it sleeps and every call has been heard or will be; afterwards nobody sleeps.
\<close>

definition knocker :: "mon_pc \<Rightarrow> bool" where
  "knocker pc \<longleftrightarrow> pc \<notin> {W_lock, W_set, W_cond, W_asleep, W_clear, W_unlock}"

definition awaits :: "nat \<Rightarrow> nat \<Rightarrow> mon_sys \<Rightarrow> bool" where
  "awaits w k s \<longleftrightarrow>
     mon_cond (mon s) = [w] \<and> callers s ! w = W_asleep \<and> somebody_waits (mon s) = 1 \<and> returns s = 0 \<and>
     k = heard s + pending_knocks s"

definition served :: "nat \<Rightarrow> mon_sys \<Rightarrow> bool" where
  "served w s \<longleftrightarrow>
     mon_cond (mon s) = [] \<and> callers s ! w \<notin> {W_lock, W_set, W_cond} \<and> returns s = (if callers s ! w = W_asleep then 0 else 1)"

definition one_waiter :: "nat \<Rightarrow> nat \<Rightarrow> mon_sys \<Rightarrow> bool" where
  "one_waiter w k s \<longleftrightarrow>
     mon_inv s \<and> w < length (callers s) \<and> (\<forall>i < length (callers s). i \<noteq> w \<longrightarrow> knocker (callers s ! i)) \<and>
     (if signals s = 0 then awaits w k s else served w s)"

lemma mon_op_knocker: "mon_op i j pc m = Goto pc' m' \<Longrightarrow> knocker pc \<Longrightarrow> knocker pc'"
  by (cases pc) (auto simp: mon_op.simps mon_lock_defs knocker_def split: if_splits option.splits)

lemma awaits_go:
  assumes aw: "awaits w k s" and kn: "knocker (callers s ! i)" "i \<noteq> w" and i: "i < length (callers s)"
    and op: "mon_op i j (callers s ! i) (mon s) = Goto pc' m"
    and t: "t = s\<lparr>mon := m, callers := (callers s)[i := pc'],
      heard := (if callers s ! i = K_inc then heard s + 1 else heard s),
      signals := (if callers s ! i = K_signal then signals s + 1 else signals s),
      returns := (if callers s ! i = W_asleep then returns s + 1 else returns s)\<rparr>"
  shows "if callers s ! i = K_signal then served w t else awaits w k t"
proof -
  from aw have a: "mon_cond (mon s) = [w]" "somebody_waits (mon s) = 1" by (simp_all add: awaits_def)
  from op kn a have "unheard pc' + (if callers s ! i = K_inc then 1 else 0) = unheard (callers s ! i)"
    and m: "somebody_waits m = 1" "mon_cond m = (if callers s ! i = K_signal then [] else [w])"
    by (cases "callers s ! i"; auto simp: mon_op.simps mon_lock_defs knocker_def split: if_splits option.splits)+
  with sum_list_update_nat [OF i, of "\<lambda>_. unheard" pc'] have
    "pending_knocks t + (if callers s ! i = K_inc then 1 else 0) = pending_knocks s"
    using t by (simp add: pending_knocks_def)
  with m aw kn t show ?thesis by (auto simp: awaits_def served_def knocker_def)
qed

lemma served_go:
  assumes sv: "served w s" and kn: "i \<noteq> w \<longrightarrow> knocker (callers s ! i)" and i: "i < length (callers s)" "w < length (callers s)"
    and op: "mon_op i j (callers s ! i) (mon s) = Goto pc' m"
    and t: "t = s\<lparr>mon := m, callers := (callers s)[i := pc'],
      heard := (if callers s ! i = K_inc then heard s + 1 else heard s),
      signals := (if callers s ! i = K_signal then signals s + 1 else signals s),
      returns := (if callers s ! i = W_asleep then returns s + 1 else returns s)\<rparr>"
  shows "served w t"
proof -
  from sv kn have "callers s ! i \<noteq> W_cond" by (auto simp: served_def knocker_def)
  with mon_op_cond [OF op] sv have "mon_cond m = []" by (auto simp: served_def)
  moreover have "pc' \<notin> {W_lock, W_set, W_cond, W_asleep}" if "callers s ! i \<notin> {W_lock, W_set, W_cond}"
    using op that by (cases "callers s ! i") (auto simp: mon_op.simps mon_lock_defs split: if_splits option.splits)
  ultimately show ?thesis using sv kn i t by (auto simp: served_def knocker_def nth_list_update)
qed

lemma one_waiter_step:
  assumes ow: "one_waiter w k s" and a: "\<not> is_wait a" and st: "mon_step False a s = Some t"
  shows "one_waiter w (k + (if is_knock a then 1 else 0)) t"
proof -
  from ow have inv: "mon_inv s" and w: "w < length (callers s)"
    and kn: "\<forall>i < length (callers s). i \<noteq> w \<longrightarrow> knocker (callers s ! i)" by (simp_all add: one_waiter_def)
  note inv' = mon_step_inv [OF inv st]
  show ?thesis
  proof (cases a)
    case (Go i j)
    with st have "mon_step False (Go i j) s = Some t" by simp
    from mon_goE [OF inv this] obtain pc' m where i: "i < length (callers s)"
      and op: "mon_op i j (callers s ! i) (mon s) = Goto pc' m"
      and t: "t = s\<lparr>mon := m, callers := (callers s)[i := pc'],
        heard := (if callers s ! i = K_inc then heard s + 1 else heard s),
        signals := (if callers s ! i = K_signal then signals s + 1 else signals s),
        returns := (if callers s ! i = W_asleep then returns s + 1 else returns s)\<rparr>" .
    have kn': "\<forall>j < length (callers t). j \<noteq> w \<longrightarrow> knocker (callers t ! j)"
      using kn mon_op_knocker [OF op] i t by (auto simp: nth_list_update)
    show ?thesis
    proof (cases "signals s = 0")
      case True
      with ow have aw: "awaits w k s" by (simp add: one_waiter_def)
      have "i \<noteq> w"
      proof
        assume "i = w"
        with aw op show False by (auto simp: awaits_def mon_op.simps)
      qed
      from awaits_go [OF aw _ this i op t] kn i this show ?thesis
        using True Go w kn' inv' t by (auto simp: one_waiter_def split: if_splits)
    next
      case False
      with ow have "served w s" by (simp add: one_waiter_def)
      from served_go [OF this _ i w op t] kn i show ?thesis
        using False Go w kn' inv' t by (auto simp: one_waiter_def)
    qed
  next
    case (Call_knock i)
    with st have i: "i < length (callers s)" "callers s ! i = Idle" and t: "t = s\<lparr>callers := (callers s)[i := K_lock]\<rparr>"
      by (auto simp: mon_call_def split: if_splits)
    have kn': "\<forall>j < length (callers t). j \<noteq> w \<longrightarrow> knocker (callers t ! j)"
      using kn t i(1) by (simp add: nth_list_update) (simp add: knocker_def)
    have "pending_knocks t = Suc (pending_knocks s)"
      using sum_list_update_nat [OF i(1), of "\<lambda>_. unheard" K_lock] i t by (simp add: pending_knocks_def)
    with ow i t w kn' inv' Call_knock show ?thesis
      by (auto simp: one_waiter_def awaits_def served_def nth_list_update split: if_splits)
  qed (use a st in simp_all)
qed

lemma one_waiter_run:
  assumes "one_waiter w k s" and "\<forall>a \<in> set acts. \<not> is_wait a" and "run (mon_step False) acts s = Some t"
  shows "one_waiter w (k + knocks acts) t"
  using assms
proof (induction acts arbitrary: s k)
  case (Cons a acts)
  from Cons.prems(3) obtain u where u: "mon_step False a s = Some u" "run (mon_step False) acts u = Some t"
    by (auto split: option.splits)
  from Cons.IH [OF one_waiter_step [OF Cons.prems(1) _ u(1)] _ u(2)] Cons.prems(2) show ?case
    by (auto simp: knocks_def split: if_splits)
qed (simp add: knocks_def)

text \<open>Where nobody can go on, the mutex is free, and all threads are idle or asleep.\<close>

lemma mon_stuck:
  assumes inv: "mon_inv s" and stuck: "\<forall>i k. mon_step False (Go i k) s = None"
  shows "owner (mon_mut (mon s)) = None" and "i < length (callers s) \<Longrightarrow> callers s ! i = Idle \<or> i \<in> set (mon_cond (mon s))"
proof -
  have bl: "mon_op i k (callers s ! i) (mon s) \<noteq> Goto pc m" if "i < length (callers s)" for i k pc m
    using stuck [rule_format, of i k] inv that by (auto simp: mon_go_def mon_inv_def Let_def)
  show free: "owner (mon_mut (mon s)) = None"
  proof (cases "owner (mon_mut (mon s))")
    case (Some i)
    with inv have i: "i < length (callers s)" "mon_inside (callers s ! i)" by (auto simp: mon_inv_def mon_excl_def)
    with bl [OF i(1), of "hd (mon_cond (mon s))"] mon_no_crash [OF inv i(1), of "hd (mon_cond (mon s))"] Some show ?thesis
      by (cases "callers s ! i"; cases "mon_cond (mon s)")
        (auto simp: mon_op.simps mon_lock_defs i32_check_eq_Some split: if_splits option.splits)
  qed simp
  show "callers s ! i = Idle \<or> i \<in> set (mon_cond (mon s))" if i: "i < length (callers s)"
  proof -
    from free inv i have "\<not> mon_inside (callers s ! i)" by (auto simp: mon_inv_def mon_excl_def)
    with bl [OF i] free show ?thesis
      by (cases "callers s ! i"; cases "i \<in> set (mon_cond (mon s))") (auto simp: mon_op.simps mon_lock_defs)
  qed
qed

text \<open>
  C32. Ten knocks release a waiter. One of \<open>n\<close> threads sleeps in \<open>monitor_wait\<close>; then the threads knock,
  as many and as often as they like and in any interleaving, and nobody else waits. Under every
  schedule no run is longer than eight actions per knock and three; and when ten or more knocks
  have been made and nobody can go on, the waiter has been signalled and has returned, once,
  all threads are out of the monitor, and it can be destroyed.
\<close>

theorem ten_knocks_release:
  assumes "w < n" and "run (mon_step False) acts (one_asleep n w 0) = Some t" and "\<forall>a \<in> set acts. \<not> is_wait a"
  shows "length acts \<le> 8 * knocks acts + 3 \<and>
    (10 \<le> knocks acts \<and> (\<forall>i k. mon_step False (Go i k) t = None) \<longrightarrow>
      returns t = 1 \<and> (\<forall>i < n. callers t ! i = Idle) \<and> monitor_destroy (mon t) = Some ())"
proof (intro conjI impI)
  from mon.run_inv [OF wait_call_run [OF assms(1)]] have inv0: "mon_inv (one_asleep n w 0)" .
  have "mon_work ((replicate n Idle)[w := W_asleep] ! j) = (if j = w then 3 else 0)" if "j < n" for j
    using that by (simp add: nth_list_update)
  then have "total_work (one_asleep n w 0) = (\<Sum>j<n. if j = w then 3 else 0)"
    by (simp add: total_work_def one_asleep_def)
  also have "\<dots> = 3" using assms(1) by simp
  finally show "length acts \<le> 8 * knocks acts + 3" using total_work_run [OF inv0 assms(3,2)] by simp
  have "pending_knocks (one_asleep n w 0) = 0" by (auto simp: pending_knocks_def one_asleep_def nth_list_update assms(1))
  with inv0 assms(1) have "one_waiter w 0 (one_asleep n w 0)"
    by (simp add: one_waiter_def awaits_def) (simp add: one_asleep_def knocker_def)
  from one_waiter_run [OF this assms(3,2)] have ow: "one_waiter w (knocks acts) t" by simp
  then have inv: "mon_inv t" and w: "w < length (callers t)" by (simp_all add: one_waiter_def)
  assume "10 \<le> knocks acts \<and> (\<forall>i k. mon_step False (Go i k) t = None)"
  then have ten: "10 \<le> knocks acts" and stuck: "\<forall>i k. mon_step False (Go i k) t = None" by blast+
  note quiet = mon_stuck [OF inv stuck]
  have "signals t \<noteq> 0"
  proof
    assume z: "signals t = 0"
    with ow have aw: "awaits w (knocks acts) t" by (simp add: one_waiter_def)
    with quiet(2) have "\<forall>j < length (callers t). unheard (callers t ! j) = 0" by (fastforce simp: awaits_def)
    then have "pending_knocks t = 0" by (simp add: pending_knocks_def)
    with aw ten have "10 \<le> heard t" by (simp add: awaits_def)
    with inv z quiet(1) show False by (auto simp: mon_inv_def)
  qed
  with ow have sv: "served w t" by (simp add: one_waiter_def)
  with quiet have idle: "\<forall>i < length (callers t). callers t ! i = Idle" by (auto simp: served_def)
  moreover have "length (callers t) = n" using mon_length [OF assms(2)] by (simp add: one_asleep_def)
  ultimately show "returns t = 1" "\<forall>i < n. callers t ! i = Idle" "monitor_destroy (mon t) = Some ()"
    using sv w quiet(1) by (simp_all add: served_def monitor_destroy_def)
qed

definition ten_knocks :: "mon_act list" where
  "ten_knocks = concat (replicate 9 (knock_call 1 0)) @ last_knock_call 1 0 @ [Go 0 0, Go 0 0, Go 0 0]"

theorem ten_knocks_release_witness:
  "run (mon_step False) (wait_call 0 @ ten_knocks) (mon_start 2) = Some (returned 2) \<and>
   monitor_destroy (mon (returned 2)) = Some ()"
proof -
  have r: "run (mon_step False) ten_knocks (one_asleep 2 0 0) = Some (returned 2)"
    using ten_knocks_schedule [of 0 2 1] by (simp add: ten_knocks_def)
  moreover have "\<forall>a \<in> set ten_knocks. \<not> is_wait a" "10 \<le> knocks ten_knocks"
    by (simp_all add: ten_knocks_def knock_call_def last_knock_call_def knocks_def numeral_eq_Suc)
  moreover have "\<forall>i k. mon_step False (Go i k) (returned 2) = None"
    by (simp add: returned_def mon_go_def mon_op.simps)
  ultimately have "monitor_destroy (mon (returned 2)) = Some ()"
    using ten_knocks_release [of 0 2 ten_knocks "returned 2"] by simp
  with r wait_call_run [of 0 2] show ?thesis by (simp add: run_append)
qed

section \<open>A waiter that is forgotten\<close>

text \<open>
  The flag \<open>somebody_waits\<close> is cleared by the first waiter that returns, whether or not
  others still sleep. From then on knocks are not heard.
\<close>

definition knocking :: "mon_pc \<Rightarrow> bool" where
  "knocking pc \<longleftrightarrow> pc \<in> {Idle, K_lock, K_test, K_unlock}"

definition forgotten :: "nat \<Rightarrow> mon_sys \<Rightarrow> bool" where
  "forgotten w s \<longleftrightarrow>
     somebody_waits (mon s) = 0 \<and> w \<in> set (mon_cond (mon s)) \<and> w < length (callers s) \<and> callers s ! w = W_asleep \<and>
     (\<forall>i < length (callers s). i \<noteq> w \<longrightarrow> knocking (callers s ! i))"

lemma forgotten_step:
  assumes f: "forgotten w s" and "\<not> is_wait a" and st: "mon_step False a s = Some t"
  shows "forgotten w t \<and> heard t = heard s"
proof (cases a)
  case (Go i k)
  with st have i: "i < length (callers s)" and go: "mon_go i k s = Some t"
    by (auto simp: mon_go_def split: if_splits)
  have "i \<noteq> w" using f go by (auto simp: forgotten_def mon_go_def mon_op.simps split: if_splits)
  with f i have "knocking (callers s ! i)" by (simp add: forgotten_def)
  with go i f \<open>i \<noteq> w\<close> show ?thesis
    by (cases "callers s ! i")
      (auto simp: mon_eval forgotten_def knocking_def nth_list_update split: if_splits option.splits)
qed (use assms in \<open>auto simp: mon_call_def forgotten_def knocking_def nth_list_update split: if_splits\<close>)

text \<open>
  A second waiter can be forgotten: once the flag is cleared while a thread still
  sleeps, no number of knocks wakes it. Whatever the other threads do short of waiting
  themselves, the sleeper stays asleep and not a single knock is counted.
\<close>

theorem monitor_forgets_waiter:
  assumes "forgotten w s" and "run (mon_step False) acts s = Some t" and "\<forall>a \<in> set acts. \<not> is_wait a"
  shows "forgotten w t \<and> heard t = heard s"
  using assms
proof (induction acts arbitrary: s)
  case (Cons a acts)
  then obtain u where "mon_step False a s = Some u" "run (mon_step False) acts u = Some t"
    by (auto split: option.splits)
  with Cons forgotten_step [of w s a u] show ?case by auto
qed simp

text \<open>Two threads wait, ten knocks release the first: the second is forgotten.\<close>

definition two_waiters :: "mon_act list" where
  "two_waiters = wait_call 0 @ wait_call 1 @ concat (replicate 9 (knock_call 2 0)) @ last_knock_call 2 0 @
     [Go 0 0, Go 0 0, Go 0 0]"

definition after_two_waiters :: mon_sys where
  "after_two_waiters = the (run (mon_step False) two_waiters (mon_start 3))"

definition after_more_knocks :: mon_sys where
  "after_more_knocks =
     the (run (mon_step False) (concat (replicate 20 [Call_knock 2, Go 2 1, Go 2 1, Go 2 1])) after_two_waiters)"

lemma two_waiters_run: "run (mon_step False) two_waiters (mon_start 3) = Some after_two_waiters"
  by code_simp

lemma two_waiters_reach: "reach (mon_step False) (mon_start 3) after_two_waiters"
  using two_waiters_run reach_iff_run by fast

theorem monitor_forgets_waiter_witness:
  "run (mon_step False) two_waiters (mon_start 3) = Some after_two_waiters \<and> returns after_two_waiters = 1 \<and>
   1 \<in> set (mon_cond (mon after_more_knocks)) \<and> heard after_more_knocks = 10"
proof -
  have more: "run (mon_step False) (concat (replicate 20 [Call_knock 2, Go 2 1, Go 2 1, Go 2 1])) after_two_waiters =
      Some after_more_knocks" by code_simp
  have "somebody_waits (mon after_two_waiters) = 0" "mon_cond (mon after_two_waiters) = [1]"
    "callers after_two_waiters = [Idle, W_asleep, Idle]" by code_simp+
  then have f: "forgotten 1 after_two_waiters"
    by (auto simp: forgotten_def knocking_def nth_Cons' less_Suc_eq)
  have "\<forall>a \<in> set (concat (replicate 20 [Call_knock 2, Go 2 1, Go 2 1, Go 2 1])). \<not> is_wait a" by simp
  from monitor_forgets_waiter [OF f more this]
  have "forgotten 1 after_more_knocks" "heard after_more_knocks = heard after_two_waiters" by auto
  moreover have "returns after_two_waiters = 1" "heard after_two_waiters = 10" by code_simp+
  ultimately show ?thesis using two_waiters_run by (simp add: forgotten_def)
qed

theorem monitor_counts_witness:
  "owner (mon_mut (mon after_two_waiters)) = None \<and>
   int (heard after_two_waiters) = 10 * int (signals after_two_waiters) + cnt (mon after_two_waiters)"
proof -
  have "owner (mon_mut (mon after_two_waiters)) = None" by code_simp
  with monitor_counts [OF two_waiters_reach] show ?thesis by simp
qed

theorem monitor_wait_takes_ten_knocks_witness:
  "returns after_two_waiters = 1 \<and> 10 \<le> heard after_two_waiters"
proof -
  have "returns after_two_waiters = 1" by code_simp
  with monitor_wait_takes_ten_knocks [OF two_waiters_reach] show ?thesis by simp
qed

section \<open>Waking up without a reason\<close>

text \<open>
  \<open>monitor_wait\<close> does not check why it woke up. POSIX permits spurious wakeups from
  \<open>pthread_cond_wait\<close>, and the code calls it outside any loop, so with one of them the
  waiter returns although nobody has knocked at all.
\<close>

theorem monitor_spurious_return:
  "\<exists>acts s. run (mon_step True) acts (mon_start 1) = Some s \<and> returns s = 1 \<and> callers s = [Idle] \<and> heard s = 0"
proof -
  let ?acts = "wait_call 0 @ [Spurious 0, Go 0 0, Go 0 0, Go 0 0]"
  have "map_option (\<lambda>s. (returns s, callers s, heard s)) (run (mon_step True) ?acts (mon_start 1)) = Some (1, [Idle], 0)"
    by code_simp
  then show ?thesis by (intro exI [where x = ?acts]) (auto simp del: run.simps)
qed

end
