(* ===== verification/Matrix_Rows.thy ===== *)
theory Matrix_Rows
  imports Pthread
begin

text \<open>
  \<^verbatim>\<open>c/c_lab02_b.c\<close>: the sum of two 15 by 15 matrices, one thread per row and no
  synchronisation but the joins. Matrices are lists of rows; an access outside is
  undefined. The theorem is that the threads do not need to synchronise: each writes
  its own row.
\<close>

section \<open>The program\<close>

type_synonym matrix = "i32 list list"

datatype m_line = Calculating i32 | Calculated i32 | Entry i32 | Newline

record m_globals =
  mat_a :: matrix
  mat_b :: matrix
  mat_res :: matrix
  m_out :: "m_line list"

definition m_N :: i32 where
  "m_N = 15"

definition mat_get :: "matrix \<Rightarrow> i32 \<Rightarrow> i32 \<Rightarrow> i32 option" where
  "mat_get m i j =
     (if 0 \<le> i \<and> i < int (length m) \<and> 0 \<le> j \<and> j < int (length (m ! nat i)) then Some (m ! nat i ! nat j) else None)"

definition mat_set :: "matrix \<Rightarrow> i32 \<Rightarrow> i32 \<Rightarrow> i32 \<Rightarrow> matrix option" where
  "mat_set m i j v =
     (if 0 \<le> i \<and> i < int (length m) \<and> 0 \<le> j \<and> j < int (length (m ! nat i))
      then Some (m[nat i := (m ! nat i)[nat j := v]]) else None)"

text \<open>One round of the loop in \<open>calculate_row\<close>.\<close>

definition add_entry :: "i32 \<Rightarrow> i32 \<Rightarrow> m_globals \<Rightarrow> m_globals option" where
  "add_entry row j g =
     (case (mat_get (mat_a g) row j, mat_get (mat_b g) row j) of
        (Some x, Some y) \<Rightarrow>
          (case i32_check (x + y) of
             None \<Rightarrow> None
           | Some v \<Rightarrow> (case mat_set (mat_res g) row j v of None \<Rightarrow> None | Some m \<Rightarrow> Some (g\<lparr>mat_res := m\<rparr>)))
      | _ \<Rightarrow> None)"

datatype m_pc = R_start | R_say i32 | R_loop i32 i32 | R_done i32 | R_end

definition m_say :: "m_line \<Rightarrow> m_globals \<Rightarrow> m_globals" where
  "m_say x g = g\<lparr>m_out := m_out g @ [x]\<rparr>"

fun calculate_row :: "nat \<Rightarrow> i32 option \<Rightarrow> m_pc \<Rightarrow> m_globals \<Rightarrow> (m_pc, m_globals) outcome" where
  "calculate_row me d R_start g = (case d of None \<Rightarrow> Crash | Some row \<Rightarrow> Goto (R_say row) g)"
| "calculate_row me d (R_say row) g =
     (case i32_check (row + 1) of None \<Rightarrow> Crash | Some n \<Rightarrow> Goto (R_loop row 0) (m_say (Calculating n) g))"
| "calculate_row me d (R_loop row j) g =
     (if j < m_N then
        (case add_entry row j g of
           None \<Rightarrow> Crash
         | Some g' \<Rightarrow> (case i32_check (j + 1) of None \<Rightarrow> Crash | Some k \<Rightarrow> Goto (R_loop row k) g'))
      else Goto (R_done row) g)"
| "calculate_row me d (R_done row) g =
     (case i32_check (row + 1) of None \<Rightarrow> Crash | Some n \<Rightarrow> Goto R_end (m_say (Calculated n) g))"
| "calculate_row me d R_end g = Return g"

text \<open>The loops of \<open>init\<close> and \<open>print_matrix\<close>, over all pairs of indices in order.\<close>

definition indices :: "(i32 \<times> i32) list" where
  "indices = List.product [0..m_N - 1] [0..m_N - 1]"

definition init_entry :: "m_globals option \<Rightarrow> i32 \<times> i32 \<Rightarrow> m_globals option" where
  "init_entry og ij =
     (case og of
        None \<Rightarrow> None
      | Some g \<Rightarrow>
          (case (mat_set (mat_a g) (fst ij) (snd ij) 2000, i32_check (snd ij + 1)) of
             (Some a, Some v) \<Rightarrow>
               (case mat_set (mat_b g) (fst ij) (snd ij) v of
                  None \<Rightarrow> None
                | Some b \<Rightarrow> Some (g\<lparr>mat_a := a, mat_b := b\<rparr>))
           | _ \<Rightarrow> None))"

definition m_init :: "m_globals \<Rightarrow> m_globals option" where
  "m_init g = foldl init_entry (Some g) indices"

fun print_row :: "matrix \<Rightarrow> i32 \<Rightarrow> i32 list \<Rightarrow> m_line list option" where
  "print_row m i [] = Some [Newline]"
| "print_row m i (j # js) =
     (case (mat_get m i j, print_row m i js) of (Some x, Some xs) \<Rightarrow> Some (Entry x # xs) | _ \<Rightarrow> None)"

fun print_rows :: "matrix \<Rightarrow> i32 list \<Rightarrow> m_line list option" where
  "print_rows m [] = Some []"
| "print_rows m (i # is) =
     (case (print_row m i [0..m_N - 1], print_rows m is) of (Some xs, Some ys) \<Rightarrow> Some (xs @ ys) | _ \<Rightarrow> None)"

definition print_matrix :: "matrix \<Rightarrow> m_line list option" where
  "print_matrix m = print_rows m [0..m_N - 1]"

text \<open>
  An access outside the matrices would be undefined in \<open>init\<close> and in the final
  \<open>print_matrix\<close> too; there the model stops with a message of its own, which the
  theorem shows never to appear.
\<close>

definition m_program :: "(m_pc, m_globals) program" where
  "m_program =
     \<lparr>no_th = nat m_N,
      entry = (\<lambda>i. R_start),
      slot = (\<lambda>i. i),
      body = calculate_row,
      bad_rc = (\<lambda>r. r \<noteq> 0),
      init = (\<lambda>g. case m_init g of None \<Rightarrow> Inl ''out of bounds'' | Some h \<Rightarrow> Inr h),
      fini = (\<lambda>g. case print_matrix (mat_res g) of
                None \<Rightarrow> Inl ''out of bounds'' | Some xs \<Rightarrow> Inr (g\<lparr>m_out := m_out g @ xs\<rparr>)),
      create_msg = (\<lambda>i. ''Can't create thread''),
      join_msg = ''Can't join thread t'',
      before = (\<lambda>i g. g)\<rparr>"

definition zero_matrix :: matrix where
  "zero_matrix = replicate (nat m_N) (replicate (nat m_N) 0)"

definition m_globals0 :: m_globals where
  "m_globals0 = \<lparr>mat_a = zero_matrix, mat_b = zero_matrix, mat_res = zero_matrix, m_out = []\<rparr>"

section \<open>Rows\<close>

definition square :: "matrix \<Rightarrow> bool" where
  "square m \<longleftrightarrow> length m = 15 \<and> (\<forall>i < 15. length (m ! i) = 15)"

lemma mat_get_square [simp]: "square m \<Longrightarrow> i < 15 \<Longrightarrow> j < 15 \<Longrightarrow> mat_get m (int i) (int j) = Some (m ! i ! j)"
  by (simp add: mat_get_def square_def)

lemma mat_set_square [simp]:
  "square m \<Longrightarrow> i < 15 \<Longrightarrow> j < 15 \<Longrightarrow> mat_set m (int i) (int j) v = Some (m[i := (m ! i)[j := v]])"
  by (simp add: mat_set_def square_def)

lemma square_update [simp]: "square m \<Longrightarrow> i < 15 \<Longrightarrow> square (m[i := (m ! i)[j := v]])"
  by (auto simp: square_def nth_list_update)

definition a_matrix :: matrix where
  "a_matrix = replicate 15 (replicate 15 2000)"

definition b_matrix :: matrix where
  "b_matrix = replicate 15 [1..15]"

definition sum_matrix :: matrix where
  "sum_matrix = replicate 15 [2001..2015]"

lemma m_init_ok: "m_init m_globals0 = Some (m_globals0\<lparr>mat_a := a_matrix, mat_b := b_matrix\<rparr>)"
  by code_simp

definition sum_text :: "m_line list" where
  "sum_text = concat (replicate 15 (map Entry [2001..2015] @ [Newline]))"

lemma print_sum_matrix: "print_matrix sum_matrix = Some sum_text"
  by code_simp

section \<open>The invariant\<close>

fun m_row :: "i32 \<Rightarrow> m_line \<Rightarrow> bool" where
  "m_row n (Calculating k) \<longleftrightarrow> k = n"
| "m_row n (Calculated k) \<longleftrightarrow> k = n"
| "m_row n _ \<longleftrightarrow> False"

definition of_row :: "i32 \<Rightarrow> m_line list \<Rightarrow> m_line list" where
  "of_row n xs = filter (m_row n) xs"

lemma of_row_simps [simp]:
  "of_row n [] = []" "of_row n (xs @ [x]) = of_row n xs @ (if m_row n x then [x] else [])"
  by (simp_all add: of_row_def)

fun m_filled :: "m_pc \<Rightarrow> int" where
  "m_filled (R_loop row j) = j" | "m_filled (R_done row) = 15" | "m_filled R_end = 15" | "m_filled _ = 0"

fun m_script :: "i32 \<Rightarrow> m_pc \<Rightarrow> m_line list" where
  "m_script n R_start = []"
| "m_script n (R_say row) = []"
| "m_script n R_end = [Calculating n, Calculated n]"
| "m_script n _ = [Calculating n]"

fun m_pc_ok :: "i32 \<Rightarrow> m_pc \<Rightarrow> bool" where
  "m_pc_ok k (R_say row) \<longleftrightarrow> row = k"
| "m_pc_ok k (R_loop row j) \<longleftrightarrow> row = k \<and> 0 \<le> j \<and> j \<le> 15"
| "m_pc_ok k (R_done row) \<longleftrightarrow> row = k"
| "m_pc_ok k _ \<longleftrightarrow> True"

definition row_filled :: "i32 list \<Rightarrow> int \<Rightarrow> bool" where
  "row_filled xs k \<longleftrightarrow> (\<forall>j. int j < k \<longrightarrow> xs ! j = 2001 + int j)"

definition row_at :: "i32 \<Rightarrow> int \<Rightarrow> m_line list \<Rightarrow> i32 list \<Rightarrow> m_line list \<Rightarrow> bool" where
  "row_at n k xs r out \<longleftrightarrow> row_filled r k \<and> of_row (n + 1) out = xs"

fun m_thread_ok :: "i32 \<Rightarrow> m_pc thread \<Rightarrow> i32 list \<Rightarrow> m_line list \<Rightarrow> bool" where
  "m_thread_ok n Unborn r out \<longleftrightarrow> row_at n 0 [] r out"
| "m_thread_ok n (Live pc) r out \<longleftrightarrow> m_pc_ok n pc \<and> row_at n (m_filled pc) (m_script (n + 1) pc) r out"
| "m_thread_ok n Done r out \<longleftrightarrow> row_at n 15 [Calculating (n + 1), Calculated (n + 1)] r out"

definition only_messages :: "m_line list \<Rightarrow> bool" where
  "only_messages xs \<longleftrightarrow> (\<forall>x \<in> set xs. \<exists>n \<in> {1..15}. m_row n x)"

definition m_inv :: "m_pc thread list \<Rightarrow> m_globals \<Rightarrow> bool" where
  "m_inv ts g \<longleftrightarrow>
     mat_a g = a_matrix \<and> mat_b g = b_matrix \<and> square (mat_res g) \<and> length ts = 15 \<and>
     only_messages (m_out g) \<and> (\<forall>i < 15. m_thread_ok (int i) (ts ! i) (mat_res g ! i) (m_out g))"

fun m_work :: "m_pc \<Rightarrow> nat" where
  "m_work R_start = 19" | "m_work (R_say row) = 18" | "m_work (R_loop row j) = 2 + nat (15 - j)"
| "m_work (R_done row) = 1" | "m_work R_end = 0"

lemma m_program_simps [simp]:
  "no_th m_program = 15" "slot m_program i = i" "bad_rc m_program r \<longleftrightarrow> r \<noteq> 0"
  "entry m_program i = R_start" "body m_program = calculate_row" "before m_program = (\<lambda>i g. g)"
  by (simp_all add: m_program_def m_N_def)

lemma a_matrix_nth [simp]: "i < 15 \<Longrightarrow> j < 15 \<Longrightarrow> a_matrix ! i ! j = 2000"
  by (simp add: a_matrix_def)

lemma b_matrix_nth [simp]: "i < 15 \<Longrightarrow> j < 15 \<Longrightarrow> b_matrix ! i ! j = int j + 1"
  by (simp add: b_matrix_def nth_upto)

lemma sum_matrix_nth: "i < 15 \<Longrightarrow> j < 15 \<Longrightarrow> sum_matrix ! i ! j = 2001 + int j"
  unfolding sum_matrix_def nth_replicate by (rule nth_upto) simp

lemma squares [simp]: "square a_matrix" "square b_matrix" "square zero_matrix" "square sum_matrix"
  by (simp_all add: square_def a_matrix_def b_matrix_def zero_matrix_def sum_matrix_def m_N_def)

text \<open>A round of the loop writes one entry of the thread's own row.\<close>

lemma add_entry_ok:
  assumes "mat_a g = a_matrix" "mat_b g = b_matrix" "square (mat_res g)" "i < 15" "0 \<le> j" "j < 15"
  shows "add_entry (int i) j g = Some (g\<lparr>mat_res := (mat_res g)[i := (mat_res g ! i)[nat j := 2001 + j]]\<rparr>)"
proof -
  from assms(5,6) obtain k where k: "j = int k" "k < 15" by (metis int_nat_eq nat_less_iff zero_less_numeral of_nat_less_iff of_nat_numeral)
  with assms show ?thesis by (simp add: add_entry_def)
qed

lemma row_filled_step: "row_filled r j \<Longrightarrow> 0 \<le> j \<Longrightarrow> j < int (length r) \<Longrightarrow> row_filled (r[nat j := 2001 + j]) (j + 1)"
  by (auto simp: row_filled_def nth_list_update)

text \<open>What an action of thread \<open>i\<close> changes: its own row and its own lines.\<close>

lemma calculate_row_goto:
  assumes b: "calculate_row i (Some (int i)) pc g = Goto pc' g'" and i: "i < 15"
    and g: "mat_a g = a_matrix" "mat_b g = b_matrix" "square (mat_res g)"
    and ok: "m_thread_ok (int i) (Live pc) (mat_res g ! i) (m_out g)"
  shows "m_thread_ok (int i) (Live pc') (mat_res g' ! i) (m_out g') \<and>
    mat_a g' = a_matrix \<and> mat_b g' = b_matrix \<and> square (mat_res g') \<and>
    (only_messages (m_out g) \<longrightarrow> only_messages (m_out g')) \<and>
    (\<forall>j \<noteq> i. mat_res g' ! j = mat_res g ! j \<and> of_row (int j + 1) (m_out g') = of_row (int j + 1) (m_out g))"
proof (cases pc)
  case (R_loop row j)
  show ?thesis
  proof (cases "j < 15")
    case True
    with R_loop ok add_entry_ok [OF g i, of j] b
    have "pc' = R_loop (int i) (j + 1)" "g' = g\<lparr>mat_res := (mat_res g)[i := (mat_res g ! i)[nat j := 2001 + j]]\<rparr>"
      by (auto simp: m_N_def i32_check_eq_Some split: option.splits)
    with R_loop True ok g i row_filled_step [of "mat_res g ! i" j] show ?thesis
      by (auto simp: row_at_def) (auto simp: square_def)
  next
    case False
    with R_loop b ok g show ?thesis by (auto simp: m_N_def)
  qed
qed (use b ok g i in \<open>auto simp: row_at_def row_filled_def m_say_def only_messages_def i32_check_eq_Some split: option.splits\<close>)

lemma m_inv_goto:
  assumes inv: "m_inv ts g" and i: "i < 15" and pc: "ts ! i = Live pc"
    and b: "calculate_row i (Some (int i)) pc g = Goto pc' g'"
  shows "m_inv (ts[i := Live pc']) g'"
proof -
  from inv have g: "mat_a g = a_matrix" "mat_b g = b_matrix" "square (mat_res g)"
    and ok: "\<forall>i < 15. m_thread_ok (int i) (ts ! i) (mat_res g ! i) (m_out g)" by (auto simp: m_inv_def)
  from ok i pc have "m_thread_ok (int i) (Live pc) (mat_res g ! i) (m_out g)" by metis
  note step = calculate_row_goto [OF b i g this]
  have "m_thread_ok (int j) (ts ! j) (mat_res g' ! j) (m_out g')" if "j < 15" "j \<noteq> i" for j
  proof -
    from ok that(1) have "m_thread_ok (int j) (ts ! j) (mat_res g ! j) (m_out g)" by blast
    with step that(2) show ?thesis by (cases "ts ! j") (auto simp: row_at_def)
  qed
  with step inv i show ?thesis by (auto simp: m_inv_def nth_list_update)
qed

lemma m_return: "calculate_row i a pc g = Return g' \<Longrightarrow> pc = R_end \<and> g' = g"
  by (cases pc) (auto split: option.splits if_splits)

lemma m_defined:
  assumes inv: "m_inv ts g" and i: "i < 15" and pc: "ts ! i = Live pc"
  shows "calculate_row i (Some (int i)) pc g \<noteq> Crash"
proof -
  from inv i pc have g: "mat_a g = a_matrix" "mat_b g = b_matrix" "square (mat_res g)"
    and ok: "m_thread_ok (int i) (Live pc) (mat_res g ! i) (m_out g)" unfolding m_inv_def by metis+
  show ?thesis
  proof (cases pc)
    case (R_loop row j)
    with ok add_entry_ok [OF g i, of j] show ?thesis by (auto simp: m_N_def split: option.splits)
  qed (use ok i in \<open>auto split: option.splits\<close>)
qed

lemma m_works: "m_pc_ok k pc \<Longrightarrow> calculate_row i a pc g = Goto pc' g' \<Longrightarrow> m_work pc' < m_work pc"
  by (cases pc) (auto simp: m_N_def i32_check_eq_Some split: option.splits if_splits)

lemma m_not_blocked: "calculate_row i a pc g \<noteq> Blocked"
  by (cases pc) (auto split: option.splits)

text \<open>When all threads are done, every row is filled.\<close>

lemma m_filled_result:
  assumes "m_inv (replicate 15 Done) g"
  shows "mat_res g = sum_matrix"
proof -
  from assms have sq: "square (mat_res g)" by (simp add: m_inv_def)
  have rows: "row_filled (mat_res g ! i) 15" if "i < 15" for i
    using assms that by (auto simp: m_inv_def row_at_def)
  show ?thesis
  proof (rule nth_equalityI)
    show "length (mat_res g) = length sum_matrix" using sq by (simp add: square_def sum_matrix_def)
    fix i assume "i < length (mat_res g)"
    then have i: "i < 15" using sq by (simp add: square_def)
    show "mat_res g ! i = sum_matrix ! i"
      using rows [OF i] sq squares(4) i by (intro nth_equalityI) (auto simp: square_def row_filled_def sum_matrix_nth)
  qed
qed

interpretation m: counted_program rc m_program m_globals0 m_inv m_work for rc
proof unfold_locales
  have "m_inv (replicate 15 Unborn) (m_globals0\<lparr>mat_a := a_matrix, mat_b := b_matrix\<rparr>)"
    by (simp add: m_inv_def m_globals0_def only_messages_def row_at_def row_filled_def)
  then show "\<exists>g. init m_program m_globals0 = Inr g \<and> m_inv (replicate (no_th m_program) Unborn) g"
    by (simp add: m_program_def m_init_ok m_N_def)
next
  fix g
  assume "m_inv (replicate (no_th m_program) Done) g"
  then show "\<exists>h. fini m_program g = Inr h"
    using m_filled_result [of g] by (simp add: m_program_def m_N_def print_sum_matrix)
next
  fix ts g i
  assume "m_inv ts g" "i < no_th m_program" "ts ! i = Unborn"
  then show "m_inv (ts[i := Live (entry m_program i)]) (before m_program i g)"
    by (auto simp: m_inv_def nth_list_update row_at_def row_filled_def)
next
  fix ts g i pc g'
  assume a: "m_inv ts g" "i < no_th m_program" "ts ! i = Live pc"
    "body m_program i (Some (int (slot m_program i))) pc g = Return g'"
  then have "pc = R_end" "g' = g" by (auto dest: m_return)
  with a show "m_inv (ts[i := Done]) g'" by (auto simp: m_inv_def nth_list_update)
next
  fix ts g i pc pc' g'
  assume "m_inv ts g" "i < no_th m_program" "ts ! i = Live pc"
    "body m_program i (Some (int (slot m_program i))) pc g = Goto pc' g'"
  then show "m_work pc' < m_work pc"
    using m_works [of "int i" pc i "Some (int i)" g pc' g'] unfolding m_inv_def
    by (metis m_program_simps(1,2,5) m_thread_ok.simps(2))
next
  fix ts :: "m_pc thread list" and g k
  assume "\<And>i. i < no_th m_program \<Longrightarrow> ts ! i \<noteq> Unborn" "k < no_th m_program" "ts ! k \<noteq> Done"
  then obtain pc where "ts ! k = Live pc" by (cases "ts ! k") auto
  then show "\<exists>i pc. i < no_th m_program \<and> ts ! i = Live pc \<and>
      body m_program i (Some (int (slot m_program i))) pc g \<noteq> Blocked"
    using \<open>k < no_th m_program\<close> m_not_blocked by auto
qed (simp_all add: m_inv_goto m_defined)

section \<open>Properties\<close>

text \<open>
  C27. The fifteen threads of lab 2b compute the sum of the matrices under every
  schedule, without a lock: no access leaves the matrices, a run that cannot be extended
  exits with status zero, every entry of the result is the sum of the entries of \<open>a\<close>
  and \<open>b\<close>, each thread has announced its row once before and once after, and the
  matrix is printed after all announcements.
\<close>

theorem matrix_rows_sum:
  assumes "run (proc_step all_ok m_program) sch (boot m_program m_globals0) = Some s"
    and "\<forall>a. proc_step all_ok m_program a s = None"
  shows "main s = Exited EXIT_SUCCESS \<and> err s = [] \<and>
    (\<forall>i < 15. \<forall>j < 15. mat_res (glob s) ! i ! j = mat_a (glob s) ! i ! j + mat_b (glob s) ! i ! j \<and>
      mat_res (glob s) ! i ! j = 2001 + int j) \<and>
    (\<exists>ms. m_out (glob s) = ms @ sum_text \<and>
      only_messages ms \<and> (\<forall>n \<in> {1..15}. of_row n ms = [Calculating n, Calculated n]))"
proof -
  from m.cnt.maximal_run_ok [OF assms(1)] assms(2)
  obtain h where ex: "main s = Exited EXIT_SUCCESS" "err s = []"
    and inv: "m_inv (replicate 15 Done) h" and fin: "fini m_program h = Inr (glob s)"
    by (auto simp: all_ok_def)
  from fin m_filled_result [OF inv]
  have gl: "glob s = h\<lparr>m_out := m_out h @ sum_text\<rparr>"
    by (simp add: m_program_def print_sum_matrix)
  have ms: "of_row n (m_out h) = [Calculating n, Calculated n]" if "n \<in> {1..15}" for n
  proof -
    from that have "nat (n - 1) < 15" "int (nat (n - 1)) + 1 = n" by auto
    with inv show ?thesis unfolding m_inv_def by (metis m_thread_ok.simps(3) nth_replicate row_at_def)
  qed
  have res: "mat_res h ! i ! j = 2001 + int j" if "i < 15" "j < 15" for i j
    using that by (simp add: m_filled_result [OF inv] sum_matrix_nth)
  from inv have ab: "mat_a h = a_matrix" "mat_b h = b_matrix" "only_messages (m_out h)" by (auto simp: m_inv_def)
  show ?thesis using ex gl ms res ab by auto
qed

theorem matrix_rows_sum_witness:
  "\<exists>sch s. run (proc_step all_ok m_program) sch (boot m_program m_globals0) = Some s \<and>
     main s = Exited EXIT_SUCCESS \<and> mat_res (glob s) ! 14 ! 14 = 2015"
proof -
  obtain sch s where r: "run (proc_step all_ok m_program) sch (boot m_program m_globals0) = Some s"
    and st: "\<forall>a. proc_step all_ok m_program a s = None"
    using m.cnt.sys.completes [of all_ok] by blast
  from matrix_rows_sum [OF r st] have ex: "main s = Exited 0"
    and all: "\<forall>i < 15. \<forall>j < 15. mat_res (glob s) ! i ! j = 2001 + int j" by blast+
  from all [rule_format, of 14 14] have "mat_res (glob s) ! 14 ! 14 = 2015" by simp
  with r ex show ?thesis by blast
qed

end
