(* ===== verification/Mutex_Blocks.thy ===== *)
theory Mutex_Blocks
  imports Pthread
begin

text \<open>
  \<^verbatim>\<open>c/c_lab03_b.c\<close>: two threads print ten blocks of ten lines each; a mutex around
  \<open>print_thread\<close> keeps the lines of a block together.
\<close>

section \<open>The program\<close>

datatype th_line = Thread_I i32 | Thread_II i32

record th_globals =
  th_mut :: pthread_mutex_t
  th_out :: "th_line list"
  th_unknown :: "i32 list"

datatype th_pc = T_start | T_test i32 i32 | T_lock i32 i32 | T_print i32 i32 i32 | T_unlock i32 i32 | T_end

text \<open>
  The body of the loop in \<open>print_thread\<close>: the value is computed in the branches that
  print it; a thread number other than 0 and 1 is reported on stderr.
\<close>

definition print_thread :: "i32 \<Rightarrow> i32 \<Rightarrow> th_globals \<Rightarrow> th_globals option" where
  "print_thread n j g =
     (if n = 0 \<or> n = 1 then
        (case i32_check (j * 1000) of
           None \<Rightarrow> None
         | Some x \<Rightarrow>
             (case i32_check (x + 1) of
                None \<Rightarrow> None
              | Some y \<Rightarrow> Some (g\<lparr>th_out := th_out g @ [if n = 0 then Thread_I y else Thread_II y]\<rparr>)))
      else Some (g\<lparr>th_unknown := th_unknown g @ [n]\<rparr>))"

fun th_func :: "nat \<Rightarrow> i32 option \<Rightarrow> th_pc \<Rightarrow> th_globals \<Rightarrow> (th_pc, th_globals) outcome" where
  "th_func me a T_start g = (case a of None \<Rightarrow> Crash | Some n \<Rightarrow> Goto (T_test n 0) g)"
| "th_func me a (T_test n i) g = (if i < 10 then Goto (T_lock n i) g else Goto T_end g)"
| "th_func me a (T_lock n i) g =
     (case pthread_mutex_lock me (th_mut g) of None \<Rightarrow> Blocked | Some m \<Rightarrow> Goto (T_print n i 0) (g\<lparr>th_mut := m\<rparr>))"
| "th_func me a (T_print n i j) g =
     (if j < 10 then
        (case print_thread n j g of
           None \<Rightarrow> Crash
         | Some g' \<Rightarrow> (case i32_check (j + 1) of None \<Rightarrow> Crash | Some k \<Rightarrow> Goto (T_print n i k) g'))
      else Goto (T_unlock n i) g)"
| "th_func me a (T_unlock n i) g =
     (case pthread_mutex_unlock me (th_mut g) of
        None \<Rightarrow> Crash
      | Some m \<Rightarrow> (case i32_check (i + 1) of None \<Rightarrow> Crash | Some k \<Rightarrow> Goto (T_test n k) (g\<lparr>th_mut := m\<rparr>)))"
| "th_func me a T_end g = Return g"

definition th_program :: "(th_pc, th_globals) program" where
  "th_program =
     \<lparr>no_th = 2,
      entry = (\<lambda>i. T_start),
      slot = (\<lambda>i. i),
      body = th_func,
      bad_rc = (\<lambda>r. r \<noteq> 0),
      init = Inr,
      fini = Inr,
      create_msg = (\<lambda>i. ''Error creating thread for func''),
      join_msg = ''Unable to join threads'',
      before = (\<lambda>i g. g)\<rparr>"

definition th_globals0 :: th_globals where
  "th_globals0 = \<lparr>th_mut = PTHREAD_MUTEX_INITIALIZER, th_out = [], th_unknown = []\<rparr>"

section \<open>What is printed\<close>

definition th_line_of :: "i32 \<Rightarrow> i32 \<Rightarrow> th_line" where
  "th_line_of n v = (if n = 0 then Thread_I v else Thread_II v)"

definition th_block :: "i32 \<Rightarrow> i32 \<Rightarrow> th_line list" where
  "th_block n k = map (\<lambda>j. th_line_of n (1000 * j + 1)) [0..k - 1]"

definition th_blocks :: "i32 list \<Rightarrow> th_line list" where
  "th_blocks ns = concat (map (\<lambda>n. th_block n 10) ns)"

fun th_by :: "i32 \<Rightarrow> th_line \<Rightarrow> bool" where
  "th_by n (Thread_I v) \<longleftrightarrow> n = 0"
| "th_by n (Thread_II v) \<longleftrightarrow> n = 1"

definition th_count :: "i32 \<Rightarrow> th_line list \<Rightarrow> int" where
  "th_count n xs = int (length (filter (th_by n) xs))"

lemma th_blocks_simps [simp]:
  "th_blocks [] = []" "th_blocks (ns @ [n]) = th_blocks ns @ th_block n 10"
  by (simp_all add: th_blocks_def)

lemma th_block_simps:
  "th_block n 0 = []" "0 \<le> k \<Longrightarrow> th_block n (k + 1) = th_block n k @ [th_line_of n (1000 * k + 1)]"
  using upto_rec2 [of 0 k] by (simp_all add: th_block_def)

lemma th_by_line_of: "n = 0 \<or> n = 1 \<Longrightarrow> m = 0 \<or> m = 1 \<Longrightarrow> th_by m (th_line_of n v) \<longleftrightarrow> m = n"
  by (auto simp: th_line_of_def)

lemma th_count_simps [simp]:
  "th_count n [] = 0" "th_count n (xs @ ys) = th_count n xs + th_count n ys"
  "th_count n [x] = (if th_by n x then 1 else 0)"
  by (simp_all add: th_count_def)

lemma th_count_block:
  assumes "n = 0 \<or> n = 1" and "m = 0 \<or> m = 1"
  shows "th_count m (th_block n 10) = (if m = n then 10 else 0)"
  using th_by_line_of [OF assms] by (auto simp: th_count_def th_block_def filter_map o_def)

lemma th_count_blocks:
  assumes "set ns \<subseteq> {0, 1}" and "m = 0 \<or> m = 1"
  shows "th_count m (th_blocks ns) = 10 * int (count_list ns m)"
  using assms(1)
proof (induction ns rule: rev_induct)
  case (snoc n ns)
  then have "n = 0 \<or> n = 1" by auto
  with snoc th_count_block [OF this assms(2)] show ?case by auto
qed simp

section \<open>The invariant\<close>

fun th_inside :: "th_pc \<Rightarrow> bool" where
  "th_inside (T_print n i j) = True" | "th_inside (T_unlock n i) = True" | "th_inside _ = False"

fun th_printed :: "th_pc \<Rightarrow> int" where
  "th_printed T_start = 0" | "th_printed (T_test n i) = 10 * i" | "th_printed (T_lock n i) = 10 * i"
| "th_printed (T_print n i j) = 10 * i + j" | "th_printed (T_unlock n i) = 10 * i + 10" | "th_printed T_end = 100"

fun th_pc_ok :: "i32 \<Rightarrow> th_pc \<Rightarrow> bool" where
  "th_pc_ok k T_start \<longleftrightarrow> True"
| "th_pc_ok k (T_test n i) \<longleftrightarrow> n = k \<and> 0 \<le> i \<and> i \<le> 10"
| "th_pc_ok k (T_lock n i) \<longleftrightarrow> n = k \<and> 0 \<le> i \<and> i < 10"
| "th_pc_ok k (T_print n i j) \<longleftrightarrow> n = k \<and> 0 \<le> i \<and> i < 10 \<and> 0 \<le> j \<and> j \<le> 10"
| "th_pc_ok k (T_unlock n i) \<longleftrightarrow> n = k \<and> 0 \<le> i \<and> i < 10"
| "th_pc_ok k T_end \<longleftrightarrow> True"

fun th_thread_ok :: "i32 \<Rightarrow> th_pc thread \<Rightarrow> th_line list \<Rightarrow> bool" where
  "th_thread_ok n Unborn xs \<longleftrightarrow> th_count n xs = 0"
| "th_thread_ok n (Live pc) xs \<longleftrightarrow> th_pc_ok n pc \<and> th_count n xs = th_printed pc"
| "th_thread_ok n Done xs \<longleftrightarrow> th_count n xs = 100"

definition th_side :: "th_pc thread list \<Rightarrow> th_globals \<Rightarrow> bool" where
  "th_side ts g \<longleftrightarrow>
     length ts = 2 \<and> (\<forall>i < 2. th_thread_ok (int i) (ts ! i) (th_out g)) \<and> th_unknown g = []"

definition th_R :: "th_globals \<Rightarrow> bool" where
  "th_R g \<longleftrightarrow> (\<exists>ns. set ns \<subseteq> {0, 1} \<and> th_out g = th_blocks ns)"

fun th_L :: "th_pc \<Rightarrow> th_globals \<Rightarrow> bool" where
  "th_L (T_print n i j) g \<longleftrightarrow> (\<exists>ns. set ns \<subseteq> {0, 1} \<and> th_out g = th_blocks ns @ th_block n j)"
| "th_L _ g \<longleftrightarrow> th_R g"

fun th_work :: "th_pc \<Rightarrow> nat" where
  "th_work T_start = 142"
| "th_work (T_test n i) = 14 * nat (10 - i) + 1" | "th_work (T_lock n i) = 14 * nat (10 - i)"
| "th_work (T_print n i j) = 14 * nat (10 - i) - 12 + nat (11 - j)"
| "th_work (T_unlock n i) = 14 * nat (10 - i) - 12" | "th_work T_end = 0"

lemma th_program_simps [simp]:
  "no_th th_program = 2" "slot th_program i = i" "bad_rc th_program r \<longleftrightarrow> r \<noteq> 0"
  "init th_program = Inr" "fini th_program = Inr" "entry th_program i = T_start" "body th_program = th_func"
  "before th_program = (\<lambda>i g. g)"
  by (simp_all add: th_program_def)

text \<open>For the two threads there are, \<open>print_thread\<close> prints one line.\<close>

lemma print_thread_known:
  assumes "n = 0 \<or> n = 1" and "0 \<le> j" and "j < 10"
  shows "print_thread n j g = Some (g\<lparr>th_out := th_out g @ [th_line_of n (1000 * j + 1)]\<rparr>)"
  using assms by (simp add: print_thread_def th_line_of_def mult.commute)

lemma int_less_2: "i < 2 \<Longrightarrow> int i = 0 \<or> int i = 1"
  by auto

lemma th_goto_ok:
  assumes b: "th_func i (Some (int i)) pc g = Goto pc' g'" and i: "int i = 0 \<or> int i = 1"
    and ok: "th_pc_ok (int i) pc"
  shows "th_pc_ok (int i) pc' \<and> th_unknown g' = th_unknown g \<and>
    th_count (int i) (th_out g') = th_count (int i) (th_out g) + (th_printed pc' - th_printed pc) \<and>
    (\<forall>n. (n = 0 \<or> n = 1) \<and> n \<noteq> int i \<longrightarrow> th_count n (th_out g') = th_count n (th_out g))"
proof (cases pc)
  case (T_print n k j)
  show ?thesis
  proof (cases "j < 10")
    case True
    with T_print ok i print_thread_known [of n j g] b
    have "pc' = T_print n k (j + 1)" "g' = g\<lparr>th_out := th_out g @ [th_line_of (int i) (1000 * j + 1)]\<rparr>"
      by (auto simp: i32_check_eq_Some split: option.splits)
    with T_print True ok i th_by_line_of [OF i] show ?thesis by auto
  next
    case False
    with T_print b ok show ?thesis by auto
  qed
qed (use b ok in \<open>auto simp: i32_check_eq_Some split: option.splits if_splits\<close>)

lemma th_side_at:
  assumes "th_side ts g" and "i < length ts" and "ts ! i = Live pc"
  shows "int i = 0 \<or> int i = 1" and "th_pc_ok (int i) pc" and "i < 2"
proof -
  from assms have i: "i < 2" "th_thread_ok (int i) (Live pc) (th_out g)" unfolding th_side_def by metis+
  then show "int i = 0 \<or> int i = 1" "th_pc_ok (int i) pc" "i < 2" using int_less_2 by auto
qed

lemma th_side_goto:
  assumes s: "th_side ts g" and i: "i < length ts" and pc: "ts ! i = Live pc"
    and b: "th_func i (Some (int i)) pc g = Goto pc' g'"
  shows "th_side (ts[i := Live pc']) g'"
proof -
  note at = th_side_at [OF s i pc]
  note th = th_goto_ok [OF b at(1,2)]
  from s at(3) have "th_thread_ok (int i) (ts ! i) (th_out g)" by (simp add: th_side_def)
  with pc th have me: "th_thread_ok (int i) (Live pc') (th_out g')" by simp
  have others: "th_thread_ok (int j) (ts ! j) (th_out g')" if "j < 2" "j \<noteq> i" for j
  proof -
    have "th_count (int j) (th_out g') = th_count (int j) (th_out g)"
      using th int_less_2 [OF that(1)] that(2) by auto
    moreover have "th_thread_ok (int j) (ts ! j) (th_out g)" using s that(1) by (simp add: th_side_def)
    ultimately show ?thesis by (cases "ts ! j") auto
  qed
  from s th me others at(3) show ?thesis by (auto simp: th_side_def nth_list_update)
qed

lemma th_return: "th_func i a pc g = Return g' \<Longrightarrow> pc = T_end \<and> g' = g"
  by (cases pc) (auto split: option.splits if_splits)

lemma th_works:
  assumes "th_pc_ok k pc" and "th_func i a pc g = Goto pc' g'"
  shows "th_work pc' < th_work pc"
  using assms by (cases pc) (auto simp: i32_check_eq_Some nat_diff_distrib split: option.splits if_splits)

lemma th_defined:
  assumes "int i = 0 \<or> int i = 1" and "th_pc_ok (int i) pc"
    and "th_inside pc \<Longrightarrow> pthread_mutex_unlock i (th_mut g) \<noteq> None"
  shows "th_func i (Some (int i)) pc g \<noteq> Crash"
proof (cases pc)
  case (T_print n k j)
  with assms(1,2) print_thread_known [of n j g] show ?thesis by (auto split: option.splits)
qed (use assms in \<open>auto split: option.splits\<close>)

lemma th_inside_goto:
  assumes i: "int i = 0 \<or> int i = 1" and ok: "th_pc_ok (int i) pc"
    and b: "th_func i (Some (int i)) pc g = Goto pc' g'" and cs: "th_inside pc" and L: "th_L pc g"
  shows "if th_inside pc' then th_L pc' g' else th_R g'"
proof (cases pc)
  case (T_print n k j)
  with L obtain ns where ns: "set ns \<subseteq> {0, 1}" "th_out g = th_blocks ns @ th_block n j" by auto
  show ?thesis
  proof (cases "j < 10")
    case True
    with T_print ok i print_thread_known [of n j g] b
    have pc': "pc' = T_print n k (j + 1)" and out: "th_out g' = th_out g @ [th_line_of n (1000 * j + 1)]"
      by (auto simp: i32_check_eq_Some split: option.splits)
    have "th_out g' = th_blocks ns @ th_block n (j + 1)"
      using T_print ok th_block_simps(2) [of j n] out ns(2) by simp
    with pc' ns(1) show ?thesis by auto
  next
    case False
    with T_print ok i ns b have "set (ns @ [n]) \<subseteq> {0, 1}" "th_out g' = th_blocks (ns @ [n])" "pc' = T_unlock n k"
      by auto
    then have "th_R g'" and "th_L pc' g' \<longleftrightarrow> th_R g'" unfolding th_R_def by (blast, simp add: th_R_def)
    then show ?thesis by simp
  qed
next
  case (T_unlock n k)
  with b L show ?thesis by (auto simp: th_R_def split: option.splits)
qed (use cs in auto)

lemma th_side_done: "th_side ts g \<Longrightarrow> i < 2 \<Longrightarrow> ts ! i = Live T_end \<Longrightarrow> th_side (ts[i := Done]) g"
  unfolding th_side_def by (auto simp: nth_list_update)

lemma th_side_birth: "th_side ts g \<Longrightarrow> i < 2 \<Longrightarrow> ts ! i = Unborn \<Longrightarrow> th_side (ts[i := Live T_start]) g"
  unfolding th_side_def by (auto simp: nth_list_update)

lemma th_outside:
  assumes "th_func i a pc g = Goto pc' g'" and "\<not> th_inside pc"
  shows "th_out g' = th_out g"
  using assms by (cases pc) (auto split: option.splits if_splits)

interpretation th: locked_program pthread_mutex_lock pthread_mutex_unlock "\<lambda>m h. owner m = h" th_program
  th_mut th_inside th_side th_L th_R th_globals0 th_work
proof (unfold_locales, goal_cases)
  case (2 i a pc g pc' g')
  then show ?case by (cases pc) (auto simp: print_thread_def split: option.splits if_splits)
next
  case (3 i a pc g pc' g') then show ?case by (cases pc) (auto split: option.splits if_splits)
next
  case (4 i a pc g pc' g') then show ?case by (cases pc) (auto split: option.splits if_splits)
next
  case (5 i a pc g g') then show ?case by (auto dest: th_return)
next
  case (6 ts g i pc pc' g')
  then have "th_out g' = th_out g" "\<exists>n k. pc' = T_print n k 0"
    by (simp_all add: th_outside) (cases pc; auto split: option.splits if_splits)
  with 6 show ?case by (elim exE) (simp add: th_R_def th_block_simps)
next
  case (7 ts g i pc pc' g')
  then show ?case using th_inside_goto [of i pc g pc' g'] th_side_at [of ts g i pc] by simp
next
  case (8 ts g i pc pc' g')
  then show ?case using th_inside_goto [of i pc g pc' g'] th_side_at [of ts g i pc] by simp
next
  case (9 i pc g pc' g')
  then have "th_out g' = th_out g" by (simp add: th_outside)
  moreover have "th_L q g' = th_L q g" if "th_out g' = th_out g" for q
    using that by (cases q) (auto simp: th_R_def)
  ultimately show ?case by (simp add: th_R_def)
next
  case (10 i pc g g') then show ?case by (auto dest: th_return)
next
  case 13
  have "th_R th_globals0" by (auto simp: th_R_def th_globals0_def intro!: exI [where x = "[]"])
  then show ?case by (simp add: th_side_def th_globals0_def PTHREAD_MUTEX_INITIALIZER_def)
next
  case (18 ts g i pc)
  then show ?case using th_defined [of i pc g] th_side_at [of ts g i pc] by simp
next
  case (19 i a pc g) then show ?case by (cases pc) (auto split: option.splits if_splits)
next
  case (20 ts g i pc pc' g')
  then show ?case using th_works th_side_at(2) [of ts g i pc] by simp
qed (auto simp: th_side_birth th_side_goto th_side_done dest: th_return)

section \<open>Properties\<close>

text \<open>
  C29. In lab 3b the lines of a block stay together: under every schedule the process
  exits with status zero, its output consists of twenty whole blocks, ten of each
  thread, and the branch for an unknown thread is never taken.
\<close>

theorem mutex_keeps_blocks:
  assumes "run (proc_step all_ok th_program) sch (boot th_program th_globals0) = Some s"
    and "\<forall>a. proc_step all_ok th_program a s = None"
  shows "main s = Exited EXIT_SUCCESS \<and> err s = [] \<and> th_unknown (glob s) = [] \<and>
    (\<exists>ns. th_out (glob s) = th_blocks ns \<and> set ns = {0, 1} \<and> count_list ns 0 = 10 \<and> count_list ns 1 = 10)"
proof -
  from th.ended [OF assms] have ex: "main s = Exited EXIT_SUCCESS" "err s = []"
    and R: "th_R (glob s)" and side: "th_side (replicate 2 Done) (glob s)" by auto
  from R obtain ns where ns: "set ns \<subseteq> {0, 1}" "th_out (glob s) = th_blocks ns" by (auto simp: th_R_def)
  have "th_thread_ok (int i) Done (th_out (glob s))" if "i < 2" for i
    using side that unfolding th_side_def by (metis nth_replicate)
  from this [of 0] this [of 1] have "th_count 0 (th_blocks ns) = 100" "th_count 1 (th_blocks ns) = 100"
    using ns(2) by auto
  then have cnt: "count_list ns 0 = 10" "count_list ns 1 = 10"
    using th_count_blocks [OF ns(1), of 0] th_count_blocks [OF ns(1), of 1] by auto
  then have "0 \<in> set ns" "1 \<in> set ns" by (auto intro: ccontr)
  with ns(1) have "set ns = {0, 1}" by auto
  with ex cnt ns(2) side show ?thesis by (auto simp: th_side_def)
qed

definition th_schedule :: "actor list" where
  "th_schedule =
     replicate 4 Main @ replicate 71 (Thr 1) @ replicate 143 (Thr 0) @ replicate 72 (Thr 1) @ replicate 4 Main"

definition th_end :: "(th_pc, th_globals) proc" where
  "th_end = the (run (proc_step all_ok th_program) th_schedule (boot th_program th_globals0))"

theorem mutex_keeps_blocks_witness:
  "run (proc_step all_ok th_program) th_schedule (boot th_program th_globals0) = Some th_end \<and>
   th_unknown (glob th_end) = [] \<and> (\<exists>ns. th_out (glob th_end) = th_blocks ns)"
proof -
  have r: "run (proc_step all_ok th_program) th_schedule (boot th_program th_globals0) = Some th_end"
    by code_simp
  have m: "main th_end = Exited 0" by code_simp
  then have "\<forall>a. proc_step all_ok th_program a th_end = None"
    by (intro allI, case_tac a) (simp_all add: main_step_def thread_step_def running_def)
  with mutex_keeps_blocks [OF r] r show ?thesis by blast
qed

end
