(* ===== verification/Odd_Even.thy ===== *)
theory Odd_Even
  imports Pthread
begin

text \<open>
  \<^verbatim>\<open>c/c_lab05_a.c\<close>: two threads count to \<open>MAX_N\<close> in turns, one printing the odd and
  one the even numbers, kept in step by two binary semaphores. The shared counter
  is protected by nothing but this hand-over, so the model splits
  \<open>counter++\<close> into its load and its store.
\<close>

section \<open>The program\<close>

datatype oe_line = Odd_number i32 | Even_number i32

record oe_globals =
  sem_even :: rk_sema
  sem_odd :: rk_sema
  counter :: i32
  printed :: "oe_line list"

definition oe_MAX_N :: i32 where
  "oe_MAX_N = 30"

datatype stage = At_wait | At_load | At_store i32 | At_print i32 | At_test | At_post bool

datatype oe_pc = Odd_at stage | Even_at stage

fun print_odd :: "stage \<Rightarrow> oe_globals \<Rightarrow> (oe_pc, oe_globals) outcome" where
  "print_odd At_wait g =
     (case sema_down (sem_odd g) of None \<Rightarrow> Blocked | Some m \<Rightarrow> Goto (Odd_at At_load) (g\<lparr>sem_odd := m\<rparr>))"
| "print_odd At_load g = Goto (Odd_at (At_store (counter g))) g"
| "print_odd (At_store v) g =
     (case i32_check (v + 1) of None \<Rightarrow> Crash | Some c \<Rightarrow> Goto (Odd_at (At_print v)) (g\<lparr>counter := c\<rparr>))"
| "print_odd (At_print v) g = Goto (Odd_at At_test) (g\<lparr>printed := printed g @ [Odd_number v]\<rparr>)"
| "print_odd At_test g = Goto (Odd_at (At_post (oe_MAX_N \<le> counter g))) g"
| "print_odd (At_post fin) g =
     (let g' = g\<lparr>sem_even := rk_sema_post (sem_even g)\<rparr> in
      if fin then Return g' else Goto (Odd_at At_wait) g')"

fun print_even :: "stage \<Rightarrow> oe_globals \<Rightarrow> (oe_pc, oe_globals) outcome" where
  "print_even At_wait g =
     (case sema_down (sem_even g) of None \<Rightarrow> Blocked | Some m \<Rightarrow> Goto (Even_at At_load) (g\<lparr>sem_even := m\<rparr>))"
| "print_even At_load g = Goto (Even_at (At_store (counter g))) g"
| "print_even (At_store v) g =
     (case i32_check (v + 1) of None \<Rightarrow> Crash | Some c \<Rightarrow> Goto (Even_at (At_print v)) (g\<lparr>counter := c\<rparr>))"
| "print_even (At_print v) g = Goto (Even_at At_test) (g\<lparr>printed := printed g @ [Even_number v]\<rparr>)"
| "print_even At_test g = Goto (Even_at (At_post (oe_MAX_N \<le> counter g))) g"
| "print_even (At_post fin) g =
     (let g' = g\<lparr>sem_odd := rk_sema_post (sem_odd g)\<rparr> in
      if fin then Return g' else Goto (Even_at At_wait) g')"

fun oe_body :: "nat \<Rightarrow> i32 option \<Rightarrow> oe_pc \<Rightarrow> oe_globals \<Rightarrow> (oe_pc, oe_globals) outcome" where
  "oe_body i a (Odd_at st) g = print_odd st g"
| "oe_body i a (Even_at st) g = print_even st g"

definition oe_init_semaphores :: "oe_globals \<Rightarrow> string + oe_globals" where
  "oe_init_semaphores g =
     (case rk_sema_init (sem_odd g) 0 1 of (r, s_odd) \<Rightarrow>
        if r \<noteq> 0 then Inl ''Error init semaphore for odd lock''
        else (case rk_sema_init (sem_even g) 0 0 of (r', s_even) \<Rightarrow>
          if r' \<noteq> 0 then Inl ''Error init semaphore for even lock''
          else Inr (g\<lparr>sem_odd := s_odd, sem_even := s_even\<rparr>)))"

definition oe_close_semaphores :: "oe_globals \<Rightarrow> string + oe_globals" where
  "oe_close_semaphores g =
     (case rk_sema_destroy (sem_odd g) of (r, s_odd) \<Rightarrow>
        if r \<noteq> 0 then Inl ''Error destroying Semaphore odd lock''
        else (case rk_sema_destroy (sem_even g) of (r', s_even) \<Rightarrow>
          if r' \<noteq> 0 then Inl ''Error destroying Semaphore even lock''
          else Inr (g\<lparr>sem_odd := s_odd, sem_even := s_even\<rparr>)))"

definition oe_program :: "(oe_pc, oe_globals) program" where
  "oe_program =
     \<lparr>no_th = 2,
      entry = (\<lambda>i. if i = 0 then Odd_at At_wait else Even_at At_wait),
      slot = (\<lambda>i. i),
      body = oe_body,
      bad_rc = (\<lambda>r. r \<noteq> 0),
      init = oe_init_semaphores,
      fini = oe_close_semaphores,
      create_msg = (\<lambda>i. if i = 0 then ''Error creating thread for print_odd''
                        else ''Error creating thread for print_even''),
      join_msg = ''Unable to join threads'',
      before = (\<lambda>i g. g)\<rparr>"

definition oe_globals0 :: oe_globals where
  "oe_globals0 = \<lparr>sem_even = raw_sema, sem_odd = raw_sema, counter = 1, printed = []\<rparr>"

section \<open>The hand-over invariant\<close>

text \<open>The lines for the numbers one to \<open>n\<close>, each from the thread of its parity.\<close>

definition lines_upto :: "i32 \<Rightarrow> oe_line list" where
  "lines_upto n = map (\<lambda>k. if odd k then Odd_number k else Even_number k) [1..n]"

text \<open>
  There is one token: a unit of \<open>sem_odd\<close>, the odd thread between its wait and its
  post, a unit of \<open>sem_even\<close>, or the even thread between its wait and its post. The
  thread without the token rests at its wait, or has finished once the counter
  reached its last value.
\<close>

definition rests :: "(stage \<Rightarrow> oe_pc) \<Rightarrow> i32 \<Rightarrow> oe_pc thread \<Rightarrow> i32 \<Rightarrow> bool" where
  "rests at lim t c \<longleftrightarrow> (if c < lim then t = Unborn \<or> t = Live (at At_wait) else t = Done)"

fun turn :: "bool \<Rightarrow> i32 \<Rightarrow> stage \<Rightarrow> i32 \<Rightarrow> oe_line list \<Rightarrow> bool" where
  "turn p lim At_wait c out \<longleftrightarrow> False"
| "turn p lim At_load c out \<longleftrightarrow> odd c = p \<and> 1 \<le> c \<and> c < lim \<and> out = lines_upto (c - 1)"
| "turn p lim (At_store v) c out \<longleftrightarrow> v = c \<and> odd c = p \<and> 1 \<le> c \<and> c < lim \<and> out = lines_upto (c - 1)"
| "turn p lim (At_print v) c out \<longleftrightarrow> c = v + 1 \<and> odd v = p \<and> 1 \<le> v \<and> v < lim \<and> out = lines_upto (v - 1)"
| "turn p lim At_test c out \<longleftrightarrow> odd c = (\<not> p) \<and> 2 \<le> c \<and> c \<le> lim \<and> out = lines_upto (c - 1)"
| "turn p lim (At_post e) c out \<longleftrightarrow>
     odd c = (\<not> p) \<and> 2 \<le> c \<and> c \<le> lim \<and> out = lines_upto (c - 1) \<and> e = (oe_MAX_N \<le> c)"

definition odd_token :: "oe_pc thread \<Rightarrow> oe_pc thread \<Rightarrow> oe_globals \<Rightarrow> bool" where
  "odd_token t u g \<longleftrightarrow>
     sem_odd g = live_sema 1 \<and> sem_even g = live_sema 0 \<and> odd (counter g) \<and>
     1 \<le> counter g \<and> counter g \<le> 31 \<and> printed g = lines_upto (counter g - 1) \<and>
     rests Odd_at 30 t (counter g) \<and> rests Even_at 31 u (counter g)"

definition even_token :: "oe_pc thread \<Rightarrow> oe_pc thread \<Rightarrow> oe_globals \<Rightarrow> bool" where
  "even_token t u g \<longleftrightarrow>
     sem_odd g = live_sema 0 \<and> sem_even g = live_sema 1 \<and> even (counter g) \<and>
     2 \<le> counter g \<and> counter g \<le> 30 \<and> printed g = lines_upto (counter g - 1) \<and>
     rests Odd_at 30 t (counter g) \<and> rests Even_at 31 u (counter g)"

definition odd_turn :: "oe_pc thread \<Rightarrow> oe_pc thread \<Rightarrow> oe_globals \<Rightarrow> bool" where
  "odd_turn t u g \<longleftrightarrow>
     sem_odd g = live_sema 0 \<and> sem_even g = live_sema 0 \<and>
     (\<exists>st. t = Live (Odd_at st) \<and> turn True 30 st (counter g) (printed g)) \<and>
     rests Even_at 31 u (counter g)"

definition even_turn :: "oe_pc thread \<Rightarrow> oe_pc thread \<Rightarrow> oe_globals \<Rightarrow> bool" where
  "even_turn t u g \<longleftrightarrow>
     sem_odd g = live_sema 0 \<and> sem_even g = live_sema 0 \<and>
     (\<exists>st. u = Live (Even_at st) \<and> turn False 31 st (counter g) (printed g)) \<and>
     rests Odd_at 30 t (counter g)"

definition handover :: "oe_pc thread \<Rightarrow> oe_pc thread \<Rightarrow> oe_globals \<Rightarrow> bool" where
  "handover t u g \<longleftrightarrow> odd_token t u g \<or> even_token t u g \<or> odd_turn t u g \<or> even_turn t u g"

definition oe_inv :: "oe_pc thread list \<Rightarrow> oe_globals \<Rightarrow> bool" where
  "oe_inv ts g \<longleftrightarrow> handover (ts ! 0) (ts ! 1) g"

fun stage_work :: "stage \<Rightarrow> nat" where
  "stage_work At_wait = 5"
| "stage_work At_load = 4"
| "stage_work (At_store v) = 3"
| "stage_work (At_print v) = 12"
| "stage_work At_test = 11"
| "stage_work (At_post e) = 10"

fun oe_thread_work :: "oe_pc thread \<Rightarrow> nat" where
  "oe_thread_work (Live (Odd_at st)) = stage_work st"
| "oe_thread_work (Live (Even_at st)) = stage_work st"
| "oe_thread_work Unborn = 5"
| "oe_thread_work Done = 0"

definition oe_work :: "oe_pc thread list \<Rightarrow> oe_globals \<Rightarrow> nat" where
  "oe_work ts g = 20 * nat (32 - counter g) + oe_thread_work (ts ! 0) + oe_thread_work (ts ! 1)"

lemma lines_upto_snoc:
  "1 \<le> v \<Longrightarrow> lines_upto (v - 1) @ [if odd v then Odd_number v else Even_number v] = lines_upto v"
  using upto_rec2 [of 1 v] by (simp add: lines_upto_def)

lemma lines_upto_snoc_odd [simp]: "1 \<le> v \<Longrightarrow> odd v \<Longrightarrow> lines_upto (v - 1) @ [Odd_number v] = lines_upto v"
  using lines_upto_snoc [of v] by simp

lemma lines_upto_snoc_even [simp]: "1 \<le> v \<Longrightarrow> even v \<Longrightarrow> lines_upto (v - 1) @ [Even_number v] = lines_upto v"
  using lines_upto_snoc [of v] by simp

lemma less_two: "i < (2::nat) \<longleftrightarrow> i = 0 \<or> i = 1"
  by auto

lemma rk_post_0 [simp]: "rk_sema_post (live_sema 0) = live_sema 1"
  by (simp add: sem_simps SEM_VALUE_MAX_def)

lemmas handover_parts = odd_token_def even_token_def odd_turn_def even_turn_def

text \<open>
  Inversion: which part of the invariant a thread's program point selects.
\<close>

lemma odd_inside:
  "handover (Live (Odd_at st)) u g \<Longrightarrow> st \<noteq> At_wait \<Longrightarrow> odd_turn (Live (Odd_at st)) u g"
  by (auto simp: handover_def handover_parts rests_def split: if_splits)

lemma even_inside:
  "handover t (Live (Even_at st)) g \<Longrightarrow> st \<noteq> At_wait \<Longrightarrow> even_turn t (Live (Even_at st)) g"
  by (auto simp: handover_def handover_parts rests_def split: if_splits)

lemma odd_at_wait:
  "handover (Live (Odd_at At_wait)) u g \<Longrightarrow>
   odd_token (Live (Odd_at At_wait)) u g \<or> sem_odd g = live_sema 0"
  by (auto simp: handover_def handover_parts)

lemma even_at_wait:
  "handover t (Live (Even_at At_wait)) g \<Longrightarrow>
   even_token t (Live (Even_at At_wait)) g \<or> sem_even g = live_sema 0"
  by (auto simp: handover_def handover_parts)

text \<open>One action of the odd thread, and one of the even thread.\<close>

lemma odd_turn_goto:
  assumes "odd_turn (Live (Odd_at st)) u g" and "print_odd st g = Goto pc' g'"
  shows "handover (Live pc') u g' \<and>
    20 * nat (32 - counter g') + oe_thread_work (Live pc') < 20 * nat (32 - counter g) + stage_work st"
proof (cases st)
  case (At_print v)
  with assms show ?thesis by (auto simp: handover_def odd_turn_def)
next
  case (At_store v)
  with assms show ?thesis
    by (auto simp: handover_def odd_turn_def rests_def oe_MAX_N_def split: option.splits)
next
  case (At_post e)
  with assms have "even_token (Live pc') u g'" and "counter g' = counter g" and "pc' = Odd_at At_wait"
    by (auto simp: odd_turn_def even_token_def rests_def oe_MAX_N_def Let_def split: if_splits)
  with At_post show ?thesis by (simp add: handover_def)
qed (use assms in \<open>auto simp: handover_def odd_turn_def\<close>)

lemma even_turn_goto:
  assumes "even_turn t (Live (Even_at st)) g" and "print_even st g = Goto pc' g'"
  shows "handover t (Live pc') g' \<and>
    20 * nat (32 - counter g') + oe_thread_work (Live pc') < 20 * nat (32 - counter g) + stage_work st"
proof (cases st)
  case (At_print v)
  with assms show ?thesis by (auto simp: handover_def even_turn_def)
next
  case (At_store v)
  with assms show ?thesis
    by (auto simp: handover_def even_turn_def rests_def oe_MAX_N_def split: option.splits)
next
  case (At_post e)
  with assms have "odd_token t (Live pc') g'" and "counter g' = counter g" and "pc' = Even_at At_wait"
    by (auto simp: even_turn_def odd_token_def rests_def oe_MAX_N_def Let_def split: if_splits)
  with At_post show ?thesis by (simp add: handover_def)
qed (use assms in \<open>auto simp: handover_def even_turn_def\<close>)

lemma odd_wait_goto:
  assumes "handover (Live (Odd_at At_wait)) u g" and "print_odd At_wait g = Goto pc' g'"
  shows "handover (Live pc') u g' \<and> counter g' = counter g \<and> pc' = Odd_at At_load"
  using odd_at_wait [OF assms(1)] assms(2)
  by (auto simp: handover_def odd_token_def odd_turn_def rests_def split: if_splits)

lemma even_wait_goto:
  assumes "handover t (Live (Even_at At_wait)) g" and "print_even At_wait g = Goto pc' g'"
  shows "handover t (Live pc') g' \<and> counter g' = counter g \<and> pc' = Even_at At_load"
  using even_at_wait [OF assms(1)] assms(2)
  by (auto simp: handover_def even_token_def even_turn_def rests_def split: if_splits)

lemma odd_return:
  assumes "handover (Live (Odd_at st)) u g" and "print_odd st g = Return g'"
  shows "handover Done u g' \<and> counter g' = counter g \<and> 0 < stage_work st"
proof -
  from assms(2) obtain e where st: "st = At_post e" and e: "e"
    by (cases st) (auto simp: Let_def split: option.splits if_splits)
  with assms odd_inside [of st u g] have "even_token Done u g' \<and> counter g' = counter g"
    by (auto simp: odd_turn_def even_token_def rests_def oe_MAX_N_def Let_def split: if_splits)
  with st show ?thesis by (simp add: handover_def)
qed

lemma even_return:
  assumes "handover t (Live (Even_at st)) g" and "print_even st g = Return g'"
  shows "handover t Done g' \<and> counter g' = counter g \<and> 0 < stage_work st"
proof -
  from assms(2) obtain e where st: "st = At_post e" and e: "e"
    by (cases st) (auto simp: Let_def split: option.splits if_splits)
  with assms even_inside [of t st g] have turn: "even_turn t (Live (Even_at (At_post True))) g" by simp
  then have "odd (counter g)" "30 \<le> counter g" "counter g \<le> 31"
    by (auto simp: even_turn_def oe_MAX_N_def)
  then have "counter g = 31" by presburger
  with turn assms(2) st e have "odd_token t Done g' \<and> counter g' = counter g"
    by (auto simp: even_turn_def odd_token_def rests_def Let_def)
  with st show ?thesis by (simp add: handover_def)
qed

lemma no_odd_crash: "handover (Live (Odd_at st)) u g \<Longrightarrow> print_odd st g \<noteq> Crash"
  using odd_inside [of st u g]
  by (cases st) (auto simp: odd_turn_def Let_def split: option.splits)

lemma no_even_crash: "handover t (Live (Even_at st)) g \<Longrightarrow> print_even st g \<noteq> Crash"
  using even_inside [of t st g]
  by (cases st) (auto simp: even_turn_def Let_def split: option.splits)

lemma which_thread:
  assumes "oe_inv ts g" and "i < 2" and "ts ! i = Live pc"
  shows "(\<exists>st. i = 0 \<and> pc = Odd_at st) \<or> (\<exists>st. i = 1 \<and> pc = Even_at st)"
  using assms
  by (auto simp: less_two oe_inv_def handover_def handover_parts rests_def split: if_splits)

lemma oe_goto:
  assumes inv: "oe_inv ts g" and len: "length ts = 2" and i: "i < 2" and pc: "ts ! i = Live pc"
    and b: "oe_body i a pc g = Goto pc' g'"
  shows "oe_inv (ts[i := Live pc']) g' \<and> oe_work (ts[i := Live pc']) g' < oe_work ts g"
  using which_thread [OF inv i pc]
proof (elim disjE exE conjE)
  fix st assume "i = 0" "pc = Odd_at st"
  then show ?thesis
    using inv len pc b odd_wait_goto [of "ts ! 1" g] odd_inside [of st "ts ! 1" g]
      odd_turn_goto [of st "ts ! 1" g]
    by (cases "st = At_wait") (auto simp: oe_inv_def oe_work_def)
next
  fix st assume "i = 1" "pc = Even_at st"
  then show ?thesis
    using inv len pc b even_wait_goto [of "ts ! 0" g] even_inside [of "ts ! 0" st g]
      even_turn_goto [of "ts ! 0" st g]
    by (cases "st = At_wait") (auto simp: oe_inv_def oe_work_def)
qed

lemma oe_return:
  assumes inv: "oe_inv ts g" and len: "length ts = 2" and i: "i < 2" and pc: "ts ! i = Live pc"
    and b: "oe_body i a pc g = Return g'"
  shows "oe_inv (ts[i := Done]) g' \<and> oe_work (ts[i := Done]) g' < oe_work ts g"
  using which_thread [OF inv i pc]
proof (elim disjE exE conjE)
  fix st assume "i = 0" "pc = Odd_at st"
  then show ?thesis
    using inv len pc b odd_return [of st "ts ! 1" g] by (auto simp: oe_inv_def oe_work_def)
next
  fix st assume "i = 1" "pc = Even_at st"
  then show ?thesis
    using inv len pc b even_return [of "ts ! 0" st g] by (auto simp: oe_inv_def oe_work_def)
qed

lemma oe_defined:
  assumes inv: "oe_inv ts g" and i: "i < 2" and pc: "ts ! i = Live pc"
  shows "oe_body i a pc g \<noteq> Crash"
  using which_thread [OF inv i pc] inv pc no_odd_crash no_even_crash by (auto simp: oe_inv_def)

text \<open>Whoever has the token can move.\<close>

lemma oe_progress:
  assumes "oe_inv ts g" and "\<And>i. i < 2 \<Longrightarrow> ts ! i \<noteq> Unborn" and "k < 2" and "ts ! k \<noteq> Done"
  shows "\<exists>i pc. i < 2 \<and> ts ! i = Live pc \<and> oe_body i (Some (int i)) pc g \<noteq> Blocked"
proof -
  have born: "ts ! 0 \<noteq> Unborn" "ts ! 1 \<noteq> Unborn" using assms(2) [of 0] assms(2) [of 1] by auto
  have moves: "turn p lim st c out \<Longrightarrow> print_odd st g \<noteq> Blocked \<and> print_even st g \<noteq> Blocked"
    for p lim st c out
    by (cases st) (auto simp: Let_def split: option.splits)
  from assms(1) consider "odd_token (ts ! 0) (ts ! 1) g" | "even_token (ts ! 0) (ts ! 1) g"
    | "odd_turn (ts ! 0) (ts ! 1) g" | "even_turn (ts ! 0) (ts ! 1) g"
    by (auto simp: oe_inv_def handover_def)
  then show ?thesis
  proof cases
    case 1
    then have "ts ! 0 \<noteq> Done"
      using assms(3,4) by (auto simp: odd_token_def rests_def less_two split: if_splits; presburger)
    with 1 born show ?thesis
      by (intro exI [where x = 0]) (auto simp: odd_token_def rests_def split: if_splits)
  next
    case 2
    with born show ?thesis
      by (intro exI [where x = 1]) (auto simp: even_token_def rests_def split: if_splits)
  next
    case 3
    then show ?thesis
      by (intro exI [where x = 0]) (auto simp: odd_turn_def dest: moves)
  next
    case 4
    then show ?thesis
      by (intro exI [where x = 1]) (auto simp: even_turn_def dest: moves)
  qed
qed

lemma oe_birth:
  "handover Unborn u g \<Longrightarrow> handover (Live (Odd_at At_wait)) u g"
  "handover t Unborn g \<Longrightarrow> handover t (Live (Even_at At_wait)) g"
  by (auto simp: handover_def handover_parts rests_def split: if_splits)

lemma oe_program_simps [simp]:
  "no_th oe_program = 2" "slot oe_program i = i" "body oe_program = oe_body"
  "bad_rc oe_program r \<longleftrightarrow> r \<noteq> 0" "init oe_program = oe_init_semaphores"
  "fini oe_program = oe_close_semaphores"
  "entry oe_program i = (if i = 0 then Odd_at At_wait else Even_at At_wait)" "before oe_program = (\<lambda>i g. g)"
  by (simp_all add: oe_program_def)

lemma oe_init_ok:
  "oe_init_semaphores oe_globals0 = Inr (oe_globals0\<lparr>sem_odd := live_sema 1, sem_even := live_sema 0\<rparr>)"
  by (simp add: oe_init_semaphores_def sem_simps SEM_VALUE_MAX_def)

lemma oe_all_done:
  "oe_inv [Done, Done] g \<Longrightarrow> sem_odd g = live_sema 1 \<and> sem_even g = live_sema 0 \<and>
   counter g = 31 \<and> printed g = lines_upto 30"
  by (auto simp: oe_inv_def handover_def handover_parts rests_def split: if_splits)

lemma oe_close_ok:
  assumes "oe_inv [Done, Done] g"
  shows "\<exists>h. oe_close_semaphores g = Inr h"
    and "oe_close_semaphores g = Inr h \<Longrightarrow> counter h = 31 \<and> printed h = lines_upto 30"
  using oe_all_done [OF assms] by (auto simp: oe_close_semaphores_def sem_simps)

interpretation oe: terminating_program rc oe_program oe_globals0 oe_inv 630 oe_work for rc
proof unfold_locales
  have "oe_inv [Unborn, Unborn] (oe_globals0\<lparr>sem_odd := live_sema 1, sem_even := live_sema 0\<rparr>)"
    by (simp add: oe_globals0_def oe_inv_def handover_def odd_token_def rests_def lines_upto_def)
  then show "\<exists>g. init oe_program oe_globals0 = Inr g \<and> oe_inv (replicate (no_th oe_program) Unborn) g"
    by (intro exI conjI) (simp_all add: oe_init_ok numeral_2_eq_2)
next
  fix ts g i
  assume "oe_inv ts g" "length ts = no_th oe_program" "i < no_th oe_program" "ts ! i = Unborn"
  then have "oe_inv (ts[i := Live (entry oe_program i)]) g \<and>
      oe_work (ts[i := Live (entry oe_program i)]) g \<le> oe_work ts g"
    by (auto simp: less_two oe_inv_def oe_work_def intro: oe_birth)
  then show "oe_inv (ts[i := Live (entry oe_program i)]) (before oe_program i g)"
    and "oe_work (ts[i := Live (entry oe_program i)]) (before oe_program i g) \<le> oe_work ts g" by simp_all
next
  fix g
  assume "init oe_program oe_globals0 = Inr g"
  then show "oe_work (replicate (no_th oe_program) Unborn) g \<le> 630"
    by (auto simp: oe_init_ok oe_work_def numeral_2_eq_2) (simp add: oe_globals0_def)
next
  fix g
  assume "oe_inv (replicate (no_th oe_program) Done) g"
  then show "\<exists>h. fini oe_program g = Inr h"
    using oe_close_ok(1) [of g] by (simp add: numeral_2_eq_2)
next
  fix ts g k
  assume a: "oe_inv ts g" "\<And>i. i < no_th oe_program \<Longrightarrow> ts ! i \<noteq> Unborn"
    "k < no_th oe_program" "ts ! k \<noteq> Done"
  show "\<exists>i pc. i < no_th oe_program \<and> ts ! i = Live pc \<and>
      body oe_program i (Some (int (slot oe_program i))) pc g \<noteq> Blocked"
    unfolding oe_program_simps by (rule oe_progress [OF a [unfolded oe_program_simps]])
qed (simp_all add: oe_goto oe_return oe_defined)

section \<open>Properties\<close>

text \<open>
  C21. Whatever the scheduler does, the two threads of lab 5a print the numbers
  1 to 30 in order, the odd ones from \<open>print_odd\<close> and the even ones from
  \<open>print_even\<close>, and the process exits with status zero: when all library calls succeed,
  no run at all is longer than 638 steps, and a run that cannot be extended is in that state.
\<close>

theorem odd_even_counts_to_30:
  assumes "run (proc_step all_ok oe_program) sch (boot oe_program oe_globals0) = Some s"
  shows "length sch \<le> 638 \<and>
    ((\<forall>a. proc_step all_ok oe_program a s = None) \<longrightarrow>
      main s = Exited EXIT_SUCCESS \<and> err s = [] \<and> printed (glob s) = lines_upto 30 \<and> counter (glob s) = 31)"
proof (intro conjI impI)
  show "length sch \<le> 638" using oe.sys.run_bounded [OF assms(1)] by (simp add: proc_work_def boot_def)
  assume "\<forall>a. proc_step all_ok oe_program a s = None"
  with oe.maximal_run_ok [OF assms(1)] obtain h where "main s = Exited EXIT_SUCCESS" "err s = []" "oe_inv [Done, Done] h"
      "oe_close_semaphores h = Inr (glob s)"
    by (auto simp: all_ok_def numeral_2_eq_2)
  with oe_close_ok(2) [of h] show "main s = Exited EXIT_SUCCESS" "err s = []"
    "printed (glob s) = lines_upto 30" "counter (glob s) = 31" by auto
qed

text \<open>A complete run: both threads are created, then they take turns to the end.\<close>

definition oe_schedule :: "actor list" where
  "oe_schedule =
     replicate 4 Main @ concat (replicate 15 (replicate 6 (Thr 0) @ replicate 6 (Thr 1))) @ replicate 4 Main"

definition oe_end :: "(oe_pc, oe_globals) proc" where
  "oe_end = the (run (proc_step all_ok oe_program) oe_schedule (boot oe_program oe_globals0))"

theorem odd_even_counts_to_30_witness:
  "run (proc_step all_ok oe_program) oe_schedule (boot oe_program oe_globals0) = Some oe_end \<and>
   printed (glob oe_end) = lines_upto 30"
proof -
  have r: "run (proc_step all_ok oe_program) oe_schedule (boot oe_program oe_globals0) = Some oe_end"
    by (code_simp)
  have m: "main oe_end = Exited 0" by code_simp
  then have "\<forall>a. proc_step all_ok oe_program a oe_end = None"
    by (intro allI, case_tac a) (simp_all add: main_step_def thread_step_def running_def)
  with odd_even_counts_to_30 [OF r] r show ?thesis by simp
qed

end
