(* ===== verification/Warehouse_Ring.thy ===== *)
theory Warehouse_Ring
  imports Posix_Semaphore "HOL-Library.Multiset"
begin

text \<open>
  The circular buffer of \<^verbatim>\<open>c/c_lab05_b.c\<close>: its state, \<open>add_to_buffer\<close>,
  \<open>remove_from_buffer\<close> and \<open>print_buffer\<close>, the contract of a bounded first-in
  first-out queue as a locale, and the proof that the ring meets it. A slot holds
  0 when it is empty, -1 when it has just been emptied and not yet been shown, and
  the item (1 to 9) otherwise.
\<close>

section \<open>State and operations\<close>

datatype wh_event =
    Text string
  | Picture string
  | Added i32 string
  | Took i32 string
  | Sent i32 string

record wh_globals =
  buffer :: "i32 list"
  n_producers :: nat
  n_consumers :: nat
  producer_idx_buff :: i32
  consumer_idx_buff :: i32
  sem_full :: rk_sema
  sem_empty :: rk_sema
  sem_lock :: rk_sema
  rand_calls :: nat
  stdout :: "wh_event list"
  stderr :: "wh_event list"

definition BUFFER_LEN :: int where
  "BUFFER_LEN = 10"

text \<open>
  The two indices are never negative, so C's remainder is \<open>mod\<close>; an access outside
  the array is undefined (\<open>None\<close>).
\<close>

definition add_to_buffer :: "i32 \<Rightarrow> wh_globals \<Rightarrow> wh_globals option" where
  "add_to_buffer item g =
     (if 0 \<le> producer_idx_buff g \<and> producer_idx_buff g < int (length (buffer g)) then
        Some (g\<lparr>buffer := (buffer g)[nat (producer_idx_buff g) := item],
                producer_idx_buff := (producer_idx_buff g + 1) mod BUFFER_LEN\<rparr>)
      else None)"

definition remove_from_buffer :: "wh_globals \<Rightarrow> (i32 \<times> wh_globals) option" where
  "remove_from_buffer g =
     (if 0 \<le> consumer_idx_buff g \<and> consumer_idx_buff g < int (length (buffer g)) then
        Some (buffer g ! nat (consumer_idx_buff g),
              g\<lparr>buffer := (buffer g)[nat (consumer_idx_buff g) := -1],
                consumer_idx_buff := (consumer_idx_buff g + 1) mod BUFFER_LEN\<rparr>)
      else None)"

primrec show_slots :: "i32 list \<Rightarrow> string \<times> i32 list" where
  "show_slots [] = ([], [])"
| "show_slots (v # vs) =
     (case show_slots vs of (pic, ws) \<Rightarrow>
        if v = 0 then (CHR ''0'' # pic, v # ws)
        else if v = -1 then (CHR ''+'' # pic, 0 # ws)
        else (CHR ''*'' # pic, v # ws))"

definition print_buffer :: "wh_globals \<Rightarrow> wh_globals" where
  "print_buffer g =
     (case show_slots (buffer g) of (pic, bs) \<Rightarrow>
        g\<lparr>buffer := bs, stdout := stdout g @ [Picture (''['' @ pic @ '']'')]\<rparr>)"

definition print_item :: "i32 \<Rightarrow> string" where
  "print_item item =
     (if item = 1 then ''hat'' else if item = 2 then ''phone'' else if item = 3 then ''dress''
      else if item = 4 then ''pants'' else if item = 5 then ''shoes'' else if item = 6 then ''burrito''
      else if item = 7 then ''sushi'' else if item = 8 then ''sandals'' else if item = 9 then ''pc''
      else ''other'')"

section \<open>The contract of a bounded queue\<close>

text \<open>
  The specification is a list with room for \<open>cap\<close> items. A client performs a sequence of
  operations; \<open>queue_run\<close> performs it on any implementation and collects what the \<open>Get\<close>s return.
\<close>

datatype 'a queue_op = Put 'a | Get

fun queue_run :: "('a \<Rightarrow> 'q \<Rightarrow> 'q option) \<Rightarrow> ('q \<Rightarrow> ('a \<times> 'q) option) \<Rightarrow> 'a queue_op list \<Rightarrow> 'q \<Rightarrow> ('a list \<times> 'q) option" where
  "queue_run put get [] q = Some ([], q)"
| "queue_run put get (Put x # ops) q = Option.bind (put x q) (queue_run put get ops)"
| "queue_run put get (Get # ops) q =
     Option.bind (get q) (\<lambda>(x, q'). map_option (\<lambda>(xs, r). (x # xs, r)) (queue_run put get ops q'))"

definition list_put :: "nat \<Rightarrow> ('a \<Rightarrow> bool) \<Rightarrow> 'a \<Rightarrow> 'a list \<Rightarrow> 'a list option" where
  "list_put cap item x q = (if item x \<and> length q < cap then Some (q @ [x]) else None)"

fun list_get :: "'a list \<Rightarrow> ('a \<times> 'a list) option" where
  "list_get [] = None"
| "list_get (x # q) = Some (x, q)"

locale bounded_queue =
  fixes put :: "'a \<Rightarrow> 'q \<Rightarrow> 'q option"
    and get :: "'q \<Rightarrow> ('a \<times> 'q) option"
    and contents :: "'q \<Rightarrow> 'a list"
    and ok :: "'q \<Rightarrow> bool"
    and item :: "'a \<Rightarrow> bool"
    and cap :: nat
  assumes within_cap: "ok q \<Longrightarrow> length (contents q) \<le> cap"
    and put_spec: "ok q \<Longrightarrow> item x \<Longrightarrow> length (contents q) < cap \<Longrightarrow>
      \<exists>q'. put x q = Some q' \<and> ok q' \<and> contents q' = contents q @ [x]"
    and get_spec: "ok q \<Longrightarrow> contents q = x # xs \<Longrightarrow>
      \<exists>q'. get q = Some (x, q') \<and> ok q' \<and> contents q' = xs"
begin

primrec put_all :: "'a list \<Rightarrow> 'q \<Rightarrow> 'q option" where
  "put_all [] q = Some q"
| "put_all (x # xs) q = (case put x q of None \<Rightarrow> None | Some q' \<Rightarrow> put_all xs q')"

primrec get_n :: "nat \<Rightarrow> 'q \<Rightarrow> ('a list \<times> 'q) option" where
  "get_n 0 q = Some ([], q)"
| "get_n (Suc n) q =
     (case get q of
        None \<Rightarrow> None
      | Some (x, q') \<Rightarrow> (case get_n n q' of None \<Rightarrow> None | Some (xs, q'') \<Rightarrow> Some (x # xs, q'')))"

lemma putD:
  assumes "ok q" "item x" "length (contents q) < cap" "put x q = Some q'"
  shows "ok q' \<and> contents q' = contents q @ [x]"
  using put_spec [OF assms(1-3)] assms(4) by auto

lemma getD:
  assumes "ok q" "contents q \<noteq> []" "get q = Some (x, q')"
  shows "ok q' \<and> contents q = x # contents q'"
proof (cases "contents q")
  case (Cons y ys)
  with get_spec [OF assms(1) this] assms(3) show ?thesis by auto
qed (use assms(2) in simp)

lemma put_all_spec:
  "ok q \<Longrightarrow> (\<And>x. x \<in> set xs \<Longrightarrow> item x) \<Longrightarrow> length (contents q) + length xs \<le> cap \<Longrightarrow>
   \<exists>q'. put_all xs q = Some q' \<and> ok q' \<and> contents q' = contents q @ xs"
proof (induction xs arbitrary: q)
  case (Cons x xs)
  with put_spec [of q x] obtain q' where q': "put x q = Some q'" "ok q'" "contents q' = contents q @ [x]"
    by auto
  with Cons.prems have "length (contents q') + length xs \<le> cap" by simp
  with Cons.IH [OF q'(2)] Cons.prems(2) q' show ?case by auto
qed simp

lemma get_n_spec:
  "ok q \<Longrightarrow> contents q = xs @ ys \<Longrightarrow> \<exists>q'. get_n (length xs) q = Some (xs, q') \<and> ok q' \<and> contents q' = ys"
proof (induction xs arbitrary: q)
  case (Cons x xs)
  with get_spec [of q x "xs @ ys"] obtain q' where "get q = Some (x, q')" "ok q'" "contents q' = xs @ ys"
    by auto
  with Cons.IH [of q'] show ?case by auto
qed simp

text \<open>Every sequence of operations that the specification allows gives the same results.\<close>

lemma refines_list:
  "ok q \<Longrightarrow> queue_run (list_put cap item) list_get ops (contents q) = Some (out, xs) \<Longrightarrow>
    \<exists>q'. queue_run put get ops q = Some (out, q') \<and> ok q' \<and> contents q' = xs"
proof (induction ops arbitrary: q out)
  case (Cons a ops)
  show ?case
  proof (cases a)
    case (Put x)
    with Cons.prems(2) have room: "item x" "length (contents q) < cap"
      and rest: "queue_run (list_put cap item) list_get ops (contents q @ [x]) = Some (out, xs)"
      by (auto simp: bind_eq_Some_conv) (auto simp: list_put_def split: if_splits)
    from put_spec [OF Cons.prems(1) room] rest Cons.IH show ?thesis by (auto simp: Put)
  next
    case Get
    with Cons.prems(2) obtain x ys zs where q: "contents q = x # ys" "out = x # zs"
      and rest: "queue_run (list_put cap item) list_get ops ys = Some (zs, xs)"
      by (cases "contents q") auto
    from get_spec [OF Cons.prems(1) q(1)] rest Cons.IH q(2) show ?thesis by (fastforce simp: Get)
  qed
qed auto

text \<open>First in, first out.\<close>

lemma put_get_all:
  assumes "ok q" "contents q = []" "\<And>x. x \<in> set xs \<Longrightarrow> item x" "length xs \<le> cap"
  shows "\<exists>q' q''. put_all xs q = Some q' \<and> get_n (length xs) q' = Some (xs, q'') \<and> contents q'' = []"
proof -
  obtain q' where "put_all xs q = Some q'" "ok q'" "contents q' = xs"
    using put_all_spec [OF assms(1,3)] assms(2,4) by auto
  with get_n_spec [of q' xs "[]"] show ?thesis by auto
qed

end

section \<open>The ring implements it\<close>

text \<open>
  Read from the consumer's index, the array is the queue followed by blank slots,
  and the producer's index is where the queue ends.
\<close>

abbreviation is_item :: "i32 \<Rightarrow> bool" where
  "is_item x \<equiv> 0 < x"

definition ring :: "wh_globals \<Rightarrow> i32 list" where
  "ring g = rotate (nat (consumer_idx_buff g)) (buffer g)"

definition stored :: "wh_globals \<Rightarrow> i32 list" where
  "stored g = takeWhile is_item (ring g)"

definition ring_ok :: "wh_globals \<Rightarrow> bool" where
  "ring_ok g \<longleftrightarrow>
     length (buffer g) = 10 \<and>
     0 \<le> consumer_idx_buff g \<and> consumer_idx_buff g < 10 \<and>
     producer_idx_buff g = (consumer_idx_buff g + int (length (stored g))) mod 10 \<and>
     (\<forall>x \<in> set (drop (length (stored g)) (ring g)). x = 0 \<or> x = -1)"

definition clean :: "wh_globals \<Rightarrow> bool" where
  "clean g \<longleftrightarrow> (\<forall>x \<in> set (buffer g). 0 \<le> x)"

lemma ring_split: "ring g = stored g @ drop (length (stored g)) (ring g)"
  unfolding stored_def by (metis dropWhile_eq_drop takeWhile_dropWhile_id)

lemma mod_less_twice: "a < 2 * n \<Longrightarrow> a mod n = (if a < n then a else a - n)" for a n :: nat
  by (simp add: le_mod_geq)

lemma rotate_update:
  assumes "i < length xs" and "k < length xs"
  shows "rotate k (xs[i := v]) = (rotate k xs)[(i + (length xs - k)) mod length xs := v]"
proof (rule nth_equalityI)
  fix j assume "j < length (rotate k (xs[i := v]))"
  then have j: "j < length xs" by simp
  have "(k + j) mod length xs = i \<longleftrightarrow> (i + (length xs - k)) mod length xs = j"
    using assms j mod_less_twice [of "k + j" "length xs"] mod_less_twice [of "i + (length xs - k)" "length xs"]
    by auto
  moreover have "(k + j) mod length xs < length xs" using j by (intro mod_less_divisor) auto
  ultimately show "rotate k (xs[i := v]) ! j = (rotate k xs)[(i + (length xs - k)) mod length xs := v] ! j"
    using j by (auto simp: nth_rotate nth_list_update)
qed simp

lemma rotate_at_own:
  assumes "k < length xs"
  shows "rotate k (xs[k := v]) = (rotate k xs)[0 := v]"
  using rotate_update [OF assms assms] assms by simp

lemma stored_eqI:
  assumes "ring g = q @ b" and "\<forall>x \<in> set q. is_item x" and "\<forall>x \<in> set b. x = 0 \<or> x = -1"
  shows "stored g = q"
  using assms by (cases b) (auto simp: stored_def takeWhile_append2)

lemma ring_length: "length (ring g) = length (buffer g)"
  by (simp add: ring_def)

lemma stored_items: "x \<in> set (stored g) \<Longrightarrow> is_item x"
  unfolding stored_def by (rule set_takeWhileD [THEN conjunct2])

lemma ring_put:
  assumes ok: "ring_ok g" and x: "is_item x" and room: "length (stored g) < 10"
  shows "\<exists>g'. add_to_buffer x g = Some g' \<and> ring_ok g' \<and> stored g' = stored g @ [x]"
proof -
  define c where "c = nat (consumer_idx_buff g)"
  define n where "n = length (stored g)"
  from ok have len: "length (buffer g) = 10" and c: "consumer_idx_buff g = int c" "c < 10"
    and p: "producer_idx_buff g = int ((c + n) mod 10)"
    and blank: "\<forall>x \<in> set (drop n (ring g)). x = 0 \<or> x = -1"
    by (auto simp: ring_ok_def c_def n_def zmod_int)
  define g' where "g' = g\<lparr>buffer := (buffer g)[(c + n) mod 10 := x], producer_idx_buff := int ((c + n + 1) mod 10)\<rparr>"
  have step: "(int ((c + n) mod 10) + 1) mod 10 = int ((c + n + 1) mod 10)"
    by (simp add: zmod_int mod_simps add_ac)
  have add: "add_to_buffer x g = Some g'"
    using len p step by (simp add: add_to_buffer_def g'_def BUFFER_LEN_def del: of_nat_mod)
  have pos: "((c + n) mod 10 + (10 - c)) mod 10 = n"
    using c(2) room mod_less_twice [of "c + n" 10] mod_less_twice [of "(c + n) mod 10 + (10 - c)" 10]
    by (auto simp: n_def)
  have "ring g' = (ring g)[n := x]"
    using rotate_update [of "(c + n) mod 10" "buffer g" c x] len c pos by (simp add: ring_def g'_def)
  also have "\<dots> = (stored g @ drop n (ring g))[n := x]"
    using ring_split [of g] by (simp add: n_def)
  also have "\<dots> = (stored g @ [x]) @ drop (Suc n) (ring g)"
    using room len ring_length [of g]
    by (simp add: list_update_append n_def Cons_nth_drop_Suc [symmetric])
  finally have ring': "ring g' = (stored g @ [x]) @ drop (Suc n) (ring g)" .
  have blank': "\<forall>x \<in> set (drop (Suc n) (ring g)). x = 0 \<or> x = -1"
    using blank set_drop_subset_set_drop [of n "Suc n" "ring g"] by auto
  have "stored g' = stored g @ [x]"
    using ring' x stored_items blank' by (intro stored_eqI) auto
  moreover have "ring_ok g'"
    using calculation ring' len c blank'
    by (simp add: ring_ok_def n_def zmod_int add.assoc) (simp add: g'_def n_def zmod_int add_ac)
  ultimately show ?thesis using add by blast
qed

lemma ring_get:
  assumes ok: "ring_ok g" and st: "stored g = x # q"
  shows "\<exists>g'. remove_from_buffer g = Some (x, g') \<and> ring_ok g' \<and> stored g' = q"
proof -
  define c where "c = nat (consumer_idx_buff g)"
  define b where "b = drop (length (stored g)) (ring g)"
  from ok have len: "length (buffer g) = 10" and c: "consumer_idx_buff g = int c" "c < 10"
    and p: "producer_idx_buff g = (int c + int (length (stored g))) mod 10"
    and blank: "\<forall>x \<in> set b. x = 0 \<or> x = -1"
    by (auto simp: ring_ok_def c_def b_def)
  have ring: "ring g = x # q @ b" using ring_split [of g] st by (simp add: b_def)
  define g' where "g' = g\<lparr>buffer := (buffer g)[c := -1], consumer_idx_buff := int ((c + 1) mod 10)\<rparr>"
  have "buffer g ! c = x"
    using ring len c nth_rotate [of 0 "buffer g" c] by (simp add: ring_def)
  moreover have "(int c + 1) mod 10 = int ((c + 1) mod 10)" by (simp add: zmod_int add_ac)
  ultimately have rem: "remove_from_buffer g = Some (x, g')"
    using len c by (simp add: remove_from_buffer_def g'_def BUFFER_LEN_def del: of_nat_mod)
  have "ring g' = rotate ((c + 1) mod 10) ((buffer g)[c := -1])"
    by (simp add: ring_def g'_def del: of_nat_mod)
  also have "\<dots> = rotate (c + 1) ((buffer g)[c := -1])"
    using rotate_conv_mod [of "c + 1" "(buffer g)[c := -1]"] len by simp
  also have "\<dots> = rotate1 ((ring g)[0 := -1])"
    using rotate_at_own [of c "buffer g" "-1"] len c by (simp add: ring_def)
  also have "\<dots> = q @ b @ [-1]" using ring by simp
  finally have ring': "ring g' = q @ b @ [-1]" .
  have st': "stored g' = q"
    using ring' blank stored_items [of _ g] st by (intro stored_eqI [where b = "b @ [-1]"]) auto
  have "ring_ok g'"
    using st' ring' len blank p st
    by (simp add: ring_ok_def) (simp add: g'_def zmod_int mod_simps add_ac)
  with rem st' show ?thesis by blast
qed

lemma ring_within: "ring_ok g \<Longrightarrow> length (stored g) \<le> 10"
  using ring_length [of g] length_takeWhile_le [of is_item "ring g"] by (simp add: ring_ok_def stored_def)

interpretation rq: bounded_queue add_to_buffer remove_from_buffer stored ring_ok is_item 10
  by unfold_locales (auto intro: ring_within ring_put ring_get)

section \<open>Showing the buffer\<close>

definition slot_char :: "i32 \<Rightarrow> char" where
  "slot_char v = (if v = 0 then CHR ''0'' else if v = -1 then CHR ''+'' else CHR ''*'')"

definition slot_shown :: "i32 \<Rightarrow> i32" where
  "slot_shown v = (if v = -1 then 0 else v)"

lemma show_slots_map: "show_slots vs = (map slot_char vs, map slot_shown vs)"
  by (induction vs) (auto simp: slot_char_def slot_shown_def split: prod.splits)

lemma print_buffer_eq:
  "print_buffer g = g\<lparr>buffer := map slot_shown (buffer g),
     stdout := stdout g @ [Picture (''['' @ map slot_char (buffer g) @ '']'')]\<rparr>"
  by (simp add: print_buffer_def show_slots_map)

lemma ring_print: "ring (print_buffer g) = map slot_shown (ring g)"
  by (simp add: ring_def print_buffer_eq rotate_map)

lemma stored_print [simp]: "stored (print_buffer g) = stored g"
proof -
  have f: "is_item (slot_shown x) = is_item x" for x by (simp add: slot_shown_def)
  have "takeWhile is_item (map slot_shown xs) = map slot_shown (takeWhile is_item xs)" for xs
    by (induction xs) (auto simp: f)
  moreover have "map slot_shown (stored g) = stored g"
    by (rule map_idI) (auto simp: slot_shown_def dest: stored_items)
  ultimately show ?thesis by (simp add: stored_def ring_print)
qed

lemma ring_ok_print: "ring_ok g \<Longrightarrow> ring_ok (print_buffer g)"
  by (auto simp: ring_ok_def ring_print drop_map slot_shown_def)
    (auto simp: print_buffer_eq)

lemma clean_print: "ring_ok g \<Longrightarrow> clean (print_buffer g)"
proof -
  assume ok: "ring_ok g"
  have "set (buffer g) = set (ring g)" by (simp add: ring_def)
  also have "\<dots> \<subseteq> set (stored g) \<union> set (drop (length (stored g)) (ring g))"
    using ring_split [of g] by (metis set_append subset_refl)
  finally have "x = -1 \<or> 0 \<le> x" if "x \<in> set (buffer g)" for x
    using that ok stored_items [of x g] by (auto simp: ring_ok_def)
  then show ?thesis by (auto simp: clean_def print_buffer_eq slot_shown_def)
qed

lemma mset_rotated: "mset (rotate k xs) = mset xs"
proof (induction k)
  case (Suc k)
  have "mset (rotate1 ys) = mset ys" for ys :: "'a list" by (cases ys) auto
  with Suc show ?case by simp
qed simp

lemma stars_count:
  assumes "ring_ok g"
  shows "length (filter ((=) (CHR ''*'')) (map slot_char (buffer g))) = length (stored g)"
proof -
  have "mset (buffer g) = mset (ring g)" by (simp add: ring_def mset_rotated)
  then have "size (filter_mset ((=) (CHR ''*'')) (image_mset slot_char (mset (buffer g)))) =
      size (filter_mset ((=) (CHR ''*'')) (image_mset slot_char (mset (ring g))))" by simp
  then have "length (filter ((=) (CHR ''*'')) (map slot_char (buffer g))) =
      length (filter ((=) (CHR ''*'')) (map slot_char (ring g)))"
    by (simp flip: mset_map mset_filter)
  also have "\<dots> = length (filter ((=) (CHR ''*'')) (map slot_char (stored g))) +
      length (filter ((=) (CHR ''*'')) (map slot_char (drop (length (stored g)) (ring g))))"
    by (subst ring_split) simp
  also have "filter ((=) (CHR ''*'')) (map slot_char (drop (length (stored g)) (ring g))) = []"
    using assms by (auto simp: ring_ok_def slot_char_def filter_empty_conv)
  also have "filter ((=) (CHR ''*'')) (map slot_char (stored g)) = map slot_char (stored g)"
    by (rule filter_True) (auto simp: slot_char_def dest: stored_items)
  finally show ?thesis by simp
qed

lemmas ring_field_defs = ring_def stored_def ring_ok_def clean_def

section \<open>Properties\<close>

text \<open>
  C23. The ring implements a bounded first-in first-out queue: whatever sequence of operations a
  client performs on a well-formed ring, empty, full or in between, as long as it adds items only
  while fewer than ten are stored and removes only while some are, \<open>add_to_buffer\<close> and
  \<open>remove_from_buffer\<close> stay inside the array, the items removed are those a list would return, in
  order, and the ring ends well formed and holds the same items as the list.
\<close>

theorem ring_refines_queue:
  assumes "ring_ok g" and "queue_run (list_put 10 is_item) list_get ops (stored g) = Some (out, q)"
  shows "\<exists>g'. queue_run add_to_buffer remove_from_buffer ops g = Some (out, g') \<and> ring_ok g' \<and> stored g' = q"
  using assms by (rule rq.refines_list)

definition ring_sample :: wh_globals where
  "ring_sample =
     \<lparr>buffer = [7, 8, 0, 0, 0, 0, 0, 0, 0, 6], n_producers = 3, n_consumers = 2,
      producer_idx_buff = 2, consumer_idx_buff = 9,
      sem_full = live_sema 3, sem_empty = live_sema 7, sem_lock = live_sema 0,
      rand_calls = 3, stdout = [], stderr = []\<rparr>"

lemma ring_sample_ok: "ring_ok ring_sample" and ring_sample_stored: "stored ring_sample = [6, 7, 8]"
  by code_simp+

text \<open>From three items the ring is filled, emptied and used again.\<close>

definition ring_ops :: "i32 queue_op list" where
  "ring_ops = map Put [1, 2, 3, 4, 5, 1, 2] @ replicate 10 Get @ [Put 9, Get]"

theorem ring_refines_queue_witness:
  "\<exists>g'. queue_run add_to_buffer remove_from_buffer ring_ops ring_sample = Some ([6, 7, 8, 1, 2, 3, 4, 5, 1, 2, 9], g') \<and>
     ring_ok g' \<and> stored g' = []"
proof -
  have "queue_run (list_put 10 is_item) list_get ring_ops (stored ring_sample) = Some ([6, 7, 8, 1, 2, 3, 4, 5, 1, 2, 9], [])"
    by (simp add: ring_sample_stored ring_ops_def list_put_def numeral_eq_Suc)
  from ring_refines_queue [OF ring_sample_ok this] show ?thesis .
qed

text \<open>
  C30. \<open>print_buffer\<close> shows the store truthfully: ten characters, exactly as many stars as
  there are items; it changes nothing that is stored, and no slot is left marked as
  recently taken.
\<close>

theorem print_buffer_shows:
  assumes "ring_ok g"
  shows "\<exists>pic. stdout (print_buffer g) = stdout g @ [Picture (''['' @ pic @ '']'')] \<and> length pic = 10 \<and>
    length (filter ((=) (CHR ''*'')) pic) = length (stored g) \<and>
    stored (print_buffer g) = stored g \<and> ring_ok (print_buffer g) \<and> clean (print_buffer g)"
proof -
  have "stdout (print_buffer g) = stdout g @ [Picture (''['' @ map slot_char (buffer g) @ '']'')]"
    by (simp add: print_buffer_eq)
  moreover have "length (map slot_char (buffer g)) = 10" using assms by (simp add: ring_ok_def)
  ultimately show ?thesis
    using stars_count [OF assms] ring_ok_print [OF assms] clean_print [OF assms] stored_print by blast
qed

theorem print_buffer_shows_witness:
  "stdout (print_buffer ring_sample) = [Picture ''[**0000000*]''] \<and> stored (print_buffer ring_sample) = [6, 7, 8]"
proof -
  have "stdout (print_buffer ring_sample) = [Picture ''[**0000000*]'']" by code_simp
  with print_buffer_shows [OF ring_sample_ok] ring_sample_stored show ?thesis by simp
qed

end
