(* ===== verification/Warehouse.thy ===== *)
theory Warehouse
  imports Pthread Warehouse_Ring
begin

text \<open>
  \<^verbatim>\<open>c/c_lab05_b.c\<close>: three trucks (producers) and two workers (consumers) share the
  circular buffer of \<open>Warehouse_Ring\<close>. \<open>sem_empty\<close> counts free slots, \<open>sem_full\<close>
  stored items, and \<open>sem_lock\<close> guards the buffer. The loops never end, so the
  program is shown safe and free of deadlock rather than terminating.

  One action is one library call or one function call on the shared data; the
  functions called under \<open>sem_lock\<close> (\<open>add_to_buffer\<close>, \<open>remove_from_buffer\<close>,
  \<open>print_buffer\<close>) are one action each. The successive results of \<open>rand\<close> are a
  parameter \<open>rnd\<close> of the model (\<open>rand\<close> returns no negative number). Consumer
  \<open>i\<close> is handed the address of \<open>thread_no[i]\<close>, which producer \<open>i\<close> was handed before.
\<close>

section \<open>The program\<close>

datatype wh_pc =
    P_start
  | P_produce i32
  | P_wait_empty i32 i32
  | P_wait_lock i32 i32
  | P_add i32 i32
  | P_show i32 i32
  | P_say i32 i32
  | P_sleep i32
  | P_post_lock i32
  | P_post_full i32
  | C_start
  | C_wait_full i32
  | C_wait_lock i32
  | C_remove i32
  | C_show i32 i32
  | C_say i32 i32
  | C_sleep i32 i32
  | C_post_lock i32 i32
  | C_post_empty i32 i32
  | C_consume i32 i32

definition produce :: "(nat \<Rightarrow> nat) \<Rightarrow> wh_globals \<Rightarrow> i32 \<times> wh_globals" where
  "produce rnd g = (int (rnd (rand_calls g) mod 9) + 1, g\<lparr>rand_calls := Suc (rand_calls g)\<rparr>)"

definition consume :: "i32 \<Rightarrow> i32 \<Rightarrow> wh_globals \<Rightarrow> wh_globals" where
  "consume consumer_id item g = g\<lparr>stderr := stderr g @ [Sent consumer_id (print_item item)]\<rparr>"

definition thread_id :: "i32 option \<Rightarrow> i32 option" where
  "thread_id a = (case a of None \<Rightarrow> None | Some n \<Rightarrow> i32_check (n + 1))"

fun producer :: "(nat \<Rightarrow> nat) \<Rightarrow> i32 option \<Rightarrow> wh_pc \<Rightarrow> wh_globals \<Rightarrow> (wh_pc, wh_globals) outcome" where
  "producer rnd a P_start g = (case thread_id a of None \<Rightarrow> Crash | Some p \<Rightarrow> Goto (P_produce p) g)"
| "producer rnd a (P_produce p) g = (case produce rnd g of (item, g') \<Rightarrow> Goto (P_wait_empty p item) g')"
| "producer rnd a (P_wait_empty p item) g =
     (case sema_down (sem_empty g) of None \<Rightarrow> Blocked | Some m \<Rightarrow> Goto (P_wait_lock p item) (g\<lparr>sem_empty := m\<rparr>))"
| "producer rnd a (P_wait_lock p item) g =
     (case sema_down (sem_lock g) of None \<Rightarrow> Blocked | Some m \<Rightarrow> Goto (P_add p item) (g\<lparr>sem_lock := m\<rparr>))"
| "producer rnd a (P_add p item) g =
     (case add_to_buffer item g of None \<Rightarrow> Crash | Some g' \<Rightarrow> Goto (P_show p item) g')"
| "producer rnd a (P_show p item) g = Goto (P_say p item) (print_buffer g)"
| "producer rnd a (P_say p item) g =
     Goto (P_sleep p) (g\<lparr>stdout := stdout g @ [Added p (print_item item)]\<rparr>)"
| "producer rnd a (P_sleep p) g = Goto (P_post_lock p) g"
| "producer rnd a (P_post_lock p) g = Goto (P_post_full p) (g\<lparr>sem_lock := rk_sema_post (sem_lock g)\<rparr>)"
| "producer rnd a (P_post_full p) g = Goto (P_produce p) (g\<lparr>sem_full := rk_sema_post (sem_full g)\<rparr>)"
| "producer rnd a _ g = Crash"

fun consumer :: "i32 option \<Rightarrow> wh_pc \<Rightarrow> wh_globals \<Rightarrow> (wh_pc, wh_globals) outcome" where
  "consumer a C_start g = (case thread_id a of None \<Rightarrow> Crash | Some c \<Rightarrow> Goto (C_wait_full c) g)"
| "consumer a (C_wait_full c) g =
     (case sema_down (sem_full g) of None \<Rightarrow> Blocked | Some m \<Rightarrow> Goto (C_wait_lock c) (g\<lparr>sem_full := m\<rparr>))"
| "consumer a (C_wait_lock c) g =
     (case sema_down (sem_lock g) of None \<Rightarrow> Blocked | Some m \<Rightarrow> Goto (C_remove c) (g\<lparr>sem_lock := m\<rparr>))"
| "consumer a (C_remove c) g =
     (case remove_from_buffer g of None \<Rightarrow> Crash | Some (item, g') \<Rightarrow> Goto (C_show c item) g')"
| "consumer a (C_show c item) g = Goto (C_say c item) (print_buffer g)"
| "consumer a (C_say c item) g =
     Goto (C_sleep c item) (g\<lparr>stdout := stdout g @ [Took c (print_item item)]\<rparr>)"
| "consumer a (C_sleep c item) g = Goto (C_post_lock c item) g"
| "consumer a (C_post_lock c item) g =
     Goto (C_post_empty c item) (g\<lparr>sem_lock := rk_sema_post (sem_lock g)\<rparr>)"
| "consumer a (C_post_empty c item) g =
     Goto (C_consume c item) (g\<lparr>sem_empty := rk_sema_post (sem_empty g)\<rparr>)"
| "consumer a (C_consume c item) g = Goto (C_wait_full c) (consume c item g)"
| "consumer a _ g = Crash"

definition wh_NO_TH :: nat where "wh_NO_TH = 5"

text \<open>The part of \<open>main\<close> before the threads are created, and the one after they are joined.\<close>

definition wh_init_semaphores :: "wh_globals \<Rightarrow> wh_globals" where
  "wh_init_semaphores g =
     g\<lparr>sem_full := snd (rk_sema_init (sem_full g) 0 0),
       sem_empty := snd (rk_sema_init (sem_empty g) 0 10),
       sem_lock := snd (rk_sema_init (sem_lock g) 0 1)\<rparr>"

definition wh_close_semaphores :: "wh_globals \<Rightarrow> wh_globals" where
  "wh_close_semaphores g =
     g\<lparr>sem_full := snd (rk_sema_destroy (sem_full g)),
       sem_empty := snd (rk_sema_destroy (sem_empty g)),
       sem_lock := snd (rk_sema_destroy (sem_lock g))\<rparr>"

definition wh_main_init :: "wh_globals \<Rightarrow> string + wh_globals" where
  "wh_main_init g =
     Inr (wh_init_semaphores
       (g\<lparr>n_producers := 3, n_consumers := 2,
          stdout := stdout g @
            [Text ''Warehouse schema'', Text (CHR 0x09 # ''0 Empty slot''), Text (CHR 0x09 # ''* Taken slot''),
             Text (CHR 0x09 # ''+ Recently taken by worker'' @ [CHR 0x0A]),
             Text ''Number of trucks  (producers): 3'', Text ''Number of workers (consumers): 2'']\<rparr>))"

definition wh_program :: "(nat \<Rightarrow> nat) \<Rightarrow> (wh_pc, wh_globals) program" where
  "wh_program rnd =
     \<lparr>no_th = wh_NO_TH,
      entry = (\<lambda>i. if i < 3 then P_start else C_start),
      slot = (\<lambda>i. if i < 3 then i else i - 3),
      body = (\<lambda>i a pc g. if i < 3 then producer rnd a pc g else consumer a pc g),
      bad_rc = (\<lambda>r. r = -1),
      init = wh_main_init,
      fini = (\<lambda>g. Inr (wh_close_semaphores g)),
      create_msg = (\<lambda>i. if i < 3 then ''Can't create threads for producers (trucks)''
                        else ''Can't create threads for consumers (workers)''),
      join_msg = ''Unable to join producer threads'',
      before = (\<lambda>i g. g)\<rparr>"

definition wh_globals0 :: wh_globals where
  "wh_globals0 =
     \<lparr>buffer = replicate 10 0, n_producers = 0, n_consumers = 0,
      producer_idx_buff = 0, consumer_idx_buff = 0,
      sem_full = raw_sema, sem_empty = raw_sema, sem_lock = raw_sema,
      rand_calls = 0, stdout = [], stderr = []\<rparr>"

section \<open>The guarded section\<close>

fun at_buffer :: "wh_pc \<Rightarrow> bool" where
  "at_buffer (P_add p x) = True"
| "at_buffer (P_show p x) = True"
| "at_buffer (P_say p x) = True"
| "at_buffer (P_sleep p) = True"
| "at_buffer (P_post_lock p) = True"
| "at_buffer (C_remove c) = True"
| "at_buffer (C_show c x) = True"
| "at_buffer (C_say c x) = True"
| "at_buffer (C_sleep c x) = True"
| "at_buffer (C_post_lock c x) = True"
| "at_buffer _ = False"

text \<open>
  Per thread: items in the buffer it has claimed or not yet announced
  (\<open>items_of\<close>), free slots it has claimed or not yet announced (\<open>slots_of\<close>).
\<close>

fun items_of :: "wh_pc \<Rightarrow> nat" where
  "items_of (P_show p x) = 1"
| "items_of (P_say p x) = 1"
| "items_of (P_sleep p) = 1"
| "items_of (P_post_lock p) = 1"
| "items_of (P_post_full p) = 1"
| "items_of (C_wait_lock c) = 1"
| "items_of (C_remove c) = 1"
| "items_of _ = 0"

fun slots_of :: "wh_pc \<Rightarrow> nat" where
  "slots_of (P_wait_lock p x) = 1"
| "slots_of (P_add p x) = 1"
| "slots_of (C_show c x) = 1"
| "slots_of (C_say c x) = 1"
| "slots_of (C_sleep c x) = 1"
| "slots_of (C_post_lock c x) = 1"
| "slots_of (C_post_empty c x) = 1"
| "slots_of _ = 0"

definition counts :: "wh_pc thread list \<Rightarrow> wh_globals \<Rightarrow> bool" where
  "counts ts g \<longleftrightarrow>
     (\<exists>f e. sem_full g = live_sema f \<and> sem_empty g = live_sema e \<and>
        f + total items_of ts = length (stored g) \<and>
        e + total slots_of ts + length (stored g) = 10)"

fun pc_ok :: "nat \<Rightarrow> wh_pc \<Rightarrow> bool" where
  "pc_ok i P_start \<longleftrightarrow> i < 3"
| "pc_ok i (P_produce p) \<longleftrightarrow> i < 3 \<and> p = int i + 1"
| "pc_ok i (P_wait_empty p x) \<longleftrightarrow> i < 3 \<and> p = int i + 1 \<and> 1 \<le> x \<and> x \<le> 9"
| "pc_ok i (P_wait_lock p x) \<longleftrightarrow> i < 3 \<and> p = int i + 1 \<and> 1 \<le> x \<and> x \<le> 9"
| "pc_ok i (P_add p x) \<longleftrightarrow> i < 3 \<and> p = int i + 1 \<and> 1 \<le> x \<and> x \<le> 9"
| "pc_ok i (P_show p x) \<longleftrightarrow> i < 3 \<and> p = int i + 1 \<and> 1 \<le> x \<and> x \<le> 9"
| "pc_ok i (P_say p x) \<longleftrightarrow> i < 3 \<and> p = int i + 1 \<and> 1 \<le> x \<and> x \<le> 9"
| "pc_ok i (P_sleep p) \<longleftrightarrow> i < 3 \<and> p = int i + 1"
| "pc_ok i (P_post_lock p) \<longleftrightarrow> i < 3 \<and> p = int i + 1"
| "pc_ok i (P_post_full p) \<longleftrightarrow> i < 3 \<and> p = int i + 1"
| "pc_ok i C_start \<longleftrightarrow> 3 \<le> i"
| "pc_ok i (C_wait_full c) \<longleftrightarrow> 3 \<le> i \<and> c = int i - 2"
| "pc_ok i (C_wait_lock c) \<longleftrightarrow> 3 \<le> i \<and> c = int i - 2"
| "pc_ok i (C_remove c) \<longleftrightarrow> 3 \<le> i \<and> c = int i - 2"
| "pc_ok i (C_show c x) \<longleftrightarrow> 3 \<le> i \<and> c = int i - 2"
| "pc_ok i (C_say c x) \<longleftrightarrow> 3 \<le> i \<and> c = int i - 2"
| "pc_ok i (C_sleep c x) \<longleftrightarrow> 3 \<le> i \<and> c = int i - 2"
| "pc_ok i (C_post_lock c x) \<longleftrightarrow> 3 \<le> i \<and> c = int i - 2"
| "pc_ok i (C_post_empty c x) \<longleftrightarrow> 3 \<le> i \<and> c = int i - 2"
| "pc_ok i (C_consume c x) \<longleftrightarrow> 3 \<le> i \<and> c = int i - 2"

definition pcs_ok :: "wh_pc thread list \<Rightarrow> bool" where
  "pcs_ok ts \<longleftrightarrow>
     length ts = 5 \<and> (\<forall>i < length ts. ts ! i \<noteq> Done \<and> (\<forall>pc. ts ! i = Live pc \<longrightarrow> pc_ok i pc))"

definition wh_side :: "wh_pc thread list \<Rightarrow> wh_globals \<Rightarrow> bool" where
  "wh_side ts g \<longleftrightarrow> counts ts g \<and> pcs_ok ts"

text \<open>
  What has been said about the deliveries: \<open>heard pa pt g\<close> holds when some
  sequence \<open>T\<close> of items has been taken, \<open>T\<close> followed by what is stored has been
  added, and stdout names them all except the still unsaid \<open>pa\<close> and \<open>pt\<close>.
\<close>

fun added_name :: "wh_event \<Rightarrow> string list" where
  "added_name (Added p n) = [n]"
| "added_name _ = []"

fun took_name :: "wh_event \<Rightarrow> string list" where
  "took_name (Took c n) = [n]"
| "took_name _ = []"

definition added_names :: "wh_event list \<Rightarrow> string list" where
  "added_names es = concat (map added_name es)"

definition took_names :: "wh_event list \<Rightarrow> string list" where
  "took_names es = concat (map took_name es)"

definition heard :: "string list \<Rightarrow> string list \<Rightarrow> wh_globals \<Rightarrow> bool" where
  "heard pa pt g \<longleftrightarrow>
     (\<exists>T. map print_item (T @ stored g) = added_names (stdout g) @ pa \<and>
          map print_item T = took_names (stdout g) @ pt)"

definition buffer_inv :: "wh_globals \<Rightarrow> bool" where
  "buffer_inv g \<longleftrightarrow> ring_ok g \<and> clean g \<and> heard [] [] g"

fun at_buffer_inv :: "wh_pc \<Rightarrow> wh_globals \<Rightarrow> bool" where
  "at_buffer_inv (P_show p x) g \<longleftrightarrow> ring_ok g \<and> heard [print_item x] [] g"
| "at_buffer_inv (P_say p x) g \<longleftrightarrow> ring_ok g \<and> clean g \<and> heard [print_item x] [] g"
| "at_buffer_inv (C_show c x) g \<longleftrightarrow> ring_ok g \<and> heard [] [print_item x] g"
| "at_buffer_inv (C_say c x) g \<longleftrightarrow> ring_ok g \<and> clean g \<and> heard [] [print_item x] g"
| "at_buffer_inv _ g \<longleftrightarrow> buffer_inv g"

section \<open>Counting\<close>

lemma wh_program_simps [simp]:
  "no_th (wh_program rnd) = 5"
  "entry (wh_program rnd) i = (if i < 3 then P_start else C_start)"
  "slot (wh_program rnd) i = (if i < 3 then i else i - 3)"
  "body (wh_program rnd) i a pc g = (if i < 3 then producer rnd a pc g else consumer a pc g)"
  "bad_rc (wh_program rnd) r \<longleftrightarrow> r = -1"
  "init (wh_program rnd) = wh_main_init"
  "fini (wh_program rnd) g = Inr (wh_close_semaphores g)" "before (wh_program rnd) = (\<lambda>i g. g)"
  by (simp_all add: wh_program_def wh_NO_TH_def)

text \<open>A producer about to add finds room, a consumer about to remove finds an item.\<close>

lemma room_to_add:
  "wh_side ts g \<Longrightarrow> i < length ts \<Longrightarrow> ts ! i = Live (P_add p x) \<Longrightarrow> length (stored g) < 10"
  using of_thread_le [of i ts slots_of] by (auto simp: wh_side_def counts_def)

lemma item_to_remove:
  "wh_side ts g \<Longrightarrow> i < length ts \<Longrightarrow> ts ! i = Live (C_remove c) \<Longrightarrow> stored g \<noteq> []"
  using of_thread_le [of i ts items_of] by (auto simp: wh_side_def counts_def)

lemma pc_okD: "wh_side ts g \<Longrightarrow> i < length ts \<Longrightarrow> ts ! i = Live pc \<Longrightarrow> pc_ok i pc"
  by (auto simp: wh_side_def pcs_ok_def)

section \<open>What the actions do to the buffer\<close>

lemma names_simps [simp]:
  "added_names (es @ [e]) = added_names es @ added_name e"
  "took_names (es @ [e]) = took_names es @ took_name e"
  by (simp_all add: added_names_def took_names_def)

lemma frame_simps [simp]:
  "stored (g\<lparr>sem_full := m\<rparr>) = stored g" "stored (g\<lparr>sem_empty := m\<rparr>) = stored g"
  "stored (g\<lparr>sem_lock := m\<rparr>) = stored g" "stored (g\<lparr>stdout := es\<rparr>) = stored g"
  "stored (g\<lparr>stderr := es\<rparr>) = stored g" "stored (g\<lparr>rand_calls := k\<rparr>) = stored g"
  "ring_ok (g\<lparr>sem_full := m\<rparr>) = ring_ok g" "ring_ok (g\<lparr>sem_empty := m\<rparr>) = ring_ok g"
  "ring_ok (g\<lparr>sem_lock := m\<rparr>) = ring_ok g" "ring_ok (g\<lparr>stdout := es\<rparr>) = ring_ok g"
  "ring_ok (g\<lparr>stderr := es\<rparr>) = ring_ok g" "ring_ok (g\<lparr>rand_calls := k\<rparr>) = ring_ok g"
  "clean (g\<lparr>sem_full := m\<rparr>) = clean g" "clean (g\<lparr>sem_empty := m\<rparr>) = clean g"
  "clean (g\<lparr>sem_lock := m\<rparr>) = clean g" "clean (g\<lparr>stdout := es\<rparr>) = clean g"
  "clean (g\<lparr>stderr := es\<rparr>) = clean g" "clean (g\<lparr>rand_calls := k\<rparr>) = clean g"
  by (simp_all add: ring_field_defs)

lemma heard_frame [simp]:
  "heard pa pt (g\<lparr>sem_full := m\<rparr>) = heard pa pt g" "heard pa pt (g\<lparr>sem_empty := m\<rparr>) = heard pa pt g"
  "heard pa pt (g\<lparr>sem_lock := m\<rparr>) = heard pa pt g" "heard pa pt (g\<lparr>stderr := es\<rparr>) = heard pa pt g"
  "heard pa pt (g\<lparr>rand_calls := k\<rparr>) = heard pa pt g"
  by (simp_all add: heard_def)

lemma buffer_inv_frame [simp]:
  "buffer_inv (g\<lparr>sem_full := m\<rparr>) = buffer_inv g" "buffer_inv (g\<lparr>sem_empty := m\<rparr>) = buffer_inv g"
  "buffer_inv (g\<lparr>sem_lock := m\<rparr>) = buffer_inv g" "buffer_inv (g\<lparr>stderr := es\<rparr>) = buffer_inv g"
  "buffer_inv (g\<lparr>rand_calls := k\<rparr>) = buffer_inv g"
  by (simp_all add: buffer_inv_def)

lemma at_buffer_inv_frame [simp]:
  "at_buffer_inv q (g\<lparr>sem_full := m\<rparr>) = at_buffer_inv q g" "at_buffer_inv q (g\<lparr>sem_empty := m\<rparr>) = at_buffer_inv q g"
  "at_buffer_inv q (g\<lparr>sem_lock := m\<rparr>) = at_buffer_inv q g" "at_buffer_inv q (g\<lparr>stderr := es\<rparr>) = at_buffer_inv q g"
  "at_buffer_inv q (g\<lparr>rand_calls := k\<rparr>) = at_buffer_inv q g"
  by (cases q; simp)+

lemma add_heard:
  assumes "add_to_buffer x g = Some g'" "ring_ok g" "heard [] [] g" "1 \<le> x" "length (stored g) < 10"
  shows "ring_ok g' \<and> stored g' = stored g @ [x] \<and> heard [print_item x] [] g'"
proof -
  have "stdout g' = stdout g" using assms(1) by (auto simp: add_to_buffer_def split: if_splits)
  moreover have "ring_ok g' \<and> stored g' = stored g @ [x]"
    using rq.putD [OF assms(2) _ assms(5,1)] assms(4) by simp
  ultimately show ?thesis using assms(3) by (auto simp: heard_def)
qed

lemma remove_heard:
  assumes "remove_from_buffer g = Some (x, g')" "ring_ok g" "heard [] [] g" "stored g \<noteq> []"
  shows "ring_ok g' \<and> stored g = x # stored g' \<and> heard [] [print_item x] g'"
proof -
  have out: "stdout g' = stdout g" using assms(1) by (auto simp: remove_from_buffer_def split: if_splits)
  have get: "ring_ok g' \<and> stored g = x # stored g'"
    using rq.getD [OF assms(2,4,1)] by simp
  from assms(3) obtain T where "map print_item (T @ stored g) = added_names (stdout g)"
      "map print_item T = took_names (stdout g)"
    by (auto simp: heard_def)
  with get out show ?thesis by (auto simp: heard_def intro!: exI [where x = "T @ [x]"])
qed

lemma print_heard: "heard pa pt (print_buffer g) = heard pa pt g"
  by (simp add: heard_def) (simp add: print_buffer_eq)

lemma say_added: "heard [n] [] g \<Longrightarrow> heard [] [] (g\<lparr>stdout := stdout g @ [Added p n]\<rparr>)"
  by (simp add: heard_def)

lemma say_took: "heard [] [n] g \<Longrightarrow> heard [] [] (g\<lparr>stdout := stdout g @ [Took c n]\<rparr>)"
  by (simp add: heard_def)

abbreviation sema_held :: "rk_sema \<Rightarrow> nat option \<Rightarrow> bool" where
  "sema_held \<equiv> \<lambda>s h. sema_holds s (if h = None then 1 else 0)"

fun_cases producer_GotoE: "producer rnd a pc g = Goto pc' g'"
fun_cases consumer_GotoE: "consumer a pc g = Goto pc' g'"

lemma wh_no_return: "body (wh_program rnd) i a pc g \<noteq> Return g'"
  by (cases pc) (auto split: option.splits prod.splits)

interpretation wh: protected_section "\<lambda>i. sema_down" "\<lambda>i s. Some (rk_sema_post s)" sema_held
  "wh_program rnd" sem_lock at_buffer wh_side at_buffer_inv buffer_inv for rnd
proof unfold_locales
  fix i a pc g pc' g'
  assume b: "body (wh_program rnd) i a pc g = Goto pc' g'"
  show "at_buffer pc = at_buffer pc' \<Longrightarrow> sem_lock g' = sem_lock g"
    using b by (cases pc) (auto simp: produce_def consume_def add_to_buffer_def remove_from_buffer_def
        print_buffer_def split: if_splits option.splits prod.splits)
  show "\<not> at_buffer pc \<Longrightarrow> at_buffer pc' \<Longrightarrow> sema_down (sem_lock g) = Some (sem_lock g')"
    using b by (cases pc) (auto simp: produce_def split: if_splits option.splits)
  show "at_buffer pc \<Longrightarrow> \<not> at_buffer pc' \<Longrightarrow> Some (rk_sema_post (sem_lock g)) = Some (sem_lock g')"
    using b by (cases pc) (auto split: if_splits option.splits)
next
  fix ts g i pc pc' g'
  assume side: "wh_side ts g" and i: "i < length ts" and pc: "ts ! i = Live pc"
    and b: "body (wh_program rnd) i (Some (int (slot (wh_program rnd) i))) pc g = Goto pc' g'"
  show "\<not> at_buffer pc \<Longrightarrow> at_buffer pc' \<Longrightarrow> buffer_inv g \<Longrightarrow> at_buffer_inv pc' g'"
    using b by (cases pc) (auto simp: produce_def split: if_splits option.splits)
  show "at_buffer pc \<Longrightarrow> at_buffer pc' \<Longrightarrow> at_buffer_inv pc g \<Longrightarrow> at_buffer_inv pc' g'"
    using b pc_okD [OF side i pc] room_to_add [OF side i] item_to_remove [OF side i] pc
    by (cases pc) (auto simp: buffer_inv_def print_heard clean_print ring_ok_print
        dest: add_heard remove_heard intro: say_added say_took split: if_splits option.splits prod.splits)
  show "at_buffer pc \<Longrightarrow> \<not> at_buffer pc' \<Longrightarrow> at_buffer_inv pc g \<Longrightarrow> buffer_inv g'"
    using b by (cases pc) (auto split: if_splits option.splits)
next
  fix i pc g pc' g'
  assume "body (wh_program rnd) i (Some (int (slot (wh_program rnd) i))) pc g = Goto pc' g'"
    "\<not> at_buffer pc" "\<not> at_buffer pc'"
  then show "(buffer_inv g \<longrightarrow> buffer_inv g') \<and> (\<forall>q. at_buffer q \<longrightarrow> at_buffer_inv q g \<longrightarrow> at_buffer_inv q g')"
    by (cases pc) (auto simp: produce_def consume_def split: if_splits option.splits)
qed (use wh_no_return in auto)

section \<open>The invariant of the program\<close>

definition wh_inv :: "wh_pc thread list \<Rightarrow> wh_globals \<Rightarrow> bool" where
  "wh_inv ts g \<longleftrightarrow>
     cs_inv sema_held sem_lock at_buffer ts g \<and>
     protected at_buffer at_buffer_inv buffer_inv ts g \<and> wh_side ts g"

lemma countsI:
  "sem_full g = live_sema f \<Longrightarrow> sem_empty g = live_sema e \<Longrightarrow> f + total items_of ts = length (stored g) \<Longrightarrow>
   e + total slots_of ts + length (stored g) = 10 \<Longrightarrow> counts ts g"
  by (auto simp: counts_def)

lemma post_small: "n \<le> 10 \<Longrightarrow> rk_sema_post (live_sema n) = live_sema (Suc n)"
  by (simp add: sem_simps SEM_VALUE_MAX_def)

lemma down_Some: "sema_down (live_sema n) = Some m \<longleftrightarrow> (\<exists>k. n = Suc k \<and> m = live_sema k)"
  by (auto simp: sem_simps split: nat.splits)

lemma ring_op_sems [simp]:
  "add_to_buffer x g = Some g' \<Longrightarrow> sem_full g' = sem_full g \<and> sem_empty g' = sem_empty g"
  "remove_from_buffer g = Some (x, g') \<Longrightarrow> sem_full g' = sem_full g \<and> sem_empty g' = sem_empty g"
  "sem_full (print_buffer g) = sem_full g" "sem_empty (print_buffer g) = sem_empty g"
  by (auto simp: add_to_buffer_def remove_from_buffer_def print_buffer_eq split: if_splits)

lemma wh_counts_goto:
  assumes side: "wh_side ts g" and i: "i < length ts" and pc: "ts ! i = Live pc"
    and L: "at_buffer pc \<Longrightarrow> at_buffer_inv pc g"
    and b: "body (wh_program rnd) i a pc g = Goto pc' g'"
  shows "counts (ts[i := Live pc']) g'"
proof -
  from side obtain f e where fe: "sem_full g = live_sema f" "sem_empty g = live_sema e"
      "f + total items_of ts = length (stored g)" "e + total slots_of ts + length (stored g) = 10"
    by (auto simp: wh_side_def counts_def)
  from fe have small: "f \<le> 10" "e \<le> 10" by auto
  note posts = post_small [OF small(1)] post_small [OF small(2)]
  have tot: "total items_of (ts[i := Live pc']) + items_of pc = total items_of ts + items_of pc'"
    "total slots_of (ts[i := Live pc']) + slots_of pc = total slots_of ts + slots_of pc'"
    using total_update [OF i, of items_of "Live pc'"] total_update [OF i, of slots_of "Live pc'"] pc by auto
  note ok = pc_okD [OF side i pc]
  show ?thesis
  proof (cases pc)
    case (P_add p x)
    with b ok L room_to_add [OF side i] pc have "stored g' = stored g @ [x]" "pc' = P_show p x"
        "sem_full g' = live_sema f" "sem_empty g' = live_sema e"
      using fe by (auto simp: buffer_inv_def dest: add_heard split: option.splits)
    with tot fe P_add show ?thesis by (intro countsI) auto
  next
    case (C_remove c)
    with b ok obtain x where x: "remove_from_buffer g = Some (x, g')" "pc' = C_show c x"
      by (auto split: option.splits)
    with L item_to_remove [OF side i] pc C_remove have "stored g = x # stored g'"
      using remove_heard [OF x(1)] by (simp add: buffer_inv_def)
    with tot fe C_remove x show ?thesis by (intro countsI) auto
  qed (use b tot fe posts ok in \<open>auto simp: down_Some produce_def consume_def thread_id_def
      intro!: countsI split: if_splits option.splits\<close>)
qed

lemma wh_pcs_goto:
  assumes side: "wh_side ts g" and i: "i < length ts" and pc: "ts ! i = Live pc"
    and b: "body (wh_program rnd) i (Some (int (slot (wh_program rnd) i))) pc g = Goto pc' g'"
  shows "pc_ok i pc'"
proof -
  from side have "i < 5" using i by (simp add: wh_side_def pcs_ok_def)
  with b pc_okD [OF side i pc] show ?thesis
    by (cases pc) (auto simp: thread_id_def produce_def i32_check_def split: if_splits option.splits)
qed

lemma wh_goto:
  assumes inv: "wh_inv ts g" and i: "i < length ts" and pc: "ts ! i = Live pc"
    and b: "body (wh_program rnd) i (Some (int (slot (wh_program rnd) i))) pc g = Goto pc' g'"
  shows "wh_inv (ts[i := Live pc']) g'"
proof -
  from inv have ex: "cs_inv sema_held sem_lock at_buffer ts g"
    and pr: "protected at_buffer at_buffer_inv buffer_inv ts g" and side: "wh_side ts g"
    by (auto simp: wh_inv_def)
  have "counts (ts[i := Live pc']) g'"
    by (rule wh_counts_goto [OF side i pc protectedD [OF pr i pc] b])
  moreover have "pcs_ok (ts[i := Live pc'])"
    using side wh_pcs_goto [OF side i pc b] i by (auto simp: wh_side_def pcs_ok_def nth_list_update)
  ultimately show ?thesis
    using wh.cs_goto [OF ex i pc b] wh.protected_goto [OF ex pr side i pc b]
    by (simp add: wh_inv_def wh_side_def)
qed

lemma ring_ops_defined:
  "ring_ok g \<Longrightarrow> 1 \<le> x \<Longrightarrow> length (stored g) < 10 \<Longrightarrow> add_to_buffer x g \<noteq> None"
  "ring_ok g \<Longrightarrow> stored g \<noteq> [] \<Longrightarrow> remove_from_buffer g \<noteq> None"
  using rq.put_spec [of g x] rq.get_spec [of g] by (auto simp: neq_Nil_conv)

lemma wh_defined:
  assumes inv: "wh_inv ts g" and i: "i < length ts" and pc: "ts ! i = Live pc"
  shows "body (wh_program rnd) i (Some (int (slot (wh_program rnd) i))) pc g \<noteq> Crash"
proof -
  from inv have pr: "protected at_buffer at_buffer_inv buffer_inv ts g" and side: "wh_side ts g"
    by (auto simp: wh_inv_def)
  from side i have "i < 5" by (simp add: wh_side_def pcs_ok_def)
  then show ?thesis
    using pc_okD [OF side i pc] protectedD [OF pr i pc] room_to_add [OF side i] item_to_remove [OF side i] pc
    by (cases pc) (auto simp: thread_id_def buffer_inv_def produce_def dest: ring_ops_defined split: option.splits)
qed

lemma wh_main_init_eq:
  "wh_main_init wh_globals0 = Inr g \<Longrightarrow>
   sem_full g = live_sema 0 \<and> sem_empty g = live_sema 10 \<and> sem_lock g = live_sema 1 \<and>
   buffer g = replicate 10 0 \<and> producer_idx_buff g = 0 \<and> consumer_idx_buff g = 0 \<and>
   added_names (stdout g) = [] \<and> took_names (stdout g) = []"
  by (auto simp: wh_main_init_def wh_init_semaphores_def wh_globals0_def sem_simps SEM_VALUE_MAX_def
      added_names_def took_names_def)

lemma wh_init_inv: "wh_main_init wh_globals0 = Inr g \<Longrightarrow> wh_inv (replicate 5 Unborn) g"
proof -
  assume "wh_main_init wh_globals0 = Inr g"
  note g = wh_main_init_eq [OF this]
  then have st: "stored g = []" "ring g = replicate 10 0" by (simp_all add: stored_def ring_def)
  with g have "buffer_inv g" by (simp add: buffer_inv_def ring_ok_def clean_def heard_def)
  moreover have "sema_held (sem_lock g) None" using g by (simp add: sema_holds_def)
  moreover have "wh_side (replicate 5 Unborn) g"
    using g st by (auto simp: wh_side_def pcs_ok_def total_def intro!: countsI)
  ultimately show ?thesis
    by (simp add: wh_inv_def wh.protected_init wh.cs_init)
qed

lemma wh_birth:
  assumes "wh_inv ts g" and "i < length ts" and "ts ! i = Unborn"
  shows "wh_inv (ts[i := Live (entry (wh_program rnd) i)]) g"
proof -
  have "total f (ts[i := Live (entry (wh_program rnd) i)]) = total f ts" if "f P_start = 0" "f C_start = 0" for f
    using total_update [OF assms(2), of f "Live (entry (wh_program rnd) i)"] assms(3) that by simp
  with assms have "wh_side (ts[i := Live (entry (wh_program rnd) i)]) g"
    by (auto simp: wh_inv_def wh_side_def counts_def pcs_ok_def nth_list_update)
  then show ?thesis
    using wh.cs_birth wh.protected_birth assms by (simp add: wh_inv_def)
qed

interpretation wh: thread_program all_ok "wh_program rnd" wh_globals0 wh_inv for rnd
proof unfold_locales
  show "\<exists>g. init (wh_program rnd) wh_globals0 = Inr g \<and> wh_inv (replicate (no_th (wh_program rnd)) Unborn) g"
    using wh_init_inv by (auto simp: wh_main_init_def)
next
  fix ts g i
  assume "wh_inv ts g" "length ts = no_th (wh_program rnd)" "i < no_th (wh_program rnd)" "ts ! i = Unborn"
  then show "wh_inv (ts[i := Live (entry (wh_program rnd) i)]) (before (wh_program rnd) i g)"
    using wh_birth [of ts g i] unfolding wh_program_simps(8) by metis
next
  fix ts g i pc pc' g'
  assume "wh_inv ts g" "length ts = no_th (wh_program rnd)" "i < no_th (wh_program rnd)" "ts ! i = Live pc"
    "body (wh_program rnd) i (Some (int (slot (wh_program rnd) i))) pc g = Goto pc' g'"
  then show "wh_inv (ts[i := Live pc']) g'"
    using wh_goto [of ts g i pc] by metis
next
  fix ts g i pc
  assume "wh_inv ts g" "length ts = no_th (wh_program rnd)" "i < no_th (wh_program rnd)" "ts ! i = Live pc"
  then show "body (wh_program rnd) i (Some (int (slot (wh_program rnd) i))) pc g \<noteq> Crash"
    using wh_defined [of ts g i pc] by metis
next
  fix ts g i pc g'
  assume "body (wh_program rnd) i (Some (int (slot (wh_program rnd) i))) pc g = Return g'"
  then show "wh_inv (ts[i := Done]) g'"
    using wh_no_return [of rnd i _ pc g g'] by blast
qed (auto simp: all_ok_def)

section \<open>Properties\<close>

lemma wh_not_done: "\<not> wh_inv (replicate 5 Done) g"
  by (auto simp: wh_inv_def wh_side_def pcs_ok_def intro!: exI [where x = 0])

lemma wh_reach_inv:
  assumes "reach (proc_step all_ok (wh_program rnd)) (boot (wh_program rnd) wh_globals0) s"
  shows "main s = Init \<and> threads s = replicate 5 Unborn \<and> glob s = wh_globals0 \<or>
    (\<exists>k. main s = Create k \<or> main s = Join k) \<and> length (threads s) = 5 \<and> wh_inv (threads s) (glob s)"
  using wh.sys.reach_inv [OF assms] wh_not_done
  by (cases "main s") (auto simp: proc_inv_def args_ok_def all_ok_def)

lemma heard_took:
  "heard [] pt g \<Longrightarrow>
   \<exists>rest. added_names (stdout g) = took_names (stdout g) @ rest \<and> length rest = length pt + length (stored g)"
  by (auto simp: heard_def intro!: exI [where x = "pt @ map print_item (stored g)"])

lemma heard_added:
  assumes "heard [n] [] g" and "stored g \<noteq> []"
  shows "\<exists>rest. added_names (stdout g) = took_names (stdout g) @ rest \<and> length rest \<le> length (stored g)"
proof -
  from assms(1) have "added_names (stdout g) @ [n] = took_names (stdout g) @ map print_item (stored g)"
    by (auto simp: heard_def)
  then have "added_names (stdout g) = butlast (took_names (stdout g) @ map print_item (stored g))"
    by (metis butlast_snoc)
  with assms(2) show ?thesis by (auto simp: butlast_append)
qed

lemma inside_heard:
  assumes "at_buffer pc" and "at_buffer_inv pc g" and "items_of pc \<le> length (stored g)"
    and "slots_of pc + length (stored g) \<le> 10"
  shows "ring_ok g \<and> (\<exists>rest. added_names (stdout g) = took_names (stdout g) @ rest \<and> length rest \<le> 10)"
  using assms
  by (cases pc) (auto simp: buffer_inv_def dest!: heard_took heard_added)

lemma wh_inv_heard:
  assumes "wh_inv ts g"
  shows "ring_ok g \<and> (\<exists>rest. added_names (stdout g) = took_names (stdout g) @ rest \<and> length rest \<le> 10)"
proof -
  from assms have pr: "protected at_buffer at_buffer_inv buffer_inv ts g" and side: "wh_side ts g"
    by (auto simp: wh_inv_def)
  show ?thesis
  proof (cases "\<exists>i < length ts. inside at_buffer (ts ! i)")
    case True
    then obtain i pc where i: "i < length ts" and pc: "ts ! i = Live pc" "at_buffer pc"
      by (auto simp: inside_iff)
    have "of_thread items_of (ts ! i) \<le> length (stored g)" "of_thread slots_of (ts ! i) + length (stored g) \<le> 10"
      using side of_thread_le [OF i, of items_of] of_thread_le [OF i, of slots_of]
      by (auto simp: wh_side_def counts_def)
    with protectedD [OF pr i pc] pc show ?thesis by (intro inside_heard [of pc]) auto
  next
    case False
    with pr have "buffer_inv g" by (auto simp: protected_def)
    with side show ?thesis by (auto simp: buffer_inv_def wh_side_def counts_def dest: heard_took)
  qed
qed

lemma stored_blank: "stored wh_globals0 = []" "ring_ok wh_globals0"
  by (simp_all add: stored_def ring_def ring_ok_def wh_globals0_def)

text \<open>
  C19. The warehouse is a bounded first-in first-out store, for every interleaving of
  trucks and workers and every sequence of random numbers: the process never runs
  into undefined behaviour, the ring always holds at most ten items in order, and
  what the workers report to have taken is, in order, a prefix of what the trucks
  report to have added, at most ten items behind.
\<close>

theorem warehouse_fifo:
  assumes "reach (proc_step all_ok (wh_program rnd)) (boot (wh_program rnd) wh_globals0) s"
  shows "main s \<noteq> Undefined \<and> ring_ok (glob s) \<and> length (stored (glob s)) \<le> 10 \<and>
    (\<exists>rest. added_names (stdout (glob s)) = took_names (stdout (glob s)) @ rest \<and> length rest \<le> 10)"
  using wh_reach_inv [OF assms]
proof (elim disjE conjE)
  assume "main s = Init" "glob s = wh_globals0"
  then show ?thesis
    using stored_blank by (simp add: wh_globals0_def added_names_def took_names_def)
next
  assume "\<exists>k. main s = Create k \<or> main s = Join k" "wh_inv (threads s) (glob s)"
  with wh_inv_heard [of "threads s" "glob s"] show ?thesis by (auto intro: ring_within)
qed

section \<open>Freedom from deadlock\<close>

lemma inside_moves: "at_buffer pc \<Longrightarrow> producer rnd a pc g \<noteq> Blocked \<and> consumer a pc g \<noteq> Blocked"
  by (cases pc) (auto split: option.splits)

lemma producer_blocked:
  "producer rnd a pc g = Blocked \<Longrightarrow> sem_lock g = live_sema 1 \<Longrightarrow>
   (\<exists>p x. pc = P_wait_empty p x) \<and> sema_down (sem_empty g) = None"
  by (cases pc) (auto simp: produce_def split: option.splits)

lemma consumer_blocked:
  "consumer a pc g = Blocked \<Longrightarrow> sem_lock g = live_sema 1 \<Longrightarrow>
   (\<exists>c. pc = C_wait_full c) \<and> sema_down (sem_full g) = None"
  by (cases pc) (auto split: option.splits)

lemma down_None: "sema_down (live_sema n) = None \<longleftrightarrow> n = 0"
  by (auto simp: sem_simps split: nat.splits)

lemma wh_progress:
  assumes inv: "wh_inv ts g" and born: "\<And>i. i < 5 \<Longrightarrow> ts ! i \<noteq> Unborn"
  shows "\<exists>i pc. i < 5 \<and> ts ! i = Live pc \<and>
    body (wh_program rnd) i (Some (int (slot (wh_program rnd) i))) pc g \<noteq> Blocked"
proof (rule ccontr)
  assume none: "\<not> ?thesis"
  from inv have ex: "cs_inv sema_held sem_lock at_buffer ts g" and side: "wh_side ts g"
    and len: "length ts = 5"
    by (auto simp: wh_inv_def wh_side_def pcs_ok_def)
  from side obtain f e where fe: "sem_full g = live_sema f" "sem_empty g = live_sema e"
      "f + total items_of ts = length (stored g)" "e + total slots_of ts + length (stored g) = 10"
    by (auto simp: wh_side_def counts_def)
  have live: "\<exists>pc. ts ! i = Live pc" if "i < 5" for i
    using side born [OF that] that by (cases "ts ! i") (auto simp: wh_side_def pcs_ok_def)
  have stuck: "(if i < 3 then producer rnd (Some (int i)) pc g else consumer (Some (int (i - 3))) pc g) = Blocked"
    if "i < 5" "ts ! i = Live pc" for i pc
    using none that by auto
  then have out: "\<not> inside at_buffer (ts ! i)" if "i < 5" for i
    using live [OF that] that inside_moves by (fastforce split: if_splits)
  then have free: "sem_lock g = live_sema 1"
    using ex len by (fastforce simp: cs_inv_def sema_holds_def split: if_splits)
  have P: "\<exists>p x. ts ! i = Live (P_wait_empty p x) \<and> e = 0" if "i < 3" for i
    using live [of i] stuck [of i] that producer_blocked [OF _ free] fe(2) by (fastforce simp: down_None)
  have C: "\<exists>c. ts ! i = Live (C_wait_full c) \<and> f = 0" if "3 \<le> i" "i < 5" for i
    using live [of i] stuck [of i] that consumer_blocked [OF _ free] fe(1) by (fastforce simp: down_None)
  have "of_thread items_of (ts ! i) = 0 \<and> of_thread slots_of (ts ! i) = 0" if "i < 5" for i
    using P [of i] C [of i] that by (cases "i < 3") auto
  then have "total items_of ts = 0" "total slots_of ts = 0" by (simp_all add: total_def len)
  with fe P [of 0] C [of 3] show False by simp
qed

text \<open>
  C20. The warehouse cannot deadlock: in every reachable state some thread, or
  \<open>main\<close>, can move.
\<close>

theorem warehouse_no_deadlock:
  assumes "reach (proc_step all_ok (wh_program rnd)) (boot (wh_program rnd) wh_globals0) s"
  shows "\<exists>a t. proc_step all_ok (wh_program rnd) a s = Some t"
proof (cases "\<exists>k. main s = Join k")
  case True
  from wh.sys.reach_inv [OF assms] True
  have inv: "wh_inv (threads s) (glob s)" and born: "\<And>i. i < 5 \<Longrightarrow> threads s ! i \<noteq> Unborn"
    and args: "args_ok (wh_program rnd) s"
    by (auto simp: proc_inv_def)
  from wh_progress [OF inv born, of rnd] obtain i pc where i: "i < 5" "threads s ! i = Live pc"
    "body (wh_program rnd) i (Some (int (slot (wh_program rnd) i))) pc (glob s) \<noteq> Blocked"
    by blast
  with args have "thread_no s ! slot (wh_program rnd) i = Some (int (slot (wh_program rnd) i))"
    by (auto simp: args_ok_def)
  with i args True have "proc_step all_ok (wh_program rnd) (Thr i) s \<noteq> None"
    by (auto simp: thread_step_def running_def args_ok_def simp del: wh_program_simps(3,4) split: outcome.splits)
  then show ?thesis by blast
next
  case False
  with wh_reach_inv [OF assms] have "proc_step all_ok (wh_program rnd) Main s \<noteq> None"
    by (auto simp: main_step_def split: sum.splits)
  then show ?thesis by blast
qed

text \<open>
  C22. At most one thread is ever at the buffer, and every thread reports under its own
  number although each consumer shares its argument's address with a producer:
  trucks are 1, 2, 3 and workers 1, 2.
\<close>

theorem warehouse_exclusive:
  assumes "reach (proc_step all_ok (wh_program rnd)) (boot (wh_program rnd) wh_globals0) s"
  shows "(\<forall>i < 5. \<forall>j < 5. inside at_buffer (threads s ! i) \<and> inside at_buffer (threads s ! j) \<longrightarrow> i = j) \<and>
    (\<forall>i < 5. \<forall>pc. threads s ! i = Live pc \<longrightarrow> pc_ok i pc)"
  using wh_reach_inv [OF assms] cs_inv_excl [of sema_held sem_lock at_buffer "threads s" "glob s"]
  by (auto simp: wh_inv_def wh_side_def pcs_ok_def)

section \<open>A delivery\<close>

text \<open>
  Truck 1 stores a hat and worker 1 takes it: a schedule on which the theorems above
  apply.
\<close>

definition wh_schedule :: "actor list" where
  "wh_schedule = replicate 7 Main @ replicate 10 (Thr 0) @ replicate 7 (Thr 3)"

definition wh_state :: "(wh_pc, wh_globals) proc" where
  "wh_state = the (run (proc_step all_ok (wh_program (\<lambda>_. 0))) wh_schedule (boot (wh_program (\<lambda>_. 0)) wh_globals0))"

lemma wh_state_run:
  "run (proc_step all_ok (wh_program (\<lambda>_. 0))) wh_schedule (boot (wh_program (\<lambda>_. 0)) wh_globals0) = Some wh_state"
  by code_simp

lemma wh_state_reach: "reach (proc_step all_ok (wh_program (\<lambda>_. 0))) (boot (wh_program (\<lambda>_. 0)) wh_globals0) wh_state"
  using wh_state_run reach_iff_run by fast

theorem warehouse_fifo_witness:
  "took_names (stdout (glob wh_state)) = [''hat''] \<and> added_names (stdout (glob wh_state)) = [''hat''] \<and>
   ring_ok (glob wh_state)"
proof -
  have "took_names (stdout (glob wh_state)) = [''hat'']" by code_simp
  moreover have "added_names (stdout (glob wh_state)) = [''hat'']" by code_simp
  ultimately show ?thesis using warehouse_fifo [OF wh_state_reach] by blast
qed

theorem warehouse_no_deadlock_witness:
  "\<exists>a t. proc_step all_ok (wh_program (\<lambda>_. 0)) a wh_state = Some t"
  by (rule warehouse_no_deadlock [OF wh_state_reach])

theorem warehouse_exclusive_witness:
  "threads wh_state ! 3 = Live (C_post_lock 1 1) \<and> pc_ok 3 (C_post_lock 1 1)"
proof -
  have "threads wh_state ! 3 = Live (C_post_lock 1 1)" by code_simp
  with warehouse_exclusive [OF wh_state_reach] show ?thesis by auto
qed

section \<open>Failing to create a thread\<close>

lemma wh_err_step:
  assumes "create_rc rc i \<noteq> -1" "join_rc rc i \<noteq> -1"
  shows "err (create_thread rc (wh_program rnd) i s) = err s"
    and "wait_thread rc (wh_program rnd) i s = Some t \<Longrightarrow> err t = err s"
  using assms by (auto simp: create_thread_def wait_thread_def Let_def split: thread.splits)

interpretation wh_err: invariant_system "proc_step rc (wh_program rnd)" "boot (wh_program rnd) wh_globals0"
  "\<lambda>s. (\<forall>i. create_rc rc i \<noteq> -1 \<and> join_rc rc i \<noteq> -1) \<longrightarrow> err s = []" for rc rnd
proof (unfold_locales, goal_cases)
  case 1
  show ?case by (simp add: boot_def)
next
  case (2 s a t)
  then show ?case
    by (cases a)
      (auto simp: main_step_def thread_step_def wh_main_init_def wh_err_step(1) dest: wh_err_step(2) [rotated 2]
        split: main_pc.splits if_splits thread.splits outcome.splits)
qed

lemma failed_create_step:
  assumes "main s = Create k" "k < 5" "threads s ! 0 = Unborn"
    and "0 < create_rc rc 0" "\<forall>i. 0 \<le> create_rc rc i"
  shows "\<exists>t. main_step rc (wh_program rnd) s = Some t \<and> main t = Create (Suc k) \<and> threads t ! 0 = Unborn"
proof -
  from assms(5) have "create_rc rc k \<noteq> -1" by (metis neg_0_le_iff_le not_one_le_zero)
  with assms show ?thesis
    by (cases "k = 0") (auto simp: main_step_def create_thread_def Let_def)
qed

lemma failed_create_run:
  assumes "main s = Create k" "k + n \<le> 5" "threads s ! 0 = Unborn"
    and "0 < create_rc rc 0" "\<forall>i. 0 \<le> create_rc rc i"
  shows "\<exists>t. run (proc_step rc (wh_program rnd)) (replicate n Main) s = Some t \<and>
    main t = Create (k + n) \<and> threads t ! 0 = Unborn"
  using assms
proof (induction n arbitrary: s k)
  case (Suc n)
  from failed_create_step [OF Suc.prems(1) _ Suc.prems(3-5)] Suc.prems(2)
  obtain t where "main_step rc (wh_program rnd) s = Some t" "main t = Create (Suc k)" "threads t ! 0 = Unborn"
    by auto
  with Suc.IH [of t "Suc k"] Suc.prems show ?case by auto
qed simp

text \<open>
  Lab 5b never notices that a thread could not be created. \<open>pthread_create\<close> and
  \<open>pthread_join\<close> report errors as positive numbers and never return -1, which is what
  \<open>main\<close> compares with: so \<open>error_msg\<close> is unreachable, and when the first creation
  fails, \<open>main\<close> goes on to join a thread that does not exist.
\<close>

theorem warehouse_ignores_create_errors:
  assumes "\<forall>i. 0 \<le> create_rc rc i \<and> 0 \<le> join_rc rc i" and "0 < create_rc rc 0"
  shows "(\<forall>s. reach (proc_step rc (wh_program rnd)) (boot (wh_program rnd) wh_globals0) s \<longrightarrow> err s = []) \<and>
    (\<exists>s. run (proc_step rc (wh_program rnd)) (replicate 8 Main) (boot (wh_program rnd) wh_globals0) = Some s \<and>
      main s = Undefined)"
proof -
  let ?step = "proc_step rc (wh_program rnd)"
  have rc: "create_rc rc i \<noteq> -1 \<and> join_rc rc i \<noteq> -1" for i
    using assms(1) by (metis neg_0_le_iff_le not_one_le_zero)
  obtain s1 where s1: "main_step rc (wh_program rnd) (boot (wh_program rnd) wh_globals0) = Some s1"
      "main s1 = Create 0" "threads s1 ! 0 = Unborn"
    by (simp add: main_step_def boot_def wh_main_init_def)
  from failed_create_run [OF s1(2) _ s1(3) assms(2), of 5] assms(1)
  obtain s2 where s2: "run ?step (replicate 5 Main) s1 = Some s2" "main s2 = Create 5" "threads s2 ! 0 = Unborn"
    by auto
  then have "run ?step [Main, Main] s2 = Some (s2\<lparr>main := Undefined\<rparr>)"
    by (simp add: main_step_def wait_thread_def)
  with s1 s2 have "run ?step ([Main] @ replicate 5 Main @ [Main, Main]) (boot (wh_program rnd) wh_globals0)
      = Some (s2\<lparr>main := Undefined\<rparr>)"
    by (simp only: run_append) simp
  moreover have "[Main] @ replicate 5 Main @ [Main, Main] = replicate 8 Main"
    by (simp add: numeral_eq_Suc)
  ultimately have "run ?step (replicate 8 Main) (boot (wh_program rnd) wh_globals0)
      = Some (s2\<lparr>main := Undefined\<rparr>)" by (simp only:)
  moreover have "err s = []" if "reach ?step (boot (wh_program rnd) wh_globals0) s" for s
    using wh_err.reach_inv [OF that] rc by blast
  ultimately show ?thesis by (simp del: replicate.simps)
qed

definition out_of_threads :: rcodes where
  "out_of_threads = \<lparr>create_rc = (\<lambda>_. 11), join_rc = (\<lambda>_. 0)\<rparr>"

theorem warehouse_ignores_create_errors_witness:
  "\<exists>s. run (proc_step out_of_threads (wh_program (\<lambda>_. 0))) (replicate 8 Main) (boot (wh_program (\<lambda>_. 0)) wh_globals0)
      = Some s \<and> main s = Undefined \<and> err s = []"
proof -
  have "\<forall>i. 0 \<le> create_rc out_of_threads i \<and> 0 \<le> join_rc out_of_threads i" "0 < create_rc out_of_threads 0"
    by (simp_all add: out_of_threads_def)
  from warehouse_ignores_create_errors [OF this, of "\<lambda>_. 0"] show ?thesis
    using reach_iff_run by fast
qed

end
