(* ===== verification/Spec2Isabelle.thy ===== *)
theory Spec2Isabelle
  imports Cpp_Odd_Even Cpp_Warehouse Cpp_Mutex Cpp_Airport Cpp_Matrix Cpp_Calculate Cpp_Fork
    Cpp_Pipe Cpp_Queue Cpp_Socket Cpp_Shm
    Message_Queue Shared_Memory Two_Way_Pipe Socket_Echo Size_Class_Heap Simple_Monitor Fork_Exec
    Calculate Matrix_Rows Mutex_Counter Mutex_Blocks Airport Odd_Even Warehouse
begin

text \<open>
  Verification of posix-intro, a collection of exercises in POSIX system programming: small
  C programs on processes, threads, mutexes, semaphores, monitors, memory allocation and
  inter-process communication, most of them written a second time in C++. This theory imports the development; the theories are
  named below with the files under \<^verbatim>\<open>src/\<close> that they model.

  \<^bold>\<open>How programs are modelled.\<close> A C function or a C++ method is a HOL function over a record of the
  variables it uses; a C++ exception is a value that ends the construction or the program, or is
  received by the handler of \<open>main\<close>. A concurrent program is a step function \<open>step :: 'i \<Rightarrow> 's \<Rightarrow> 's option\<close>: one atomic
  action of actor \<open>i\<close> (a thread, a process, a signal), or \<open>None\<close> when \<open>i\<close> sleeps or has ended.
  A schedule is a list of actors, so every interleaving is a value; \<open>run\<close> executes a schedule
  and \<open>reach\<close> is the set of reachable states. Loads and stores of shared variables, calls of
  the kernel and of the thread library, and output are separate actions. Undefined behaviour
  of C (signed overflow, an access out of bounds, a string without an end, the use of an
  object that does not exist) is a state of its own (\<open>Crash\<close>, \<open>Undefined\<close>, \<open>None\<close>), and the
  safety theorems say that it is not reached. Signed integers are \<open>int\<close> with an explicit check
  of the range of \<^verbatim>\<open>int32_t\<close>; sizes of the allocator are 64-bit words; positions in the C++ matrix are
  \<open>size_t\<close>, with its wrap-around written out; C strings are arrays of
  characters with a fixed length. Everything that evaluates is executable, and the witnesses
  of the theorems run the programs.

  \<^bold>\<open>The library.\<close>

  \<^item> \<open>Prelude\<close>: schedules, reachability, checked integers, and the locales \<open>invariant_system\<close> and
    \<open>terminating_system\<close> that carry all safety and termination proofs: an invariant kept by
    every step, a measure that every step decreases, and the fact that nobody is stuck before
    the end give that every schedule is finite and that one which cannot be extended has
    reached the final state.
  \<^item> \<open>Posix_Semaphore\<close> (\<^verbatim>\<open>c/include/posix_semaphore.h\<close>): \<open>sem_t\<close> with its error codes, the wrapper
    \<open>rk_sema\<close>, and the contracts \<open>counting_semaphore\<close> and \<open>lock\<close>. The wrapper hides interruptions;
    a semaphore of value one is a lock.
  \<^item> \<open>Pthread\<close> (the \<^verbatim>\<open>main\<close> that the labs share, after \<^verbatim>\<open>c/c_lab04.c\<close>): creation, joining, exit and the
    reaction to error codes for a program given by its thread functions, and locales on top
    of each other: \<open>thread_program\<close> (an invariant of the globals is an invariant of the process),
    \<open>terminating_program\<close>, \<open>counted_program\<close>, \<open>critical_section\<close> and \<open>protected_section\<close> (mutual
    exclusion for any lock that meets the contract), \<open>locked_program\<close>.
  \<^item> \<open>Cpp_Thread\<close> (\<^verbatim>\<open>cpp/include/common.hh\<close>): the same skeleton with \<open>std::thread\<close>s: what happens when
    the constructor of a thread throws, a signal handler, and the proofs that carry the
    invariants and the termination of a \<open>Pthread\<close> program over to it.
  \<^item> \<open>Cstring\<close>: \<open>fgets\<close>, \<open>strtok\<close>, \<open>strncmp\<close>, \<open>strncasecmp\<close>, \<open>strncpy\<close>, \<open>strncat\<close>, \<open>memset\<close> on arrays. \<open>Channel\<close>:
    the contract of a channel that delivers whole messages in order. \<open>Cin\<close>: \<open>std::cin.getline\<close> on
    arrays, and which lines a program that reads until a given line gets to see. \<open>Pipe_Pair\<close>: two
    processes that take turns over two pipes, for any length of messages and any way of asking
    the user (locales \<open>pipe_pair\<close> and \<open>pipe_talk\<close>).

  \<^bold>\<open>The programs.\<close>

  \<^item> \<open>Fork_Exec\<close> (\<^verbatim>\<open>c/c_lab01.c\<close>): parent and child; the status is reported as it is, a failing
    \<open>execl\<close> goes unnoticed.
  \<^item> \<open>Calculate\<close> (\<^verbatim>\<open>c/c_lab02_a.c\<close>): the triple loop equals a closed form and overflows exactly when
    that does. \<open>Matrix_Rows\<close> (\<^verbatim>\<open>c/c_lab02_b.c\<close>): one thread per row computes the sum of the matrices.
  \<^item> \<open>Mutex_Counter\<close> (\<^verbatim>\<open>c/c_lab03_a.c\<close>) and \<open>Mutex_Blocks\<close> (\<^verbatim>\<open>c/c_lab03_b.c\<close>): output in whole blocks under
    every schedule, and the final value of the counter.
  \<^item> \<open>Airport\<close> (\<^verbatim>\<open>c/c_lab04.c\<close>, \<^verbatim>\<open>c/c_lab06.c\<close>): the airplane thread over any lock; both programs land all
    planes one at a time, follow the same schedules with the same traffic, and exit with 1
    exactly if a call failed.
  \<^item> \<open>Odd_Even\<close> (\<^verbatim>\<open>c/c_lab05_a.c\<close>): the numbers 1 to 30 in order for every schedule.
  \<^item> \<open>Warehouse_Ring\<close> and \<open>Warehouse\<close> (\<^verbatim>\<open>c/c_lab05_b.c\<close>): the ring refines a bounded queue: every sequence of
    operations that a ten-place list allows has the same results (locale \<open>bounded_queue\<close>); producers and consumers are exclusive at the buffer, never overrun it, hand
    over items in order, and never deadlock.
  \<^item> \<open>Simple_Monitor\<close> (\<^verbatim>\<open>c/include/simple_monitor.h\<close>): any number of threads that wait and knock; ten
    knocks per signal, the release of a sleeping thread by ten knocks in any interleaving, and what goes wrong with a second waiter or a spurious wakeup.
  \<^item> \<open>Size_Class_Heap\<close> (\<^verbatim>\<open>c/c_lab07_b.c\<close>): the size classes, the allocator on top of \<open>mmap\<close> and its test
    driver; where it is correct and where it leaves its mappings.
  \<^item> \<open>Message_Queue\<close> (\<^verbatim>\<open>c/ipc/include/type.h\<close>, \<^verbatim>\<open>c/ipc/message_passing/message_queue\<close>),
    \<open>Shared_Memory\<close> (\<^verbatim>\<open>c/ipc/include/shm_type.h\<close>, \<^verbatim>\<open>c/ipc/memory_based/shared_memory\<close>),
    \<open>Two_Way_Pipe\<close> (\<^verbatim>\<open>c/ipc/message_passing/pipe\<close>) and
    \<open>Socket_Echo\<close> (\<^verbatim>\<open>c/ipc/include/socket.h\<close>, \<^verbatim>\<open>c/ipc/message_passing/socket\<close>): pairs of processes and the
    kernel objects between them. For each pair: what arrives is what was sent, in order and
    whole, for every schedule; both processes end if the user types the closing line; and the
    conditions outside of which the code misbehaves (arrays, mappings and paths that are too
    small, short reads, processes that have gone). An action of a socket program comes with the
    number of bytes that a read finds; the round trips assume of the schedule that each read finds
    a whole message if there is one, which TCP does not promise. The conversation over the pipes assumes that
    an array that the parent does not initialise holds a terminated string.

  \<^bold>\<open>The C++ programs.\<close>

  \<^item> \<open>Cpp_Fork\<close> (\<^verbatim>\<open>cpp/cc_lab01.cc\<close>, \<^verbatim>\<open>cpp/include/custom_exception.hh\<close>): exceptions thrown as pointers miss
    their handler.
  \<^item> \<open>Cpp_Calculate\<close> (\<^verbatim>\<open>cpp/cc_lab02_a.cc\<close>): the cached triple loop on unsigned numbers, modulo \<open>2 ^ 64\<close>.
    \<open>Cpp_Matrix\<close> (\<^verbatim>\<open>cpp/cc_lab02_b.cc\<close>): the template \<open>Matrix<N, M>\<close> with its range checks, and one
    task per column for all dimensions whose product is a \<open>size_t\<close>; with a larger product the indices
    leave the array.
  \<^item> \<open>Cpp_Mutex\<close> (\<^verbatim>\<open>cpp/cc_lab03_a.cc\<close>, \<^verbatim>\<open>cpp/cc_lab03_b.cc\<close>) and \<open>Cpp_Airport\<close> (\<^verbatim>\<open>cpp/cc_lab04.cc\<close>,
    \<^verbatim>\<open>cpp/cc_lab06.cc\<close>): as the C programs, with the ways in which a failing thread ends them.
  \<^item> \<open>Cpp_Odd_Even\<close> and \<open>Cpp_Warehouse\<close> (the classes \<open>Binary::Semaphore\<close> and
    \<open>ProducerConsumer::Semaphore\<close> of \<^verbatim>\<open>cpp/include/buffer.hh\<close>; \<^verbatim>\<open>cpp/cc_lab05_a.cc\<close>, \<^verbatim>\<open>cpp/cc_lab05_b.cc\<close>): for any
    limit, any length of the buffer and any number of threads. The first reads the counter too
    late and may stop one number early; the second is safe, ends within a bound after Ctrl-C or
    hangs, and draws a wrong picture.
  \<^item> \<open>Cpp_Pipe\<close>, \<open>Cpp_Queue\<close>, \<open>Cpp_Socket\<close> and \<open>Cpp_Shm\<close> (\<^verbatim>\<open>cpp/ipc\<close>): the pairs of processes. What is typed
    as lines that fit is what the other process shows (for the pipe: unless the other user ends
    the conversation first); a line that does not fit, or the end of
    the input, makes the first three run for ever. \<open>Cpp_Shm\<close> uses the kernel objects and the invariants of
    \<open>Shared_Memory\<close>, whose loops it proves equal to its own, and its writer also works with the C
    reader; the C++ reader of \<open>Cpp_Queue\<close> does not understand the C writer.

  \<^bold>\<open>Bounds.\<close> No model uses fuel: loops are recursive functions with a termination proof or step
  functions whose runs are bounded by a measure, and the bounds are part of the theorems (for
  example 638 steps for lab 5a and \<open>9 * k + 26\<close> for a conversation over the pipes with \<open>k\<close> lines
  before the closing one). The only loops that may not return, those of \<open>Cpp_Calculate\<close>, are
  partial functions, and the theorems say when they return. Lab 5b runs for ever; for it safety
  and the absence of deadlocks are proved. The monitor, the message queue and the pipes are verified for any number of
  threads, any capacity of the queue and any input.

  \<^bold>\<open>Parameters.\<close> Results of the kernel and the C library that the programs react to are
  parameters: return codes of the pthread calls, of \<open>fork\<close>, \<open>execl\<close> and \<open>wait\<close>, \<open>mmap\<close>, \<open>malloc\<close> and \<open>rand\<close>,
  \<open>sigaction\<close>, \<open>sem_open\<close>, \<open>open\<close>, \<open>socket\<close> and its relatives, the contents of uninitialised arrays,
  the working directory, and the users' input.

  \<^bold>\<open>Not modelled.\<close> The Rust versions (\<^verbatim>\<open>rust/\<close>), which are other programs in another language; the
  branch of \<^verbatim>\<open>posix_semaphore.h\<close> for \<^verbatim>\<open>__APPLE__\<close>; durations of \<open>sleep\<close>; weak memory (every access to a
  shared variable is sequentially consistent); fixed prompts and progress messages of the
  inter-process programs; signals that interrupt a sleeping call of the pipe program, a
  second signal while a handler runs, and failing or partial writes to sockets; a failing
  \<open>msgget\<close>; the loop of \<^verbatim>\<open>cpp/cc_lab06.cc\<close> for 65535 airplanes, whose 16-bit counter would wrap
  around (\<open>main\<close> asks for five); a failing \<open>open\<close> of an existing file or semaphore by the readers; exhaustion of memory in
  the C++ library; the ports, families and addresses of the sockets and the order of the calls that
  set them up (their results are arguments of the set-up, used as far as the code gets);
  the formatting by \<open>setw\<close> and \<open>setfill\<close>; output that is still in a buffer when \<open>execl\<close> succeeds; an interrupt of
  the queue's reader as an actor of its system (it is a function of its own, \<open>sigint_reader\<close>, with a
  theorem of its own); data races as such of the C++ programs on \<open>std::cout\<close> and the plain \<open>bool\<close> that a handler writes;
  deleted copy operations and virtual destructors of the C++ classes, which
  do nothing; commented-out code; build files and documentation.

  Some models end earlier than the code or fail where it need not; the theorems say that these
  ends are not reached, or when they are: an access to a mapping beyond the length asked for is a fault, although the
  kernel maps whole pages; a failing \<open>pthread_join\<close> returns only when the thread is done; and a
  semaphore that cannot be destroyed in \<open>Cpp_Odd_Even\<close> and an exception before the tasks of \<open>Cpp_Matrix\<close>
  end the run of the model with an error, where the code prints a message and goes on or returns 0.
\<close>

end
